(* ===== verification/Cxx_Prelude.thy ===== *)
theory Cxx_Prelude
  imports Main "HOL-Library.Word" "HOL-Library.Multiset" "HOL-Library.List_Lexorder"
    "HOL-Library.Char_ord" "HOL-Library.Product_Lexorder"
begin

text \<open>
  What the sources use of C++ and of its standard library, and the generic lemmas every
  component shares.

  \<^item> \<open>error\<close> lists how a call can fail to return: \<open>exit(n)\<close>, a failed \<open>assert\<close>
    (only in a build without \<open>NDEBUG\<close>, see \<open>build\<close>), undefined behaviour (an index out of
    a vector's range, the dereference of an end iterator), an exception of \<open>std::stoll\<close> and
    \<open>std::stoull\<close>, or a loop that does not end (\<open>Diverges\<close>). A result is \<open>error + 'a\<close>.
  \<^item> \<open>fold_res\<close> is a \<open>for\<close> loop whose body may fail, \<open>map_res\<close> one that collects results.
  \<^item> \<open>lb_loop\<close> is the halving search behind \<open>std::lower_bound\<close>,
    \<open>std::upper_bound\<close> and \<open>std::binary_search\<close>.
  \<^item> \<open>smap_put\<close>, \<open>smap_erase\<close>: \<open>std::map\<close> as an association list in key order.
  \<^item> \<open>grow\<close>: the loops that push empty elements until an index is in range.
  \<^item> \<open>wrap32\<close>, \<open>to_uint\<close>: conversions to \<open>int\<close> and to \<open>unsigned int\<close>.

  \<open>long long\<close> keys are \<open>int\<close> (the sources only compare them), \<open>std::string\<close> keys are
  \<open>string\<close> in the lexicographic order of unsigned bytes, \<open>std::pair\<close> and \<open>std::tuple\<close>
  compare lexicographically.
\<close>

named_theorems std_simps \<open>rewriting of the standard library's operations\<close>

section \<open>Results\<close>

datatype error = Exit int | Assert_failed | Undefined_behaviour | Invalid_argument | Out_of_range | Diverges

datatype build = Debug | NDebug

type_synonym 'a result = "error + 'a"

fun bind_res :: "'a result \<Rightarrow> ('a \<Rightarrow> 'b result) \<Rightarrow> 'b result" where
  "bind_res (Inl e) f = Inl e"
| "bind_res (Inr x) f = f x"

definition cxx_assert :: "build \<Rightarrow> bool \<Rightarrow> 'a result \<Rightarrow> 'a result" where
  "cxx_assert b P k = (if b = Debug \<and> \<not> P then Inl Assert_failed else k)"

fun fold_res :: "('x \<Rightarrow> 's \<Rightarrow> 's result) \<Rightarrow> 'x list \<Rightarrow> 's \<Rightarrow> 's result" where
  "fold_res f [] s = Inr s"
| "fold_res f (x # xs) s = bind_res (f x s) (fold_res f xs)"

fun map_res :: "('x \<Rightarrow> 'y result) \<Rightarrow> 'x list \<Rightarrow> 'y list result" where
  "map_res f [] = Inr []"
| "map_res f (x # xs) = bind_res (f x) (\<lambda>y. bind_res (map_res f xs) (\<lambda>ys. Inr (y # ys)))"

lemma bind_res_Inr_iff [simp]:
  "bind_res m f = Inr y \<longleftrightarrow> (\<exists>x. m = Inr x \<and> f x = Inr y)"
  by (cases m) auto

lemma bind_res_assoc: "bind_res (bind_res m f) g = bind_res m (\<lambda>x. bind_res (f x) g)"
  by (cases m) auto

lemma bind_res_cong:
  "m = m' \<Longrightarrow> (\<And>x. m' = Inr x \<Longrightarrow> f x = f' x) \<Longrightarrow> bind_res m f = bind_res m' f'"
  by (cases m') auto

lemma cxx_assert_True [simp]: "cxx_assert b True k = k"
  by (simp add: cxx_assert_def)

lemma cxx_assert_holds: "P \<Longrightarrow> cxx_assert b P k = k"
  by simp

lemma cxx_assert_NDebug [simp]: "cxx_assert NDebug P k = k"
  by (simp add: cxx_assert_def)

lemma cxx_assert_Inr_iff:
  "cxx_assert b P k = Inr y \<longleftrightarrow> (b = Debug \<longrightarrow> P) \<and> k = Inr y"
  by (auto simp: cxx_assert_def)

lemma fold_res_append:
  "fold_res f (xs @ ys) s = bind_res (fold_res f xs s) (fold_res f ys)"
proof (induction xs arbitrary: s)
  case (Cons x xs)
  then show ?case by (cases "f x s") auto
qed simp

text \<open>A loop invariant for \<open>fold_res\<close>: the body succeeds and keeps \<open>I\<close>, which records
  the elements already processed.\<close>

lemma fold_res_invariant:
  assumes "\<And>ys x zs s. xs = ys @ x # zs \<Longrightarrow> I ys s \<Longrightarrow> \<exists>s'. f x s = Inr s' \<and> I (ys @ [x]) s'"
    and "I [] s"
  shows "\<exists>s'. fold_res f xs s = Inr s' \<and> I xs s'"
proof -
  have "\<exists>s'. fold_res f zs s = Inr s' \<and> I (ys @ zs) s'"
    if "xs = ys @ zs" "I ys s" for ys zs s
    using that
  proof (induction zs arbitrary: ys s)
    case (Cons x zs)
    obtain s1 where s1: "f x s = Inr s1" "I (ys @ [x]) s1"
      using assms(1) Cons.prems by blast
    then obtain s2 where "fold_res f zs s1 = Inr s2" "I ((ys @ [x]) @ zs) s2"
      using Cons.IH[of "ys @ [x]" s1] Cons.prems(1) by auto
    then show ?case using s1 by auto
  qed simp
  then show ?thesis using assms(2) by (metis append_Nil)
qed

lemma map_res_Inr: "(\<And>x. x \<in> set xs \<Longrightarrow> f x = Inr (g x)) \<Longrightarrow> map_res f xs = Inr (map g xs)"
  by (induction xs) auto

lemma map_res_Ex:
  assumes "\<And>x. x \<in> set xs \<Longrightarrow> \<exists>y. f x = Inr y \<and> P x y"
  shows "\<exists>ys. map_res f xs = Inr ys \<and> list_all2 P xs ys"
  using assms
proof (induction xs)
  case (Cons x xs)
  obtain ys where "map_res f xs = Inr ys" "list_all2 P xs ys" using Cons by auto
  moreover obtain y where "f x = Inr y" "P x y" using Cons.prems by auto
  ultimately show ?case by auto
qed simp

section \<open>Machine integers\<close>

type_synonym u32 = "32 word"
type_synonym fd = "64 word"

definition wrap32 :: "int \<Rightarrow> int" where
  "wrap32 x = (x + 2 ^ 31) mod 2 ^ 32 - 2 ^ 31"

definition to_uint :: "int \<Rightarrow> nat" where
  "to_uint i = nat (i mod 2 ^ 32)"

lemma wrap32_range: "- (2 ^ 31) \<le> wrap32 x \<and> wrap32 x < 2 ^ 31"
  by (simp add: wrap32_def)

lemma wrap32_id: "- (2 ^ 31) \<le> x \<Longrightarrow> x < 2 ^ 31 \<Longrightarrow> wrap32 x = x"
  by (simp add: wrap32_def)

lemma wrap32_add: "wrap32 (wrap32 x + y) = wrap32 (x + y)"
  by (simp add: wrap32_def mod_simps algebra_simps)

lemma to_uint_nonneg: "0 \<le> i \<Longrightarrow> i < 2 ^ 32 \<Longrightarrow> to_uint i = nat i"
  by (simp add: to_uint_def)

lemma to_uint_neg: "to_uint (-1) = 2 ^ 32 - 1"
  by (simp add: to_uint_def)

section \<open>Binary search\<close>

text \<open>The loop of \<open>std::lower_bound\<close>: \<open>P a\<close> is \<open>comp(a, value)\<close>. For
  \<open>std::upper_bound\<close>, \<open>P a\<close> is \<open>!comp(value, a)\<close>.\<close>

function lb_loop :: "('a \<Rightarrow> bool) \<Rightarrow> 'a list \<Rightarrow> nat \<Rightarrow> nat \<Rightarrow> nat" where
  "lb_loop P xs first len =
     (if len = 0 then first
      else if P (xs ! (first + len div 2))
           then lb_loop P xs (first + len div 2 + 1) (len - len div 2 - 1)
           else lb_loop P xs first (len div 2))"
  by pat_completeness auto
termination by (relation "measure (\<lambda>(P, xs, first, len). len)") auto

declare lb_loop.simps [simp del]

definition lower_bound :: "('a \<Rightarrow> bool) \<Rightarrow> 'a list \<Rightarrow> nat" where
  "lower_bound P xs = lb_loop P xs 0 (length xs)"

definition upper_bound :: "('a \<Rightarrow> bool) \<Rightarrow> 'a list \<Rightarrow> nat" where
  "upper_bound Q xs = lower_bound (\<lambda>a. \<not> Q a) xs"

definition binary_search :: "'a::linorder list \<Rightarrow> 'a \<Rightarrow> bool" where
  "binary_search xs v =
     (let i = lower_bound (\<lambda>a. a < v) xs in i < length xs \<and> \<not> v < xs ! i)"

definition partitioned :: "('a \<Rightarrow> bool) \<Rightarrow> 'a list \<Rightarrow> bool" where
  "partitioned P xs \<longleftrightarrow> sorted_wrt (\<lambda>a b. P b \<longrightarrow> P a) xs"

lemma partitioned_index:
  "partitioned P xs \<Longrightarrow> i < length xs \<Longrightarrow> P (xs ! i) \<longleftrightarrow> i < length (takeWhile P xs)"
proof (induction xs arbitrary: i)
  case (Cons x xs)
  then show ?case
    by (cases i) (auto simp: partitioned_def)
qed simp

lemma lb_loop_takeWhile:
  "partitioned P xs \<Longrightarrow> first + len \<le> length xs \<Longrightarrow> first \<le> length (takeWhile P xs) \<Longrightarrow>
   length (takeWhile P xs) \<le> first + len \<Longrightarrow> lb_loop P xs first len = length (takeWhile P xs)"
proof (induction P xs first len rule: lb_loop.induct)
  case (1 P xs first len)
  show ?case
  proof (cases "len = 0")
    case True
    then show ?thesis using "1.prems" by (simp add: lb_loop.simps)
  next
    case False
    let ?mid = "first + len div 2"
    have mid: "?mid < length xs" using False "1.prems"(2) by linarith
    show ?thesis
    proof (cases "P (xs ! ?mid)")
      case True
      then have "?mid < length (takeWhile P xs)"
        using partitioned_index[OF "1.prems"(1) mid] by simp
      then show ?thesis
        using True False "1.IH"(1)[OF False True] "1.prems" by (simp add: lb_loop.simps[of P xs first len])
    next
      case F: False
      then have "length (takeWhile P xs) \<le> ?mid"
        using partitioned_index[OF "1.prems"(1) mid] by simp
      then show ?thesis
        using F False "1.IH"(2)[OF False F] "1.prems" mid by (simp add: lb_loop.simps[of P xs first len])
    qed
  qed
qed

lemma lower_bound_takeWhile [std_simps]:
  "partitioned P xs \<Longrightarrow> lower_bound P xs = length (takeWhile P xs)"
  by (simp add: lower_bound_def lb_loop_takeWhile length_takeWhile_le)

lemma partitioned_less: "sorted xs \<Longrightarrow> partitioned (\<lambda>a. a < (v::'a::linorder)) xs"
  by (auto simp: partitioned_def elim!: sorted_wrt_mono_rel[rotated])

lemma sorted_lower_bound_hit:
  fixes v :: "'a::linorder"
  assumes "sorted xs"
  defines "i \<equiv> lower_bound (\<lambda>a. a < v) xs"
  shows "(i < length xs \<and> xs ! i = v) \<longleftrightarrow> v \<in> set xs"
proof -
  have i: "i = length (takeWhile (\<lambda>a. a < v) xs)"
    unfolding i_def using lower_bound_takeWhile partitioned_less assms(1) by blast
  have split: "xs = takeWhile (\<lambda>a. a < v) xs @ dropWhile (\<lambda>a. a < v) xs" by simp
  show ?thesis
  proof
    assume "v \<in> set xs"
    then have "v \<in> set (dropWhile (\<lambda>a. a < v) xs)"
      by (metis Un_iff order_less_irrefl set_append set_takeWhileD split)
    then obtain y ys where y: "dropWhile (\<lambda>a. a < v) xs = y # ys" by (cases "dropWhile (\<lambda>a. a < v) xs") auto
    then have "\<not> y < v" by (metis hd_dropWhile list.distinct(1) list.sel(1))
    moreover have "sorted (y # ys)" using sorted_dropWhile[OF assms(1)] y by metis
    ultimately have "y = v" using \<open>v \<in> set (dropWhile (\<lambda>a. a < v) xs)\<close> y by auto
    have "xs ! i = y" by (subst split) (simp add: i nth_append y)
    moreover have "i < length xs" using i y split
      by (metis length_append length_Cons less_add_Suc1 add_Suc_right)
    ultimately show "i < length xs \<and> xs ! i = v" using \<open>y = v\<close> by simp
  qed auto
qed

lemma binary_search_correct [std_simps]: "sorted xs \<Longrightarrow> binary_search xs v \<longleftrightarrow> v \<in> set xs"
proof -
  assume s: "sorted xs"
  let ?i = "lower_bound (\<lambda>a. a < v) xs"
  have i: "?i = length (takeWhile (\<lambda>a. a < v) xs)"
    using lower_bound_takeWhile partitioned_less s by blast
  have "?i < length xs \<Longrightarrow> \<not> xs ! ?i < v"
    using nth_length_takeWhile[of "\<lambda>a. a < v" xs] i by simp
  then have "binary_search xs v \<longleftrightarrow> ?i < length xs \<and> xs ! ?i = v"
    by (auto simp: binary_search_def Let_def)
  then show ?thesis using sorted_lower_bound_hit[OF s] by simp
qed

section \<open>std::map as a sorted association list\<close>

fun smap_put :: "'k::linorder \<Rightarrow> 'v \<Rightarrow> ('k \<times> 'v) list \<Rightarrow> ('k \<times> 'v) list" where
  "smap_put k v [] = [(k, v)]"
| "smap_put k v ((k', v') # m) =
     (if k < k' then (k, v) # (k', v') # m
      else if k = k' then (k, v) # m
      else (k', v') # smap_put k v m)"

definition smap_erase :: "'k \<Rightarrow> ('k \<times> 'v) list \<Rightarrow> ('k \<times> 'v) list" where
  "smap_erase k m = filter (\<lambda>e. fst e \<noteq> k) m"

definition smap_ok :: "('k::linorder \<times> 'v) list \<Rightarrow> bool" where
  "smap_ok m \<longleftrightarrow> sorted_wrt (<) (map fst m)"

lemma map_of_smap_put [simp]: "map_of (smap_put k v m) = (map_of m)(k \<mapsto> v)"
  by (induction k v m rule: smap_put.induct) (auto simp: fun_eq_iff)

lemma map_of_smap_erase [simp]: "map_of (smap_erase k m) = (map_of m)(k := None)"
  by (induction m) (auto simp: smap_erase_def fun_eq_iff)

lemma set_smap_put_subset: "set (smap_put k v m) \<subseteq> insert (k, v) (set m)"
  by (induction k v m rule: smap_put.induct) auto

lemma fst_smap_put: "fst ` set (smap_put k v m) = insert k (fst ` set m)"
  by (induction k v m rule: smap_put.induct) auto

lemma smap_ok_Nil [simp]: "smap_ok []"
  by (simp add: smap_ok_def)

lemma smap_ok_put [simp]: "smap_ok m \<Longrightarrow> smap_ok (smap_put k v m)"
proof (induction k v m rule: smap_put.induct)
  case (2 k v k' v' m)
  then show ?case using fst_smap_put[of k v m] by (fastforce simp: smap_ok_def)
qed (simp add: smap_ok_def)

lemma smap_ok_erase [simp]: "smap_ok m \<Longrightarrow> smap_ok (smap_erase k m)"
  by (induction m) (auto simp: smap_ok_def smap_erase_def)

lemma smap_ok_distinct: "smap_ok m \<Longrightarrow> distinct (map fst m)"
  by (simp add: smap_ok_def strict_sorted_iff)

section \<open>Vectors\<close>

text \<open>\<open>while (v.size() <= n) v.push_back(T());\<close>\<close>

definition grow :: "'a \<Rightarrow> nat \<Rightarrow> 'a list \<Rightarrow> 'a list" where
  "grow d n xs = xs @ replicate (n + 1 - length xs) d"

lemma length_grow [simp]: "length (grow d n xs) = max (length xs) (n + 1)"
  by (simp add: grow_def)

lemma grow_id [simp]: "n < length xs \<Longrightarrow> grow d n xs = xs"
  by (simp add: grow_def)

lemma nth_grow: "i < length (grow d n xs) \<Longrightarrow> grow d n xs ! i = (if i < length xs then xs ! i else d)"
  by (auto simp: grow_def nth_append)

lemma nth_grow_old [simp]: "i < length xs \<Longrightarrow> grow d n xs ! i = xs ! i"
  by (simp add: grow_def nth_append)

lemma set_grow: "set (grow d n xs) \<subseteq> insert d (set xs)"
  by (auto simp: grow_def)

end
