(* ===== verification/Range_Lists.thy ===== *)
theory Range_Lists
  imports Cxx_Prelude
begin

text \<open>
  Lists of half-open ranges \<open>[start, end)\<close> and what they stand for. \<open>cover\<close> is the set
  of keys a list of ranges deletes; \<open>canonical\<close> is the form in which the filters keep it: no
  empty range, in ascending order, with a gap between neighbours (\<open>ordered_ranges\<close> lets
  neighbours touch). A set of keys has at most one
  canonical list (\<open>canonical_unique\<close>), so two routines that keep canonical lists agree as
  soon as they cover the same keys.
\<close>

type_synonym 'k range = "'k \<times> 'k"

named_theorems cover_simps \<open>the keys covered by a list of ranges\<close>

section \<open>Coverage and canonical form\<close>

definition cover :: "'k::linorder range list \<Rightarrow> 'k set" where
  "cover rs = (\<Union>r \<in> set rs. {fst r..<snd r})"

definition canonical :: "'k::linorder range list \<Rightarrow> bool" where
  "canonical rs \<longleftrightarrow> sorted_wrt (\<lambda>r s. snd r < fst s) rs \<and> (\<forall>r \<in> set rs. fst r < snd r)"

definition ordered_ranges :: "'k::linorder range list \<Rightarrow> bool" where
  "ordered_ranges rs \<longleftrightarrow> sorted_wrt (\<lambda>r s. snd r \<le> fst s) rs \<and> (\<forall>r \<in> set rs. fst r < snd r)"

definition nonempty_ranges :: "'k::linorder range list \<Rightarrow> bool" where
  "nonempty_ranges rs \<longleftrightarrow> (\<forall>r \<in> set rs. fst r < snd r)"

definition by_start :: "'k::linorder range list \<Rightarrow> bool" where
  "by_start rs \<longleftrightarrow> sorted (map fst rs)"

definition in_ranges :: "'k::linorder \<Rightarrow> 'k range list \<Rightarrow> bool" where
  "in_ranges k rs \<longleftrightarrow> (\<exists>r \<in> set rs. fst r \<le> k \<and> k < snd r)"

lemma in_ranges_cover: "in_ranges k rs \<longleftrightarrow> k \<in> cover rs"
  by (auto simp: in_ranges_def cover_def)

lemma cover_Nil [simp, cover_simps]: "cover [] = {}"
  by (simp add: cover_def)

lemma cover_Cons [cover_simps]: "cover (r # rs) = {fst r..<snd r} \<union> cover rs"
  by (simp add: cover_def)

lemma cover_append [cover_simps]: "cover (rs @ ss) = cover rs \<union> cover ss"
  by (auto simp: cover_def)

lemma cover_set_cong: "set rs = set ss \<Longrightarrow> cover rs = cover ss"
  by (simp add: cover_def)

lemma cover_concat: "cover (concat rss) = (\<Union>rs \<in> set rss. cover rs)"
  by (auto simp: cover_def)

lemma cover_mono: "set rs \<subseteq> set ss \<Longrightarrow> cover rs \<subseteq> cover ss"
  by (auto simp: cover_def)

lemma cover_bound_fst: "k \<in> cover rs \<Longrightarrow> \<exists>r \<in> set rs. fst r \<le> k \<and> k < snd r"
  by (auto simp: cover_def)

lemma cover_ge: "(\<And>r. r \<in> set rs \<Longrightarrow> b \<le> fst r) \<Longrightarrow> k \<in> cover rs \<Longrightarrow> b \<le> k"
  by (force simp: cover_def)

lemma canonical_Nil [simp]: "canonical []"
  by (simp add: canonical_def)

lemma canonical_Cons:
  "canonical (r # rs) \<longleftrightarrow> fst r < snd r \<and> (\<forall>s \<in> set rs. snd r < fst s) \<and> canonical rs"
  by (auto simp: canonical_def)

lemma canonical_tl: "canonical (r # rs) \<Longrightarrow> canonical rs"
  by (simp add: canonical_Cons)

lemma canonical_append:
  "canonical (rs @ ss) \<longleftrightarrow>
     canonical rs \<and> canonical ss \<and> (\<forall>r \<in> set rs. \<forall>s \<in> set ss. snd r < fst s)"
  by (auto simp: canonical_def sorted_wrt_append)

lemma canonical_single [simp]: "canonical [r] \<longleftrightarrow> fst r < snd r"
  by (simp add: canonical_def)

lemma canonical_nonempty: "canonical rs \<Longrightarrow> nonempty_ranges rs"
  by (simp add: canonical_def nonempty_ranges_def)

lemma canonical_by_start: "canonical rs \<Longrightarrow> by_start rs"
proof (induction rs)
  case (Cons r rs)
  then show ?case
    by (force simp: by_start_def canonical_Cons dest: order.strict_trans intro: order.strict_implies_order)
qed (simp add: by_start_def)

lemma ordered_ranges_Cons:
  "ordered_ranges (r # rs) \<longleftrightarrow> fst r < snd r \<and> (\<forall>s \<in> set rs. snd r \<le> fst s) \<and> ordered_ranges rs"
  by (auto simp: ordered_ranges_def)

lemma canonical_ordered: "canonical rs \<Longrightarrow> ordered_ranges rs"
  unfolding canonical_def ordered_ranges_def
  using sorted_wrt_mono_rel[of rs "\<lambda>r s. snd r < fst s" "\<lambda>r s. snd r \<le> fst s"] by auto

lemma ordered_Cons_cover_ge: "ordered_ranges (r # rs) \<Longrightarrow> k \<in> cover rs \<Longrightarrow> snd r \<le> k"
  by (force simp: ordered_ranges_Cons cover_def)

lemma ordered_nonempty: "ordered_ranges rs \<Longrightarrow> nonempty_ranges rs"
  by (simp add: ordered_ranges_def nonempty_ranges_def)

lemma ordered_by_start: "ordered_ranges rs \<Longrightarrow> by_start rs"
proof (induction rs)
  case (Cons r rs)
  then have "fst r \<le> fst s" if "s \<in> set rs" for s using that by (force simp: ordered_ranges_Cons)
  then show ?case using Cons by (simp add: by_start_def ordered_ranges_Cons)
qed (simp add: by_start_def)

lemma by_start_Cons: "by_start (r # rs) \<longleftrightarrow> (\<forall>s \<in> set rs. fst r \<le> fst s) \<and> by_start rs"
  by (auto simp: by_start_def)

lemma nonempty_ranges_Cons: "nonempty_ranges (r # rs) \<longleftrightarrow> fst r < snd r \<and> nonempty_ranges rs"
  by (simp add: nonempty_ranges_def)

lemma nonempty_ranges_append:
  "nonempty_ranges (rs @ ss) \<longleftrightarrow> nonempty_ranges rs \<and> nonempty_ranges ss"
  by (auto simp: nonempty_ranges_def)

lemma canonical_sorted_snd: "canonical rs \<Longrightarrow> sorted (map snd rs)"
proof (induction rs)
  case (Cons r rs)
  then show ?case
    by (force simp: canonical_Cons canonical_def dest: order.strict_trans intro: order.strict_implies_order)
qed simp

lemma range_join: "a \<le> c \<Longrightarrow> c \<le> b \<Longrightarrow> {a..<max b d} = {a..<b} \<union> {c..<d}"
  for a b c d :: "'k::linorder"
  by (auto simp: less_max_iff_disj)

lemma range_join2:
  fixes a b c d :: "'k::linorder"
  assumes "a \<le> b" "c \<le> d" "a \<le> d" "c \<le> b"
  shows "{min a c..<max b d} = {a..<b} \<union> {c..<d}"
  using assms by (auto simp: less_max_iff_disj min_le_iff_disj)

section \<open>A key set has one canonical list\<close>

lemma canonical_Cons_cover_ge:
  assumes "canonical (r # rs)" "k \<in> cover rs"
  shows "snd r < k"
  using assms by (force simp: canonical_Cons cover_def)

lemma canonical_head_eq:
  assumes "canonical (r # rs)" "canonical (s # ss)" "cover (r # rs) = cover (s # ss)"
  shows "fst r \<le> fst s \<and> snd r \<le> snd s"
proof -
  have r: "fst r < snd r" and s: "fst s < snd s" using assms by (auto simp: canonical_Cons)
  have sin: "fst s \<in> cover (r # rs)" using s assms(3) by (auto simp: cover_Cons)
  have rin: "fst r \<in> cover (s # ss)" using r assms(3) by (auto simp: cover_Cons)
  have a: "fst r \<le> fst s"
    using sin canonical_Cons_cover_ge[OF assms(1)] r by (force simp: cover_Cons)
  moreover have b: "fst s \<le> fst r"
    using rin canonical_Cons_cover_ge[OF assms(2)] s by (force simp: cover_Cons)
  ultimately have eq: "fst r = fst s" by simp
  have "snd r \<le> snd s"
  proof (rule ccontr)
    assume "\<not> snd r \<le> snd s"
    then have "snd s \<in> {fst r..<snd r}" using eq s by auto
    then have "snd s \<in> cover (s # ss)" using assms(3) by (auto simp: cover_Cons)
    then have "snd s \<in> cover ss" by (auto simp: cover_Cons)
    then show False using canonical_Cons_cover_ge[OF assms(2)] by blast
  qed
  with a show ?thesis by simp
qed

lemma canonical_cover_tl:
  assumes "canonical (r # rs)"
  shows "cover rs = cover (r # rs) - {fst r..<snd r}"
  using canonical_Cons_cover_ge[OF assms] by (force simp: cover_Cons)

lemma canonical_cover_empty: "canonical rs \<Longrightarrow> cover rs = {} \<longleftrightarrow> rs = []"
  by (cases rs) (auto simp: canonical_Cons cover_Cons)

theorem canonical_unique:
  assumes "canonical rs" "canonical ss" "cover rs = cover ss"
  shows "rs = ss"
  using assms
proof (induction rs arbitrary: ss)
  case Nil
  then show ?case using canonical_cover_empty by fastforce
next
  case (Cons r rs)
  obtain s ss' where ss: "ss = s # ss'"
    using Cons.prems canonical_cover_empty by (metis list.exhaust list.distinct(1))
  have "fst r = fst s" "snd r = snd s"
    using canonical_head_eq[of r rs s ss'] canonical_head_eq[of s ss' r rs] Cons.prems ss
    by (auto intro: antisym)
  then have "r = s" by (simp add: prod_eq_iff)
  moreover have "cover rs = cover ss'"
    using canonical_cover_tl[of r rs] canonical_cover_tl[of s ss'] Cons.prems ss \<open>r = s\<close> by simp
  ultimately show ?case using Cons ss by (auto dest: canonical_tl)
qed

section \<open>Finding the range that may hold a key\<close>

lemma by_start_partitioned_upper: "by_start rs \<Longrightarrow> partitioned (\<lambda>r. \<not> k < fst r) rs"
  unfolding by_start_def partitioned_def sorted_map
  by (erule sorted_wrt_mono_rel[rotated]) auto

lemma by_start_partitioned_lower: "by_start rs \<Longrightarrow> partitioned (\<lambda>r. fst r < k) rs"
  unfolding by_start_def partitioned_def sorted_map
  by (erule sorted_wrt_mono_rel[rotated]) auto

lemma canonical_takeWhile_start:
  assumes "canonical rs"
  shows "k \<in> cover rs \<longleftrightarrow>
    (takeWhile (\<lambda>r. fst r \<le> k) rs \<noteq> [] \<and> k < snd (last (takeWhile (\<lambda>r. fst r \<le> k) rs)))"
  using assms
proof (induction rs)
  case (Cons r rs)
  have can: "canonical rs" using Cons.prems by (rule canonical_tl)
  show ?case
  proof (cases "fst r \<le> k")
    case False
    then show ?thesis
      using Cons.prems canonical_Cons_cover_ge[OF Cons.prems] by (force simp: cover_Cons canonical_Cons)
  next
    case True
    show ?thesis
    proof (cases "takeWhile (\<lambda>r. fst r \<le> k) rs = []")
      case T: True
      then have "k \<notin> cover rs" using Cons.IH[OF can] by simp
      then show ?thesis using True T by (auto simp: cover_Cons)
    next
      case F: False
      then obtain s ss where rs: "rs = s # ss" and s: "fst s \<le> k" by (cases rs) (auto split: if_splits)
      then have "\<not> k < snd r" using Cons.prems by (auto simp: canonical_Cons)
      then show ?thesis using True F Cons.IH[OF can] by (auto simp: cover_Cons)
    qed
  qed
qed simp

lemma canonical_lookup:
  fixes k :: "'k::linorder"
  assumes "canonical rs" "rs \<noteq> []"
  defines "i \<equiv> upper_bound (\<lambda>r. k < fst r) rs"
  defines "j \<equiv> (if i \<noteq> 0 then i - 1 else i)"
  shows "j < length rs" and "(fst (rs ! j) \<le> k \<and> k < snd (rs ! j)) \<longleftrightarrow> k \<in> cover rs"
proof -
  let ?tw = "takeWhile (\<lambda>r. fst r \<le> k) rs"
  have i: "i = length ?tw"
    unfolding i_def upper_bound_def
    using lower_bound_takeWhile[OF by_start_partitioned_upper[OF canonical_by_start[OF assms(1)]], of k]
    by (simp add: not_less)
  have "0 < length rs" using assms(2) by simp
  moreover have "i \<le> length rs" using i length_takeWhile_le by simp
  ultimately show j: "j < length rs" unfolding j_def by presburger
  show "(fst (rs ! j) \<le> k \<and> k < snd (rs ! j)) \<longleftrightarrow> k \<in> cover rs"
  proof (cases "?tw = []")
    case True
    then have "\<not> fst (rs ! 0) \<le> k" using assms(2) by (cases rs) (auto split: if_splits)
    then show ?thesis using canonical_takeWhile_start[OF assms(1), of k] True i j_def by simp
  next
    case False
    then have "rs ! j = last ?tw"
      using i j_def by (simp add: last_conv_nth takeWhile_nth)
    moreover have "fst (last ?tw) \<le> k"
      using False last_in_set[OF False] set_takeWhileD[of "last ?tw" "\<lambda>r. fst r \<le> k" rs] by simp
    ultimately show ?thesis using canonical_takeWhile_start[OF assms(1), of k] False by simp
  qed
qed

section \<open>Clipping ranges to the boundaries of files\<close>

definition clip :: "'k::linorder range \<Rightarrow> 'k range \<Rightarrow> 'k range" where
  "clip file_boundary r = (max (fst r) (fst file_boundary), min (snd r) (snd file_boundary))"

definition boundaries_ok :: "'k::linorder range list \<Rightarrow> bool" where
  "boundaries_ok fbs \<longleftrightarrow> sorted_wrt (\<lambda>a b. snd a \<le> fst b) fbs \<and> (\<forall>fb \<in> set fbs. fst fb \<le> snd fb)"

lemma ordered_dropWhile:
  assumes "ordered_ranges rs"
  shows "ordered_ranges (dropWhile Q rs)"
  using assms by (induction rs) (auto simp: ordered_ranges_Cons)

lemma canonical_dropWhile: "canonical rs \<Longrightarrow> canonical (dropWhile Q rs)"
  by (induction rs) (auto simp: canonical_Cons)

lemma ordered_snd_less:
  assumes "ordered_ranges (r # rs)" "q \<in> set rs"
  shows "snd r < snd q"
proof -
  have "snd r \<le> fst q" "fst q < snd q" using assms by (auto simp: ordered_ranges_def)
  then show ?thesis by order
qed

lemma ordered_dropWhile_before:
  assumes "ordered_ranges rs"
  shows "\<forall>r \<in> set (dropWhile (\<lambda>r. snd r \<le> lo) rs). lo < snd r"
    and "lo \<le> k \<Longrightarrow> k \<in> cover (dropWhile (\<lambda>r. snd r \<le> lo) rs) \<longleftrightarrow> k \<in> cover rs"
proof -
  show "\<forall>r \<in> set (dropWhile (\<lambda>r. snd r \<le> lo) rs). lo < snd r"
    using assms
  proof (induction rs)
    case (Cons r rs)
    have "lo < snd q" if "\<not> snd r \<le> lo" "q \<in> set rs" for q
      using ordered_snd_less[OF Cons.prems that(2)] that(1) by order
    then show ?case using Cons by (auto simp: ordered_ranges_Cons)
  qed simp
  show "k \<in> cover (dropWhile (\<lambda>r. snd r \<le> lo) rs) \<longleftrightarrow> k \<in> cover rs" if "lo \<le> k"
    using that by (induction rs) (auto simp: cover_Cons)
qed

lemma dropWhile_before:
  assumes "canonical rs"
  shows "canonical (dropWhile (\<lambda>r. snd r \<le> lo) rs)"
    "\<forall>r \<in> set (dropWhile (\<lambda>r. snd r \<le> lo) rs). lo < snd r"
    "cover (dropWhile (\<lambda>r. snd r \<le> lo) rs) \<inter> {lo..} = cover rs \<inter> {lo..}"
  using canonical_dropWhile[OF assms] ordered_dropWhile_before[OF canonical_ordered[OF assms], of lo] by auto

lemma clip_cover:
  assumes "ordered_ranges rs"
  shows "cover (map (clip fb) (takeWhile (\<lambda>r. fst r < snd fb) rs)) = cover rs \<inter> {fst fb..<snd fb}"
  using assms
proof (induction rs)
  case (Cons r rs)
  have o: "ordered_ranges rs" using Cons.prems by (simp add: ordered_ranges_Cons)
  show ?case
  proof (cases "fst r < snd fb")
    case True
    have "{fst (clip fb r)..<snd (clip fb r)} = {fst r..<snd r} \<inter> {fst fb..<snd fb}" by (auto simp: clip_def)
    then show ?thesis using True Cons.IH[OF o] by (auto simp: cover_Cons)
  next
    case False
    then have "snd fb \<le> k" if "k \<in> cover (r # rs)" for k
      using that ordered_Cons_cover_ge[OF Cons.prems, of k] Cons.prems by (auto simp: cover_Cons ordered_ranges_Cons)
    then show ?thesis using False by (force simp: not_le)
  qed
qed simp

lemma clip_sorted:
  assumes "sorted_wrt (\<lambda>r s. R (snd r) (fst s)) rs" "\<And>x y x' y'. R x y \<Longrightarrow> x' \<le> x \<Longrightarrow> y \<le> y' \<Longrightarrow> R x' y'"
  shows "sorted_wrt (\<lambda>r s. R (snd r) (fst s)) (map (clip fb) (takeWhile Q rs))"
proof -
  have "sorted_wrt (\<lambda>r s. R (snd r) (fst s)) (takeWhile Q rs)"
    using assms(1) by (metis sorted_wrt_append takeWhile_dropWhile_id)
  then show ?thesis
    unfolding sorted_wrt_map by (rule sorted_wrt_mono_rel[rotated]) (auto simp: clip_def intro: assms(2))
qed

lemma clip_nonempty:
  assumes "ordered_ranges rs" "fst fb < snd fb" "\<forall>r \<in> set rs. fst fb < snd r"
    and "r \<in> set (map (clip fb) (takeWhile (\<lambda>r. fst r < snd fb) rs))"
  shows "fst r < snd r"
proof -
  obtain q where q: "q \<in> set rs" "fst q < snd fb" "r = clip fb q"
    using assms(4) by (auto dest: set_takeWhileD)
  then have "fst q < snd q" "fst fb < snd q" using assms(1,3) by (auto simp: ordered_ranges_def)
  then show ?thesis using q(2,3) assms(2) by (simp add: clip_def)
qed

lemma clip_ordered:
  assumes "fst fb < snd fb" "\<forall>r \<in> set rs. fst fb < snd r"
  shows "ordered_ranges rs \<Longrightarrow> ordered_ranges (map (clip fb) (takeWhile (\<lambda>r. fst r < snd fb) rs))"
    and "canonical rs \<Longrightarrow> canonical (map (clip fb) (takeWhile (\<lambda>r. fst r < snd fb) rs))"
proof -
  assume o: "ordered_ranges rs"
  then have "sorted_wrt (\<lambda>r s. snd r \<le> fst s) (map (clip fb) (takeWhile (\<lambda>r. fst r < snd fb) rs))"
    by (intro clip_sorted) (auto simp: ordered_ranges_def)
  then show "ordered_ranges (map (clip fb) (takeWhile (\<lambda>r. fst r < snd fb) rs))"
    using clip_nonempty[OF o assms] by (simp add: ordered_ranges_def)
next
  assume c: "canonical rs"
  then have "sorted_wrt (\<lambda>r s. snd r < fst s) (map (clip fb) (takeWhile (\<lambda>r. fst r < snd fb) rs))"
    by (intro clip_sorted) (auto simp: canonical_def)
  then show "canonical (map (clip fb) (takeWhile (\<lambda>r. fst r < snd fb) rs))"
    using clip_nonempty[OF canonical_ordered[OF c] assms] by (simp add: canonical_def)
qed

text \<open>The input files of a compaction: for each level a list of file numbers.\<close>

definition listed :: "nat list \<Rightarrow> fd list list \<Rightarrow> (nat \<times> fd) set" where
  "listed levels fds = (\<Union>p \<in> set (zip levels fds). Pair (fst p) ` set (snd p))"

end
