(* ===== verification/PLRDF_Lists.thy ===== *)
theory PLRDF_Lists
  imports Range_Lists
begin

text \<open>
  The merging routines of \<open>PLRDF_t\<close> (include/rocksdb/sys_rdfilter.h), each loop as a recursive
  function over the iterators it advances: sorting and merging range tombstones
  (\<open>sortAndMerge\<close>), merging a sorted list or one range into a level
  (\<open>addRangeDelete_list\<close>, \<open>addRangeDelete_one\<close>). The lemmas say what each does to the set
  of covered keys and that it keeps the canonical form.
\<close>

section \<open>sortAndMerge\<close>

fun merge_loop :: "'k::linorder range \<Rightarrow> 'k range list \<Rightarrow> 'k range list" where
  "merge_loop tmp_range [] = [tmp_range]"
| "merge_loop tmp_range (a # itA) =
     (if snd tmp_range \<ge> fst a
      then merge_loop (fst tmp_range, max (snd tmp_range) (snd a)) itA
      else tmp_range # merge_loop a itA)"

definition sortAndMerge :: "'k::linorder range list \<Rightarrow> 'k range list" where
  "sortAndMerge range_delete_list_in =
     (if range_delete_list_in = [] then []
      else let sorted_in = sort_key fst range_delete_list_in
           in merge_loop (hd sorted_in) sorted_in)"

lemma merge_loop_cover: "by_start (t # xs) \<Longrightarrow> cover (merge_loop t xs) = cover (t # xs)"
proof (induction t xs rule: merge_loop.induct)
  case (2 t a xs)
  show ?case
  proof (cases "fst a \<le> snd t")
    case True
    then have "cover (merge_loop t (a # xs)) = cover ((fst t, max (snd t) (snd a)) # xs)"
      using 2 by (auto simp: by_start_Cons)
    also have "\<dots> = cover (t # a # xs)"
      using True "2.prems" range_join[of "fst t" "fst a" "snd t" "snd a"]
      by (auto simp: cover_Cons by_start_Cons)
    finally show ?thesis .
  next
    case False
    then show ?thesis using 2 by (auto simp: cover_Cons by_start_Cons)
  qed
qed simp

lemma merge_loop_start: "by_start (t # xs) \<Longrightarrow> r \<in> set (merge_loop t xs) \<Longrightarrow> fst t \<le> fst r"
proof (induction t xs rule: merge_loop.induct)
  case (2 t a xs)
  then show ?case by (fastforce simp: by_start_Cons split: if_splits)
qed simp

lemma merge_loop_canonical:
  "by_start (t # xs) \<Longrightarrow> nonempty_ranges (t # xs) \<Longrightarrow> canonical (merge_loop t xs)"
proof (induction t xs rule: merge_loop.induct)
  case (2 t a xs)
  show ?case
  proof (cases "fst a \<le> snd t")
    case True
    then show ?thesis using 2 by (auto simp: by_start_Cons nonempty_ranges_Cons max_def)
  next
    case False
    have "by_start (a # xs)" using "2.prems" by (simp add: by_start_Cons)
    then have "snd t < fst r" if "r \<in> set (merge_loop a xs)" for r
      using merge_loop_start[OF _ that] False by fastforce
    then show ?thesis using 2 False by (auto simp: by_start_Cons nonempty_ranges_Cons canonical_Cons)
  qed
qed (simp add: nonempty_ranges_Cons)

lemma by_start_sort_key: "by_start (sort_key fst rs)"
  by (simp add: by_start_def)

lemma nonempty_ranges_set: "set rs = set ss \<Longrightarrow> nonempty_ranges rs \<longleftrightarrow> nonempty_ranges ss"
  by (simp add: nonempty_ranges_def)

lemma by_start_hd: "rs \<noteq> [] \<Longrightarrow> by_start rs \<Longrightarrow> by_start (hd rs # rs)"
  by (cases rs) (auto simp: by_start_Cons)

lemma merge_loop_hd:
  assumes "by_start rs" "rs \<noteq> []"
  shows "cover (merge_loop (hd rs) rs) = cover rs"
    and "nonempty_ranges rs \<Longrightarrow> canonical (merge_loop (hd rs) rs)"
proof -
  have b: "by_start (hd rs # rs)" using by_start_hd assms by blast
  have c: "cover (hd rs # rs) = cover rs" using assms(2) by (intro cover_set_cong) (cases rs; auto)
  show "cover (merge_loop (hd rs) rs) = cover rs" using merge_loop_cover[OF b] c by simp
  show "canonical (merge_loop (hd rs) rs)" if "nonempty_ranges rs"
    using merge_loop_canonical[OF b] that assms(2) by (cases rs) (auto simp: nonempty_ranges_Cons)
qed

lemma cover_sortAndMerge [cover_simps]: "cover (sortAndMerge rs) = cover rs"
proof (cases "rs = []")
  case False
  have ne: "sort_key fst rs \<noteq> []" using False by (metis length_0_conv length_sort)
  have "cover (sort_key fst rs) = cover rs" by (rule cover_set_cong) simp
  then show ?thesis
    using merge_loop_hd(1)[OF by_start_sort_key ne] False by (simp add: sortAndMerge_def Let_def)
qed (simp add: sortAndMerge_def)

lemma canonical_sortAndMerge: "nonempty_ranges rs \<Longrightarrow> canonical (sortAndMerge rs)"
proof (cases "rs = []")
  case False
  assume n: "nonempty_ranges rs"
  have ne: "sort_key fst rs \<noteq> []" using False by (metis length_0_conv length_sort)
  have "nonempty_ranges (sort_key fst rs)" using n nonempty_ranges_set[of "sort_key fst rs" rs] by simp
  then show ?thesis
    using merge_loop_hd(2)[OF by_start_sort_key ne] False by (simp add: sortAndMerge_def Let_def)
qed (simp add: sortAndMerge_def)

lemma sortAndMerge_canonical_id: "canonical rs \<Longrightarrow> sortAndMerge rs = rs"
  by (rule canonical_unique) (auto simp: canonical_sortAndMerge canonical_nonempty cover_simps)

text \<open>\<open>std::sort\<close> leaves the order of ranges with the same start open; the merged list does
  not depend on it.\<close>

lemma sortAndMerge_any_sort:
  assumes "mset ys = mset rs" "by_start ys" "nonempty_ranges rs" "rs \<noteq> []"
  shows "merge_loop (hd ys) ys = sortAndMerge rs"
proof (rule canonical_unique)
  have s: "set ys = set rs" using assms(1) by (metis set_mset_mset)
  have ne: "ys \<noteq> []" using s assms(4) by auto
  show "canonical (merge_loop (hd ys) ys)"
    using merge_loop_hd(2)[OF assms(2) ne] nonempty_ranges_set[OF s] assms(3) by simp
  show "cover (merge_loop (hd ys) ys) = cover (sortAndMerge rs)"
    using merge_loop_hd(1)[OF assms(2) ne] cover_set_cong[OF s] by (simp add: cover_simps)
qed (rule canonical_sortAndMerge[OF assms(3)])

section \<open>addRangeDelete with a sorted list\<close>

text \<open>The lambda \<open>take_next\<close>; \<open>None\<close> when both iterators are at their ends, where the
  loop stops.\<close>

fun take_next :: "'k::linorder range list \<Rightarrow> 'k range list \<Rightarrow>
    ('k range \<times> 'k range list \<times> 'k range list) option" where
  "take_next [] [] = None"
| "take_next [] (b # itB) = Some (b, [], itB)"
| "take_next (a # itA) [] = Some (a, itA, [])"
| "take_next (a # itA) (b # itB) =
     (if fst a \<le> fst b then Some (a, itA, b # itB) else Some (b, a # itA, itB))"

lemma take_next_None: "take_next A B = None \<longleftrightarrow> A = [] \<and> B = []"
  by (induction A B rule: take_next.induct) auto

lemma take_next_length:
  "take_next A B = Some (x, A', B') \<Longrightarrow> length A' + length B' < length A + length B"
  by (induction A B rule: take_next.induct) (auto split: if_splits)

function add_loop :: "'k::linorder range \<Rightarrow> 'k range list \<Rightarrow> 'k range list \<Rightarrow> 'k range list" where
  "add_loop tmp_range itA itB =
     (case take_next itA itB of
        None \<Rightarrow> [tmp_range]
      | Some (nxt, itA', itB') \<Rightarrow>
          if fst nxt \<le> snd tmp_range
          then add_loop (fst tmp_range, max (snd tmp_range) (snd nxt)) itA' itB'
          else tmp_range # add_loop nxt itA' itB')"
  by pat_completeness auto
termination
  by (relation "measure (\<lambda>(t, A, B). length A + length B)") (auto dest: take_next_length)

declare add_loop.simps [simp del]

fun starts_ascending :: "'k::linorder range list \<Rightarrow> bool" where
  "starts_ascending (r # s # rs) = (\<not> fst r > fst s \<and> starts_ascending (s # rs))"
| "starts_ascending rs = True"

definition addRangeDelete_list :: "'k::linorder range list \<Rightarrow> 'k range list \<Rightarrow> 'k range list result" where
  "addRangeDelete_list rdList rdList_in =
     (if rdList_in = [] then Inr rdList
      else if \<not> starts_ascending rdList_in then Inl (Exit 1)
      else case take_next rdList rdList_in of
             None \<Rightarrow> Inr rdList
           | Some (tmp_range, itA, itB) \<Rightarrow> Inr (add_loop tmp_range itA itB))"

fun merge_by_start :: "'k::linorder range list \<Rightarrow> 'k range list \<Rightarrow> 'k range list" where
  "merge_by_start [] B = B"
| "merge_by_start A [] = A"
| "merge_by_start (a # A) (b # B) =
     (if fst a \<le> fst b then a # merge_by_start A (b # B) else b # merge_by_start (a # A) B)"

lemma merge_by_start_Nil [simp]: "merge_by_start A [] = A"
  by (cases A) auto

lemma take_next_merge:
  "take_next A B = None \<Longrightarrow> merge_by_start A B = []"
  "take_next A B = Some (x, A', B') \<Longrightarrow> merge_by_start A B = x # merge_by_start A' B'"
  by (induction A B rule: take_next.induct) (auto split: if_splits)

lemma set_merge_by_start: "set (merge_by_start A B) = set A \<union> set B"
  by (induction A B rule: merge_by_start.induct) auto

lemma by_start_merge: "by_start A \<Longrightarrow> by_start B \<Longrightarrow> by_start (merge_by_start A B)"
  by (induction A B rule: merge_by_start.induct) (auto simp: by_start_Cons set_merge_by_start)

lemma add_loop_merge: "add_loop t A B = merge_loop t (merge_by_start A B)"
proof (induction t A B rule: add_loop.induct)
  case (1 t A B)
  show ?case
  proof (cases "take_next A B")
    case None
    then show ?thesis by (simp add: add_loop.simps[of t A B] take_next_merge(1))
  next
    case (Some p)
    obtain x A' B' where p: "p = (x, A', B')" by (cases p)
    show ?thesis
      using 1(1)[OF Some p[symmetric] refl] 1(2)[OF Some p[symmetric] refl] Some p
        take_next_merge(2)[of A B x A' B']
      by (auto simp: add_loop.simps[of t A B])
  qed
qed

lemma starts_ascending_by_start: "starts_ascending rs \<longleftrightarrow> by_start rs"
proof (induction rs rule: starts_ascending.induct)
  case (1 r s rs)
  then show ?case by (auto simp: by_start_Cons)
qed (auto simp: by_start_def)

lemma addRangeDelete_list_error:
  "addRangeDelete_list A B = Inl e \<longleftrightarrow> \<not> by_start B \<and> e = Exit 1"
  by (auto simp: addRangeDelete_list_def starts_ascending_by_start by_start_def
      split: option.splits)

lemma addRangeDelete_list_ok:
  assumes "canonical A" "by_start B" "nonempty_ranges B"
  shows "\<exists>C. addRangeDelete_list A B = Inr C \<and> canonical C \<and> cover C = cover A \<union> cover B"
proof (cases "B = []")
  case True
  then show ?thesis using assms by (simp add: addRangeDelete_list_def)
next
  case False
  let ?M = "merge_by_start A B"
  obtain t A' B' where t: "take_next A B = Some (t, A', B')"
    using take_next_None[of A B] False by (metis not_None_eq prod_cases3)
  then have M: "?M = t # merge_by_start A' B'" by (rule take_next_merge(2))
  have sorted: "by_start ?M" using by_start_merge canonical_by_start assms by blast
  have ne: "nonempty_ranges ?M"
    using assms canonical_nonempty[of A] by (auto simp: nonempty_ranges_def set_merge_by_start)
  have "canonical (add_loop t A' B')"
    unfolding add_loop_merge using merge_loop_canonical sorted ne M by metis
  moreover have "cover (add_loop t A' B') = cover A \<union> cover B"
  proof -
    have "cover (add_loop t A' B') = cover ?M"
      unfolding add_loop_merge using merge_loop_cover sorted M by metis
    also have "\<dots> = cover (A @ B)" by (rule cover_set_cong) (simp add: set_merge_by_start)
    finally show ?thesis by (simp add: cover_simps)
  qed
  ultimately show ?thesis
    using False t assms(2) by (simp add: addRangeDelete_list_def starts_ascending_by_start)
qed

section \<open>addRangeDelete with one range\<close>

fun add_one_loop :: "'k::linorder \<Rightarrow> 'k \<Rightarrow> 'k \<Rightarrow> 'k \<Rightarrow> 'k range list \<Rightarrow>
    'k range list \<times> 'k range \<times> 'k range list" where
  "add_one_loop start stop minK maxK [] = ([], (minK, maxK), [])"
| "add_one_loop start stop minK maxK (r # it) =
     (if snd r < start
      then (case add_one_loop start stop minK maxK it of (pre, m, rest) \<Rightarrow> (r # pre, m, rest))
      else if fst r > stop then ([], (minK, maxK), r # it)
      else add_one_loop start stop (min minK (fst r)) (max maxK (snd r)) it)"

definition addRangeDelete_one :: "'k::linorder range list \<Rightarrow> 'k range \<Rightarrow> 'k range list" where
  "addRangeDelete_one rdList rd =
     (case add_one_loop (fst rd) (snd rd) (fst rd) (snd rd) rdList of
        (pre, m, rest) \<Rightarrow> pre @ [m] @ rest)"

text \<open>Once the ranges touch, no range ends before \<open>start\<close> any more: the merged range grows
  until one starts after \<open>end\<close>.\<close>

lemma add_one_loop_touching:
  assumes "canonical rs" "s < e" "mn \<le> s" "e \<le> mx"
    and "\<forall>r \<in> set rs. s \<le> snd r" "\<forall>r \<in> set rs. mx = e \<or> mx < fst r"
    and "add_one_loop s e mn mx rs = (pre, m, rest)"
  shows "pre = [] \<and> canonical (m # rest) \<and> cover (m # rest) = {mn..<mx} \<union> cover rs
    \<and> fst m \<in> insert mn (fst ` set rs) \<and> set rest \<subseteq> set rs"
  using assms
proof (induction rs arbitrary: mn mx)
  case Nil
  then show ?case by (auto simp: cover_Cons)
next
  case (Cons r rs)
  have can: "canonical rs" and r: "fst r < snd r" and gap: "\<And>q. q \<in> set rs \<Longrightarrow> snd r < fst q"
    using Cons.prems(1) by (auto simp: canonical_Cons)
  have ns: "\<not> snd r < s" using Cons.prems(5) by (simp add: not_less)
  show ?case
  proof (cases "fst r > e")
    case True
    then have eq: "pre = []" "m = (mn, mx)" "rest = r # rs" using Cons.prems(7) ns by auto
    have "mx < fst r" using Cons.prems(6) True by auto
    moreover have "mx < fst q" if "q \<in> set rs" for q
      using gap[OF that] r \<open>mx < fst r\<close> by order
    ultimately have "canonical (m # rest)" using eq Cons.prems(1-4)
      by (auto simp: canonical_Cons)
    then show ?thesis using eq by (auto simp: cover_Cons)
  next
    case False
    have step: "add_one_loop s e (min mn (fst r)) (max mx (snd r)) rs = (pre, m, rest)"
      using Cons.prems(7) ns False by simp
    have mx: "mx = e" using Cons.prems(4,6) False by force
    have "\<forall>q \<in> set rs. max mx (snd r) = e \<or> max mx (snd r) < fst q"
      using mx gap by (auto simp: max_def)
    then have IH: "pre = [] \<and> canonical (m # rest) \<and>
        cover (m # rest) = {min mn (fst r)..<max mx (snd r)} \<union> cover rs \<and>
        fst m \<in> insert (min mn (fst r)) (fst ` set rs) \<and> set rest \<subseteq> set rs"
      using Cons.IH[OF can Cons.prems(2) _ _ _ _ step] Cons.prems by (auto simp: le_max_iff_disj min_le_iff_disj)
    have "{min mn (fst r)..<max mx (snd r)} = {mn..<mx} \<union> {fst r..<snd r}"
      by (rule range_join2) (use mx False ns Cons.prems(2,3) r in auto)
    moreover have "min mn (fst r) \<in> {mn, fst r}" by (auto simp: min_def)
    ultimately show ?thesis using IH by (auto simp: cover_Cons)
  qed
qed

lemma add_one_loop_ok:
  assumes "canonical rs" "s < e" "add_one_loop s e s e rs = (pre, m, rest)"
  shows "canonical (pre @ m # rest) \<and> cover (pre @ m # rest) = {s..<e} \<union> cover rs
    \<and> fst m \<in> insert s (fst ` set rs) \<and> set pre \<union> set rest \<subseteq> set rs"
  using assms
proof (induction rs arbitrary: pre)
  case Nil
  then show ?case by (auto simp: cover_Cons)
next
  case (Cons r rs)
  have can: "canonical rs" and r: "fst r < snd r" and gap: "\<And>q. q \<in> set rs \<Longrightarrow> snd r < fst q"
    using Cons.prems(1) by (auto simp: canonical_Cons)
  show ?case
  proof (cases "snd r < s")
    case True
    obtain pre' where pre': "add_one_loop s e s e rs = (pre', m, rest)" "pre = r # pre'"
      using Cons.prems(3) True by (auto split: prod.splits)
    have IH: "canonical (pre' @ m # rest) \<and> cover (pre' @ m # rest) = {s..<e} \<union> cover rs
        \<and> fst m \<in> insert s (fst ` set rs) \<and> set pre' \<union> set rest \<subseteq> set rs"
      using Cons.IH[OF can Cons.prems(2) pre'(1)] .
    have "snd r < fst q" if "q \<in> set (pre' @ m # rest)" for q
    proof -
      have "fst q \<in> insert s (fst ` set rs)" using that IH by auto
      then show ?thesis using True gap by auto
    qed
    then show ?thesis using IH pre'(2) r by (auto simp: canonical_Cons cover_Cons)
  next
    case False
    have "s \<le> snd q" if "q \<in> set rs" for q
    proof -
      have "fst q < snd q" using can that by (auto simp: canonical_def)
      then show ?thesis using gap[OF that] False by order
    qed
    then have "\<forall>q \<in> set (r # rs). s \<le> snd q" using False by auto
    then show ?thesis
      using add_one_loop_touching[OF Cons.prems(1,2) order.refl order.refl _ _ Cons.prems(3)]
      by auto
  qed
qed

lemma addRangeDelete_one_ok:
  assumes "canonical rs" "fst rd < snd rd"
  shows "canonical (addRangeDelete_one rs rd)"
    and "cover (addRangeDelete_one rs rd) = cover rs \<union> {fst rd..<snd rd}"
proof -
  obtain pre m rest where l: "add_one_loop (fst rd) (snd rd) (fst rd) (snd rd) rs = (pre, m, rest)"
    by (metis prod_cases3)
  from add_one_loop_ok[OF assms l] show "canonical (addRangeDelete_one rs rd)"
    "cover (addRangeDelete_one rs rd) = cover rs \<union> {fst rd..<snd rd}"
    by (auto simp: addRangeDelete_one_def l)
qed

section \<open>Properties\<close>

lemma addRangeDelete_list_eq:
  assumes "canonical A" "by_start B" "nonempty_ranges B"
  shows "addRangeDelete_list A B = Inr (sortAndMerge (A @ B))"
proof -
  obtain C where C: "addRangeDelete_list A B = Inr C" "canonical C" "cover C = cover A \<union> cover B"
    using addRangeDelete_list_ok[OF assms] by blast
  have "canonical (sortAndMerge (A @ B))"
    by (rule canonical_sortAndMerge) (use assms canonical_nonempty in \<open>auto simp: nonempty_ranges_append\<close>)
  then show ?thesis using C canonical_unique[of C] by (simp add: cover_simps)
qed

text \<open>C18: \<open>sortAndMerge\<close> turns any list of non-empty range tombstones into the canonical list of
  the keys they delete: the keys are unchanged, the result is sorted, disjoint and gapped, and it
  does not depend on how \<open>std::sort\<close> orders ranges with equal starts.\<close>

theorem sortAndMerge_normalises:
  fixes rs :: "'k::linorder range list"
  assumes "nonempty_ranges rs"
  shows "canonical (sortAndMerge rs) \<and> cover (sortAndMerge rs) = cover rs \<and>
    (\<forall>ys. rs \<noteq> [] \<and> mset ys = mset rs \<and> by_start ys \<longrightarrow> merge_loop (hd ys) ys = sortAndMerge rs)"
  using assms canonical_sortAndMerge sortAndMerge_any_sort by (auto simp: cover_simps)

theorem sortAndMerge_normalises_witness:
  "canonical (sortAndMerge [(7, 9), (1, 4), (1::int, 2), (3, 6)]) \<and>
   cover (sortAndMerge [(7, 9), (1, 4), (1::int, 2), (3, 6)]) = cover [(7, 9), (1, 4), (1, 2), (3, 6)]"
  using sortAndMerge_normalises[of "[(7, 9), (1, 4), (1::int, 2), (3, 6)]"]
  by (simp add: nonempty_ranges_def)

text \<open>C19: Merging a sorted list of tombstones into a level computes the same list as sorting and
  merging the concatenation of both; the two-iterator loop is an optimisation only.\<close>

theorem addRangeDelete_merges:
  assumes "canonical A" "by_start B" "nonempty_ranges B"
  shows "addRangeDelete_list A B = Inr (sortAndMerge (A @ B)) \<and>
    cover (sortAndMerge (A @ B)) = cover A \<union> cover B \<and> canonical (sortAndMerge (A @ B))"
  using addRangeDelete_list_eq[OF assms] addRangeDelete_list_ok[OF assms] by auto

theorem addRangeDelete_merges_witness:
  "addRangeDelete_list [(1::int, 4), (8, 12)] [(3, 6), (12, 20)] = Inr (sortAndMerge [(1, 4), (8, 12), (3, 6), (12, 20)])"
  using addRangeDelete_merges[of "[(1::int, 4), (8, 12)]" "[(3, 6), (12, 20)]"]
  by (simp add: canonical_def by_start_def nonempty_ranges_def)

text \<open>The merge refuses exactly the lists that are not in ascending order of their starts: it
  exits with status 1 on these and never fails otherwise.\<close>

theorem addRangeDelete_refuses_unsorted:
  "addRangeDelete_list A B = Inl e \<longleftrightarrow> \<not> sorted (map fst B) \<and> e = Exit 1"
  using addRangeDelete_list_error[of A B e] by (simp add: by_start_def)

text \<open>Inserting one range agrees with merging the one-element list.\<close>

theorem addRangeDelete_one_agrees:
  assumes "canonical rs" "fst rd < snd rd"
  shows "addRangeDelete_list rs [rd] = Inr (addRangeDelete_one rs rd)"
proof -
  have "nonempty_ranges (rs @ [rd])"
    using assms canonical_nonempty by (simp add: nonempty_ranges_append nonempty_ranges_Cons nonempty_ranges_def)
  then have "sortAndMerge (rs @ [rd]) = addRangeDelete_one rs rd"
    by (intro canonical_unique canonical_sortAndMerge)
       (simp_all add: addRangeDelete_one_ok[OF assms] cover_simps)
  then show ?thesis
    using addRangeDelete_list_eq[OF assms(1), of "[rd]"] assms(2) by (simp add: by_start_def nonempty_ranges_def)
qed

theorem addRangeDelete_one_agrees_witness:
  "addRangeDelete_list [(1::int, 4), (8, 12), (20, 30)] [(4, 9)] = Inr (addRangeDelete_one [(1, 4), (8, 12), (20, 30)] (4, 9))"
  using addRangeDelete_one_agrees[of "[(1::int, 4), (8, 12), (20, 30)]" "(4, 9)"] by (simp add: canonical_def)

end
