(* ===== verification/PLRDF_Cuts.thy ===== *)
theory PLRDF_Cuts
  imports PLRDF_Lists
begin

text \<open>
  The routines of \<open>PLRDF_t\<close> (include/rocksdb/sys_rdfilter.h) that cut file boundaries out of
  a level (\<open>remove_loop\<close>, \<open>delete_loop\<close>, \<open>gather_loop\<close>), that keep the split keys
  consistent with it (\<open>purge_loop\<close>, \<open>keep_loop\<close>, \<open>split_loop\<close>), and that collect
  the ranges overlapping a file (\<open>overlapping_ranges\<close>). Every loop advances two iterators; the
  cutting loops end because each round advances one of them.
\<close>

section \<open>Dropping the split keys that new ranges cover\<close>

fun purge_loop :: "'k::linorder list \<Rightarrow> 'k range list \<Rightarrow> 'k list" where
  "purge_loop it_sk [] = it_sk"
| "purge_loop it_sk (r # rs) =
     (let kept = takeWhile (\<lambda>k. k < fst r) it_sk;
          it_sk' = dropWhile (\<lambda>k. k < snd r) (dropWhile (\<lambda>k. k < fst r) it_sk)
      in if it_sk' = [] then kept else kept @ purge_loop it_sk' rs)"

lemma sorted_ge_hd: "sorted (a # ks) \<Longrightarrow> \<not> a < b \<Longrightarrow> k \<in> set ks \<Longrightarrow> b \<le> k"
  for b :: "'k::linorder"
  by auto

lemma sorted_takeWhile_filter:
  "sorted ks \<Longrightarrow> takeWhile (\<lambda>k. k < b) ks = filter (\<lambda>k. k < b) ks" for b :: "'k::linorder"
proof (induction ks)
  case (Cons a ks)
  then have "\<not> a < b \<Longrightarrow> filter (\<lambda>k. k < b) ks = []"
    using sorted_ge_hd[OF Cons.prems] by (force simp: filter_empty_conv not_less)
  then show ?case using Cons by auto
qed simp

lemma sorted_dropWhile_filter:
  "sorted ks \<Longrightarrow> dropWhile (\<lambda>k. k < b) ks = filter (\<lambda>k. b \<le> k) ks" for b :: "'k::linorder"
proof (induction ks)
  case (Cons a ks)
  then have "\<not> a < b \<Longrightarrow> filter (\<lambda>k. b \<le> k) ks = ks"
    using sorted_ge_hd[OF Cons.prems] by (simp add: filter_id_conv)
  then show ?case using Cons by auto
qed simp

lemma purge_loop_filter:
  "sorted ks \<Longrightarrow> ordered_ranges rs \<Longrightarrow> purge_loop ks rs = filter (\<lambda>k. k \<notin> cover rs) ks"
proof (induction ks rs rule: purge_loop.induct)
  case (2 ks r rs)
  let ?rest = "filter (\<lambda>k. snd r \<le> k) ks"
  have r: "fst r < snd r" and can: "ordered_ranges rs" using "2.prems"(2) by (auto simp: ordered_ranges_Cons)
  have sr: "sorted (filter (\<lambda>k. fst r \<le> k) ks)" using "2.prems"(1) by (rule sorted_wrt_filter)
  have drop: "dropWhile (\<lambda>k. k < snd r) (dropWhile (\<lambda>k. k < fst r) ks) = ?rest"
    using "2.prems"(1) sr r by (simp add: sorted_dropWhile_filter cong: filter_cong) (auto intro: filter_cong)
  have sorted_rest: "sorted ?rest" using "2.prems"(1) by (rule sorted_wrt_filter)
  have low: "k < fst r \<Longrightarrow> k \<notin> cover (r # rs)" for k
    using ordered_Cons_cover_ge[OF "2.prems"(2), of k] r by (auto simp: cover_Cons)
  have high: "snd r \<le> k \<Longrightarrow> k \<in> cover (r # rs) \<longleftrightarrow> k \<in> cover rs" for k
    by (auto simp: cover_Cons)
  have split: "filter P ks = filter P (filter (\<lambda>k. k < fst r) ks) @
      filter P (filter (\<lambda>k. fst r \<le> k \<and> k < snd r) ks) @ filter P ?rest" for P
  proof -
    have "ks = takeWhile (\<lambda>k. k < fst r) ks @ takeWhile (\<lambda>k. k < snd r) (dropWhile (\<lambda>k. k < fst r) ks)
        @ dropWhile (\<lambda>k. k < snd r) (dropWhile (\<lambda>k. k < fst r) ks)" by simp
    also have "\<dots> = filter (\<lambda>k. k < fst r) ks @ filter (\<lambda>k. fst r \<le> k \<and> k < snd r) ks @ ?rest"
      using "2.prems"(1) sr drop
      by (simp add: sorted_takeWhile_filter sorted_dropWhile_filter conj_commute)
    finally show ?thesis by (metis filter_append)
  qed
  let ?P = "\<lambda>k. k \<notin> cover (r # rs)"
  have "filter ?P (filter (\<lambda>k. k < fst r) ks) = filter (\<lambda>k. k < fst r) ks"
    using low by (auto simp: filter_id_conv simp del: filter_filter)
  moreover have "filter ?P (filter (\<lambda>k. fst r \<le> k \<and> k < snd r) ks) = []"
    by (auto simp: filter_empty_conv cover_Cons)
  moreover have "filter ?P ?rest = filter (\<lambda>k. k \<notin> cover rs) ?rest"
    using high by (intro filter_cong) auto
  ultimately have "filter ?P ks = filter (\<lambda>k. k < fst r) ks @ filter (\<lambda>k. k \<notin> cover rs) ?rest"
    using split[of ?P] by simp
  moreover have "purge_loop ?rest rs = filter (\<lambda>k. k \<notin> cover rs) ?rest" if "?rest \<noteq> []"
    using "2.IH"[OF refl refl] that drop sorted_rest can by auto
  ultimately show ?case
    using "2.prems"(1) drop
    by (cases "?rest = []")
       (simp_all add: Let_def sorted_takeWhile_filter del: filter_filter dropWhile_eq_Nil_conv)
qed simp

section \<open>Keeping the split keys that a level covers\<close>

fun keep_loop :: "'k::linorder list \<Rightarrow> 'k range list \<Rightarrow> 'k list" where
  "keep_loop [] it_r = []"
| "keep_loop it_p [] = []"
| "keep_loop (p # it_p) (r # it_r) =
     (if p < fst r then keep_loop it_p (r # it_r)
      else if p \<ge> snd r then keep_loop (p # it_p) it_r
      else p # keep_loop it_p (r # it_r))"

lemma keep_loop_filter:
  "sorted ks \<Longrightarrow> canonical rs \<Longrightarrow> keep_loop ks rs = filter (\<lambda>k. k \<in> cover rs) ks"
proof (induction ks rs rule: keep_loop.induct)
  case (2 p ks)
  then show ?case by simp
next
  case (3 p ks r rs)
  have r: "fst r < snd r" and can: "canonical rs" using "3.prems"(2) by (auto simp: canonical_Cons)
  have low: "p < fst r \<Longrightarrow> p \<notin> cover (r # rs)"
    using canonical_Cons_cover_ge[OF "3.prems"(2), of p] r by (auto simp: cover_Cons)
  have high: "filter (\<lambda>k. k \<in> cover (r # rs)) (p # ks) = filter (\<lambda>k. k \<in> cover rs) (p # ks)"
    if "snd r \<le> p"
    using "3.prems"(1) that by (intro filter_cong) (auto simp: cover_Cons)
  consider "p < fst r" | "\<not> p < fst r" "snd r \<le> p" | "\<not> p < fst r" "\<not> snd r \<le> p" by blast
  then show ?case
  proof cases
    case 1
    then show ?thesis using 3 low by simp
  next
    case 2
    then have "keep_loop (p # ks) (r # rs) = filter (\<lambda>k. k \<in> cover rs) (p # ks)"
      using 3 can by simp
    then show ?thesis using high 2 by simp
  next
    case 3
    then show ?thesis using "3.IH"(3) "3.prems" by (auto simp: cover_Cons)
  qed
qed simp

section \<open>Cutting file boundaries out of a level\<close>

fun emit :: "'a list \<Rightarrow> 'b list \<Rightarrow> ('a list \<times> 'b list) result \<Rightarrow> ('a list \<times> 'b list) result" where
  "emit xs ys (Inr (n, m)) = Inr (xs @ n, ys @ m)"
| "emit xs ys (Inl e) = Inl e"

text \<open>\<open>if ((*it).first >= (*it).second) it++;\<close> after \<open>(*it).first\<close> was moved.\<close>

definition advance_first :: "'k::linorder \<Rightarrow> 'k range \<Rightarrow> 'k range list \<Rightarrow> 'k range list" where
  "advance_first f v it = (if f \<ge> snd v then it else (f, snd v) # it)"

lemma length_advance_first: "length (advance_first f v it) \<le> Suc (length it)"
  by (simp add: advance_first_def)

text \<open>The loop of \<open>RemoveRangeDeletesAndSplitKeyFromLevel\<close>: \<open>new_current_level_rdf\<close> and
  \<open>to_be_added_in_next_level_rdf\<close>.\<close>

function remove_loop :: "build \<Rightarrow> 'k::linorder range list \<Rightarrow> 'k range list \<Rightarrow>
    ('k range list \<times> 'k range list) result" where
  "remove_loop b [] itf = Inr ([], [])"
| "remove_loop b (v # it) [] =
     emit (if fst v \<noteq> snd v then [v] else []) [] (remove_loop b it [])"
| "remove_loop b (v # it) (f # itf) =
     (if snd v \<le> fst f then
        emit (if fst v \<noteq> snd v then [v] else []) [] (remove_loop b it (f # itf))
      else if fst v \<ge> snd f then remove_loop b (v # it) itf
      else if fst v < fst f \<and> snd v > fst f \<and> snd v \<le> snd f then
        emit (if fst v \<noteq> fst f then [(fst v, fst f)] else [])
             (if fst f \<noteq> snd v then [(fst f, snd v)] else [])
             (remove_loop b it (f # itf))
      else if fst v \<ge> fst f \<and> snd v \<le> snd f then
        emit [] (if fst v \<noteq> snd v then [v] else []) (remove_loop b it (f # itf))
      else if fst v \<ge> fst f \<and> fst v < snd f \<and> snd v > snd f then
        emit [] [(fst v, snd f)] (remove_loop b (advance_first (snd f) v it) itf)
      else if fst v < fst f \<and> snd v > snd f then
        emit (if fst v \<noteq> fst f then [(fst v, fst f)] else []) [(fst f, snd f)]
             (remove_loop b (advance_first (snd f) v it) itf)
      else cxx_assert b False (Inl (Exit 1)))"
  by pat_completeness auto
termination
  by (relation "measure (\<lambda>(b, it, itf). length it + length itf)")
     (auto simp: less_Suc_eq_le length_advance_first)

text \<open>The loop of \<open>deleteRDFAssociatedWithFilesAtCurrentLevel\<close>.\<close>

function delete_loop :: "build \<Rightarrow> 'k::linorder range list \<Rightarrow> 'k range list \<Rightarrow> 'k range list result" where
  "delete_loop b [] itf = Inr []"
| "delete_loop b (v # it) [] = bind_res (delete_loop b it []) (\<lambda>n. Inr (v # n))"
| "delete_loop b (v # it) (f # itf) =
     (if snd v \<le> fst f then bind_res (delete_loop b it (f # itf)) (\<lambda>n. Inr (v # n))
      else if fst v \<ge> snd f then delete_loop b (v # it) itf
      else if fst v < fst f \<and> snd v > fst f \<and> snd v \<le> snd f then
        bind_res (delete_loop b it (f # itf)) (\<lambda>n. Inr ((fst v, fst f) # n))
      else if fst v \<ge> fst f \<and> snd v \<le> snd f then delete_loop b it (f # itf)
      else if fst v \<ge> fst f \<and> fst v < snd f \<and> snd v > snd f then
        delete_loop b (advance_first (snd f) v it) itf
      else if fst v < fst f \<and> snd v > snd f then
        bind_res (delete_loop b (advance_first (snd f) v it) itf) (\<lambda>n. Inr ((fst v, fst f) # n))
      else cxx_assert b False (Inl (Exit 1)))"
  by pat_completeness auto
termination
  by (relation "measure (\<lambda>(b, it, itf). length it + length itf)")
     (auto simp: less_Suc_eq_le length_advance_first)

lemma emit_Inr: "r = Inr (n, m) \<Longrightarrow> emit xs ys r = Inr (xs @ n, ys @ m)"
  by simp

lemma advance_first_less: "f < snd v \<Longrightarrow> advance_first f v it = (f, snd v) # it"
  by (simp add: advance_first_def)

text \<open>What cutting promises: the part outside the boundaries stays, in canonical form and
  starting no earlier than the input; the part inside is what the loop reports as moved.\<close>

definition cut_result :: "'k::linorder range list \<Rightarrow> 'k range list \<Rightarrow> 'k range list \<Rightarrow> 'k range list \<Rightarrow> bool" where
  "cut_result it itf n m \<longleftrightarrow> canonical n \<and> cover n = cover it - cover itf \<and>
     cover m = cover it \<inter> cover itf \<and>
     (\<forall>l. (\<forall>r \<in> set it. l < fst r) \<longrightarrow> (\<forall>r \<in> set n. l < fst r))"

lemma cut_result_keep:
  assumes "canonical (v # it)" "cut_result it F n m" "{fst v..<snd v} \<inter> cover F = {}"
  shows "cut_result (v # it) F (v # n) m"
  using assms by (auto simp: cut_result_def canonical_Cons cover_Cons)

lemma cut_result_skip:
  assumes "cut_result it F n m" "{fst f..<snd f} \<inter> cover it = {}"
  shows "cut_result it (f # F) n m"
  using assms by (auto simp: cut_result_def cover_Cons)

lemma cut_result_drop:
  assumes "cut_result it F n m" "{fst v..<snd v} \<subseteq> cover F"
  shows "cut_result (v # it) F n (v # m)"
  using assms by (auto simp: cut_result_def cover_Cons)

lemma cover_cut_at:
  assumes "fst v \<le> c" "c \<le> snd v"
  shows "cover (v # it) = {fst v..<c} \<union> cover ((c, snd v) # it)"
proof -
  have "{fst v..<snd v} = {fst v..<c} \<union> {c..<snd v}" using assms by (rule ivl_disj_un(17)[symmetric])
  then show ?thesis by (simp add: cover_Cons Un_assoc)
qed

lemma cut_result_head:
  assumes "cut_result ((c, snd v) # it) F n m" "fst v \<le> c" "c \<le> snd v" "{fst v..<c} \<subseteq> cover F"
  shows "cut_result (v # it) F n ((fst v, c) # m)"
  unfolding cut_result_def
proof (intro conjI allI impI)
  note eq = cover_cut_at[OF assms(2,3), of it]
  note c = assms(1)[unfolded cut_result_def]
  show "canonical n" using c by blast
  show "cover n = cover (v # it) - cover F" unfolding eq using c assms(4) by blast
  show "cover ((fst v, c) # m) = cover (v # it) \<inter> cover F"
    unfolding eq cover_Cons[of "(fst v, c)"] fst_conv snd_conv using c assms(4) by blast
  fix l assume l: "\<forall>r \<in> set (v # it). l < fst r"
  then have "l < c" using assms(2) by force
  then show "\<forall>r \<in> set n. l < fst r" using c l by simp
qed

lemma cut_result_split:
  assumes "cut_result ((c, snd v) # it) F n m" "fst v < c" "c < snd v" "canonical (v # it)"
    and "{fst v..<c} \<inter> cover F = {}" "\<forall>r \<in> set n. c < fst r"
  shows "cut_result (v # it) F ((fst v, c) # n) m"
  unfolding cut_result_def
proof (intro conjI allI impI)
  note eq = cover_cut_at[OF order.strict_implies_order order.strict_implies_order, OF assms(2,3), of it]
  note c = assms(1)[unfolded cut_result_def]
  show "canonical ((fst v, c) # n)" using c assms(2,6) by (simp add: canonical_Cons)
  show "cover ((fst v, c) # n) = cover (v # it) - cover F"
    unfolding eq cover_Cons[of "(fst v, c)"] fst_conv snd_conv using c assms(5) by blast
  show "cover m = cover (v # it) \<inter> cover F" unfolding eq using c assms(5) by blast
  fix l assume l: "\<forall>r \<in> set (v # it). l < fst r"
  then have "l < c" using assms(2) by force
  then show "\<forall>r \<in> set ((fst v, c) # n). l < fst r" using c l by simp
qed

lemma cut_result_bound:
  "cut_result it F n m \<Longrightarrow> (\<And>r. r \<in> set it \<Longrightarrow> l < fst r) \<Longrightarrow> \<forall>r \<in> set n. l < fst r"
  by (simp add: cut_result_def)

lemma canonical_cover_below: "canonical (f # F) \<Longrightarrow> k < fst f \<Longrightarrow> k \<notin> cover (f # F)"
  using canonical_Cons_cover_ge[of f F k] by (auto simp: cover_Cons canonical_Cons)

lemma cut_result_left:
  assumes "canonical (v # it)" "cut_result it (f # F) n m" "fst v < fst f" "fst f < snd v" "snd v \<le> snd f"
    and "canonical (f # F)"
  shows "cut_result (v # it) (f # F) ((fst v, fst f) # n) ((fst f, snd v) # m)"
proof (rule cut_result_split)
  show "cut_result ((fst f, snd v) # it) (f # F) n ((fst f, snd v) # m)"
    by (rule cut_result_drop[OF assms(2)]) (use assms(5) in \<open>auto simp: cover_Cons\<close>)
  show "\<forall>r \<in> set n. fst f < fst r"
    using assms(1,4) by (intro cut_result_bound[OF assms(2)]) (auto simp: canonical_Cons)
  show "{fst v..<fst f} \<inter> cover (f # F) = {}" using canonical_cover_below[OF assms(6)] by auto
qed (use assms in auto)

lemma cut_result_right:
  assumes "cut_result ((snd f, snd v) # it) F n m" "canonical (v # it)"
    and "fst f \<le> fst v" "fst v < snd f" "snd f < snd v"
  shows "cut_result (v # it) (f # F) n ((fst v, snd f) # m)"
proof (rule cut_result_head)
  have "{fst f..<snd f} \<inter> cover it = {}"
    using canonical_Cons_cover_ge[OF assms(2)] assms(5) by fastforce
  then show "cut_result ((snd f, snd v) # it) (f # F) n m"
    by (intro cut_result_skip[OF assms(1)]) (auto simp: cover_Cons)
  show "{fst v..<snd f} \<subseteq> cover (f # F)" using assms(3) by (auto simp: cover_Cons)
qed (use assms in auto)

lemma cut_result_inside:
  assumes "cut_result ((snd f, snd v) # it) F n m" "canonical (v # it)" "canonical (f # F)"
    and "fst v < fst f" "snd f < snd v"
  shows "cut_result (v # it) (f # F) ((fst v, fst f) # n) ((fst f, snd f) # m)"
proof (rule cut_result_split)
  have f: "fst f < snd f" using assms(3) by (simp add: canonical_Cons)
  have can: "canonical ((fst f, snd v) # it)" using assms f by (auto simp: canonical_Cons)
  show "cut_result ((fst f, snd v) # it) (f # F) n ((fst f, snd f) # m)"
    using cut_result_right[of f "(fst f, snd v)" it F n m] assms f can by auto
  show "\<forall>r \<in> set n. fst f < fst r"
    using assms f by (intro cut_result_bound[OF assms(1)]) (auto simp: canonical_Cons)
  show "{fst v..<fst f} \<inter> cover (f # F) = {}" using canonical_cover_below[OF assms(3)] by auto
  show "fst f < snd v" using f assms(5) by order
qed (use assms in auto)

lemma canonical_advance:
  "canonical (v # it) \<Longrightarrow> f < snd v \<Longrightarrow> canonical ((f, snd v) # it)"
  by (simp add: canonical_Cons)

lemma remove_loop_cut:
  "canonical it \<Longrightarrow> canonical itf \<Longrightarrow> \<exists>n m. remove_loop b it itf = Inr (n, m) \<and> cut_result it itf n m"
proof (induction b it itf rule: remove_loop.induct)
  case (1 b itf)
  show ?case by (simp add: cut_result_def)
next
  case (2 b v it)
  then obtain n m where IH: "remove_loop b it [] = Inr (n, m)" "cut_result it [] n m"
    by (auto simp: canonical_Cons)
  have "fst v \<noteq> snd v" using "2.prems" by (auto simp: canonical_Cons)
  then show ?case using cut_result_keep[OF "2.prems"(1) IH(2)] IH(1) by simp
next
  case (3 b v it f itf)
  note can = "3.prems"
  have v: "fst v < snd v" "canonical it" and f: "fst f < snd f" "canonical itf"
    using can by (auto simp: canonical_Cons)
  consider (before) "snd v \<le> fst f" | (after) "\<not> snd v \<le> fst f" "snd f \<le> fst v"
    | (left) "fst v < fst f" "fst f < snd v" "snd v \<le> snd f"
    | (within) "fst f \<le> fst v" "snd v \<le> snd f" "\<not> snd v \<le> fst f" "\<not> snd f \<le> fst v"
    | (right) "fst f \<le> fst v" "fst v < snd f" "snd f < snd v"
    | (inside) "fst v < fst f" "snd f < snd v"
    by force
  then show ?case
  proof cases
    case before
    then obtain n m where IH: "remove_loop b it (f # itf) = Inr (n, m)" "cut_result it (f # itf) n m"
      using "3.IH"(1) v can by auto
    have "{fst v..<snd v} \<inter> cover (f # itf) = {}"
      using canonical_cover_below[OF can(2)] before by fastforce
    then show ?thesis using cut_result_keep[OF can(1) IH(2)] IH(1) before v by auto
  next
    case after
    then obtain n m where IH: "remove_loop b (v # it) itf = Inr (n, m)" "cut_result (v # it) itf n m"
      using "3.IH"(2) f can by auto
    have "{fst f..<snd f} \<inter> cover (v # it) = {}"
      using canonical_cover_below[OF can(1)] after by fastforce
    then show ?thesis using cut_result_skip[OF IH(2)] IH(1) after by simp
  next
    case left
    then have c: "\<not> snd v \<le> fst f" "\<not> snd f \<le> fst v" using f by auto
    then obtain n m where IH: "remove_loop b it (f # itf) = Inr (n, m)" "cut_result it (f # itf) n m"
      using "3.IH"(3) left v can by auto
    show ?thesis using cut_result_left[OF can(1) IH(2) left can(2)] IH(1) left c by auto
  next
    case within
    have "\<not> fst v < fst f" using within(1) by order
    with within obtain n m where IH: "remove_loop b it (f # itf) = Inr (n, m)" "cut_result it (f # itf) n m"
      using "3.IH"(4) v can by auto
    have "{fst v..<snd v} \<subseteq> cover (f # itf)" using within by (auto simp: cover_Cons)
    then show ?thesis using cut_result_drop[OF IH(2)] IH(1) within v by auto
  next
    case right
    then have c: "\<not> snd v \<le> fst f" "\<not> snd f \<le> fst v" "\<not> snd v \<le> snd f" using v f by auto
    have "\<exists>n m. remove_loop b ((snd f, snd v) # it) itf = Inr (n, m) \<and>
        cut_result ((snd f, snd v) # it) itf n m"
      by (rule "3.IH"(5)[unfolded advance_first_less[OF right(3)]])
         (use right c f canonical_advance[OF can(1) right(3)] in \<open>auto dest: leD\<close>)
    then obtain n m where IH: "remove_loop b ((snd f, snd v) # it) itf = Inr (n, m)"
        "cut_result ((snd f, snd v) # it) itf n m" by blast
    show ?thesis
      using cut_result_right[OF IH(2) can(1) right] IH(1) right c by (auto simp: advance_first_less)
  next
    case inside
    then have c: "\<not> snd v \<le> fst f" "\<not> snd f \<le> fst v" "\<not> snd v \<le> snd f" using v f by auto
    have "\<exists>n m. remove_loop b ((snd f, snd v) # it) itf = Inr (n, m) \<and>
        cut_result ((snd f, snd v) # it) itf n m"
      by (rule "3.IH"(6)[unfolded advance_first_less[OF inside(2)]])
         (use inside c f canonical_advance[OF can(1) inside(2)] in \<open>auto dest: leD\<close>)
    then obtain n m where IH: "remove_loop b ((snd f, snd v) # it) itf = Inr (n, m)"
        "cut_result ((snd f, snd v) # it) itf n m" by blast
    show ?thesis
      using cut_result_inside[OF IH(2) can inside] IH(1) inside c by (auto simp: advance_first_less)
  qed
qed

text \<open>The ranges the loop reports as moved are in canonical form as well: two of them come from
  different ranges of the level or lie in different boundaries.\<close>

definition moved_ok :: "'k::linorder range list \<Rightarrow> 'k range list \<Rightarrow> 'k range list \<Rightarrow> bool" where
  "moved_ok it itf m \<longleftrightarrow> canonical m \<and>
     (\<forall>r \<in> set m. (\<exists>v \<in> set it. fst v \<le> fst r) \<and> (\<exists>f \<in> set itf. fst f \<le> fst r))"

lemma emit_Inr_iff:
  "emit xs ys r = Inr (n, m) \<longleftrightarrow> (\<exists>n' m'. r = Inr (n', m') \<and> n = xs @ n' \<and> m = ys @ m')"
  by (cases "(xs, ys, r)" rule: emit.cases) auto

lemma moved_ok_skip_range: "moved_ok it itf m \<Longrightarrow> moved_ok (v # it) itf m"
  by (auto simp: moved_ok_def)

lemma moved_ok_skip_boundary: "moved_ok it itf m \<Longrightarrow> moved_ok it (f # itf) m"
  by (auto simp: moved_ok_def)

lemma moved_ok_range:
  assumes "moved_ok it (f # itf) m" "canonical (v # it)" "fst v \<le> a" "fst f \<le> a" "a < snd v"
  shows "moved_ok (v # it) (f # itf) ((a, snd v) # m)"
proof -
  have "snd v < fst r" if "r \<in> set m" for r
    using assms(1,2) that by (force simp: moved_ok_def canonical_Cons)
  then show ?thesis using assms by (auto simp: moved_ok_def canonical_Cons)
qed

lemma moved_ok_boundary:
  assumes "moved_ok ((snd f, snd v) # it) itf m" "canonical (f # itf)" "fst v \<le> a" "fst f \<le> a" "a < snd f"
  shows "moved_ok (v # it) (f # itf) ((a, snd f) # m)"
proof -
  have after: "snd f < fst r" if "r \<in> set m" for r
    using assms(1,2) that by (force simp: moved_ok_def canonical_Cons)
  then have "fst v \<le> fst r" if "r \<in> set m" for r using after[OF that] assms(3,5) by order
  then show ?thesis using assms after by (auto simp: moved_ok_def canonical_Cons)
qed

lemma remove_loop_moved:
  "canonical it \<Longrightarrow> canonical itf \<Longrightarrow> remove_loop b it itf = Inr (n, m) \<Longrightarrow> moved_ok it itf m"
proof (induction b it itf arbitrary: n m rule: remove_loop.induct)
  case (1 b itf)
  then show ?case by (simp add: moved_ok_def)
next
  case (2 b v it)
  then obtain n' where "remove_loop b it [] = Inr (n', m)" by (auto simp: emit_Inr_iff)
  then have "moved_ok it [] m" using "2.IH" "2.prems"(1) by (auto simp: canonical_Cons)
  then show ?case by (rule moved_ok_skip_range)
next
  case (3 b v it f itf)
  note can = "3.prems"(1,2) and run = "3.prems"(3)
  have v: "fst v < snd v" "canonical it" and f: "fst f < snd f" "canonical itf"
    using can by (auto simp: canonical_Cons)
  have adv: "canonical ((snd f, snd v) # it)" if "snd f < snd v" using canonical_advance[OF can(1) that] .
  consider (before) "snd v \<le> fst f" | (after) "\<not> snd v \<le> fst f" "snd f \<le> fst v"
    | (left) "fst v < fst f" "fst f < snd v" "snd v \<le> snd f"
    | (within) "fst f \<le> fst v" "snd v \<le> snd f" "\<not> snd v \<le> fst f" "\<not> snd f \<le> fst v"
    | (right) "fst f \<le> fst v" "fst v < snd f" "snd f < snd v"
    | (inside) "fst v < fst f" "snd f < snd v"
    by force
  then show ?case
  proof cases
    case before
    then obtain n' where "remove_loop b it (f # itf) = Inr (n', m)" using run v by (auto simp: emit_Inr_iff)
    then show ?thesis using "3.IH"(1)[OF before v(2) can(2)] moved_ok_skip_range by blast
  next
    case after
    then have "remove_loop b (v # it) itf = Inr (n, m)" using run by simp
    then show ?thesis using "3.IH"(2)[OF after can(1) f(2)] moved_ok_skip_boundary by blast
  next
    case left
    then have c: "\<not> snd v \<le> fst f" "\<not> snd f \<le> fst v" using f by auto
    then obtain n' m' where "remove_loop b it (f # itf) = Inr (n', m')" "m = (fst f, snd v) # m'"
      using run left by (auto simp: emit_Inr_iff)
    then show ?thesis using "3.IH"(3)[OF c _ v(2) can(2)] left moved_ok_range[OF _ can(1), of f itf m' "fst f"] by auto
  next
    case within
    then have c: "\<not> fst v < fst f" by order
    then obtain n' m' where "remove_loop b it (f # itf) = Inr (n', m')" "m = v # m'"
      using run within v by (auto simp: emit_Inr_iff)
    then show ?thesis
      using "3.IH"(4)[OF within(3,4) _ _ v(2) can(2)] c within v moved_ok_range[OF _ can(1), of f itf m' "fst v"] by auto
  next
    case right
    then have c: "\<not> snd v \<le> fst f" "\<not> snd f \<le> fst v" "\<not> snd v \<le> snd f" "\<not> fst v < fst f" using v f by auto
    then obtain n' m' where m': "remove_loop b ((snd f, snd v) # it) itf = Inr (n', m')" "m = (fst v, snd f) # m'"
      using run right by (auto simp: emit_Inr_iff advance_first_less)
    then have "moved_ok ((snd f, snd v) # it) itf m'"
      using "3.IH"(5)[OF c(1,2) _ _ _ _ f(2)] c right adv by (auto simp: advance_first_less)
    then show ?thesis using moved_ok_boundary[OF _ can(2), of v it m' "fst v"] right m'(2) by auto
  next
    case inside
    then have c: "\<not> snd v \<le> fst f" "\<not> snd f \<le> fst v" "\<not> snd v \<le> snd f" "\<not> fst f \<le> fst v" using v f by auto
    then obtain n' m' where m': "remove_loop b ((snd f, snd v) # it) itf = Inr (n', m')" "m = (fst f, snd f) # m'"
      using run inside by (auto simp: emit_Inr_iff advance_first_less)
    then have "moved_ok ((snd f, snd v) # it) itf m'"
      using "3.IH"(6)[OF c(1,2) _ _ _ _ _ f(2)] c inside adv by (auto simp: advance_first_less)
    then show ?thesis using moved_ok_boundary[OF _ can(2), of v it m' "fst f"] inside f m'(2) by auto
  qed
qed

text \<open>The two cutting loops keep the same ranges.\<close>

fun kept_of :: "('a list \<times> 'b list) result \<Rightarrow> 'a list result" where
  "kept_of (Inr (n, m)) = Inr n"
| "kept_of (Inl e) = Inl e"

lemma kept_of_emit: "kept_of (emit xs ys r) = bind_res (kept_of r) (\<lambda>n. Inr (xs @ n))"
  by (induction xs ys r rule: emit.induct) auto

lemma kept_of_assert [simp]: "kept_of (cxx_assert b P (Inl e)) = cxx_assert b P (Inl e)"
  by (simp add: cxx_assert_def)

lemma bind_res_id [simp]: "bind_res r Inr = r"
  by (cases r) auto

lemma delete_loop_remove_loop:
  "nonempty_ranges it \<Longrightarrow> delete_loop b it itf = kept_of (remove_loop b it itf)"
proof (induction b it itf rule: delete_loop.induct)
  case (3 b v it f itf)
  have v: "fst v \<noteq> snd v" "nonempty_ranges it" using "3.prems" by (auto simp: nonempty_ranges_Cons)
  have adv: "nonempty_ranges (advance_first (snd f) v it)"
    using v(2) by (auto simp: advance_first_def nonempty_ranges_Cons)
  show ?case
    using "3.IH" "3.prems" v adv by (simp add: kept_of_emit)
qed (auto simp: nonempty_ranges_Cons kept_of_emit)

lemma delete_loop_cut:
  assumes "canonical it" "canonical itf"
  shows "\<exists>n. delete_loop b it itf = Inr n \<and> canonical n \<and> cover n = cover it - cover itf"
  using remove_loop_cut[OF assms, of b] delete_loop_remove_loop[OF canonical_nonempty[OF assms(1)]]
  by (auto simp: cut_result_def)

section \<open>Merging sampled keys into the split keys\<close>

fun next_candidate :: "'k::linorder list \<Rightarrow> 'k list \<Rightarrow> ('k \<times> 'k list \<times> 'k list) option" where
  "next_candidate [] [] = None"
| "next_candidate [] (y # it2) = Some (y, [], it2)"
| "next_candidate (x # it1) [] = Some (x, it1, [])"
| "next_candidate (x # it1) (y # it2) =
     (if x < y then Some (x, it1, y # it2)
      else if y < x then Some (y, x # it1, it2)
      else Some (x, it1, it2))"

lemma next_candidate_length:
  "next_candidate A B = Some (x, A', B') \<Longrightarrow> length A' + length B' < length A + length B"
  by (induction A B rule: next_candidate.induct) (auto split: if_splits)

function split_loop :: "'k::linorder list \<Rightarrow> 'k list \<Rightarrow> 'k range list \<Rightarrow> 'k list \<Rightarrow> 'k list" where
  "split_loop it1 it2 it_r splitKeysList_new =
     (case next_candidate it1 it2 of
        None \<Rightarrow> splitKeysList_new
      | Some (candidate, it1', it2') \<Rightarrow>
          (case dropWhile (\<lambda>r. snd r \<le> candidate) it_r of
             [] \<Rightarrow> splitKeysList_new
           | r # it_r' \<Rightarrow>
               if candidate < fst r then split_loop it1' it2' (r # it_r') splitKeysList_new
               else split_loop it1' it2' (r # it_r')
                 (if splitKeysList_new = [] \<or> candidate \<noteq> last splitKeysList_new
                  then splitKeysList_new @ [candidate] else splitKeysList_new)))"
  by pat_completeness auto
termination
  by (relation "measure (\<lambda>(A, B, r, n). length A + length B)") (auto dest: next_candidate_length)

declare split_loop.simps [simp del]

text \<open>The candidates in the order the loop meets them, and the loop over them.\<close>

fun union_sorted :: "'k::linorder list \<Rightarrow> 'k list \<Rightarrow> 'k list" where
  "union_sorted [] B = B"
| "union_sorted A [] = A"
| "union_sorted (x # A) (y # B) =
     (if x < y then x # union_sorted A (y # B)
      else if y < x then y # union_sorted (x # A) B
      else x # union_sorted A B)"

fun split_scan :: "'k::linorder list \<Rightarrow> 'k range list \<Rightarrow> 'k list \<Rightarrow> 'k list" where
  "split_scan [] rs new = new"
| "split_scan (c # cs) rs new =
     (case dropWhile (\<lambda>r. snd r \<le> c) rs of
        [] \<Rightarrow> new
      | r # rs' \<Rightarrow>
          if c < fst r then split_scan cs (r # rs') new
          else split_scan cs (r # rs') (if new = [] \<or> c \<noteq> last new then new @ [c] else new))"

lemma union_sorted_Nil [simp]: "union_sorted A [] = A"
  by (cases A) auto

lemma next_candidate_union:
  "next_candidate A B = None \<Longrightarrow> union_sorted A B = []"
  "next_candidate A B = Some (x, A', B') \<Longrightarrow> union_sorted A B = x # union_sorted A' B'"
  by (induction A B rule: next_candidate.induct) (auto split: if_splits)

lemma set_union_sorted: "set (union_sorted A B) = set A \<union> set B"
  by (induction A B rule: union_sorted.induct) auto

lemma sorted_union_sorted: "sorted A \<Longrightarrow> sorted B \<Longrightarrow> sorted (union_sorted A B)"
  by (induction A B rule: union_sorted.induct) (auto simp: set_union_sorted)

lemma split_loop_scan: "split_loop A B rs new = split_scan (union_sorted A B) rs new"
proof (induction A B rs new rule: split_loop.induct)
  case (1 A B rs new)
  show ?case
  proof (cases "next_candidate A B")
    case None
    then show ?thesis by (simp add: split_loop.simps[of A B rs new] next_candidate_union(1))
  next
    case (Some p)
    obtain x A' B' where p: "p = (x, A', B')" by (cases p)
    note IH = 1(1)[OF Some p[symmetric] refl] 1(2)[OF Some p[symmetric] refl]
    note eqs = split_loop.simps[of A B rs new] Some p next_candidate_union(2)[OF Some[unfolded p]]
    show ?thesis
    proof (cases "dropWhile (\<lambda>r. snd r \<le> x) rs")
      case Nil
      then show ?thesis by (simp add: eqs del: dropWhile_eq_Nil_conv)
    next
      case (Cons r rs')
      then show ?thesis using IH[OF Cons] by (simp add: eqs)
    qed
  qed
qed

lemma cover_dropWhile:
  "c \<le> k \<Longrightarrow> k \<in> cover (dropWhile (\<lambda>r. snd r \<le> c) rs) \<longleftrightarrow> k \<in> cover rs"
  by (induction rs) (auto simp: cover_Cons)

lemma strict_sorted_le_last: "sorted_wrt (<) xs \<Longrightarrow> x \<in> set xs \<Longrightarrow> x \<le> last xs"
  for x :: "'k::linorder"
  by (induction xs) (auto simp: order_less_imp_le)

lemma split_scan_correct:
  assumes "sorted cs" "canonical rs" "sorted_wrt (<) new" "\<forall>x \<in> set new. \<forall>c \<in> set cs. x \<le> c"
  shows "sorted_wrt (<) (split_scan cs rs new) \<and>
    set (split_scan cs rs new) = set new \<union> (set cs \<inter> cover rs)"
  using assms
proof (induction cs rs new rule: split_scan.induct)
  case (2 c cs rs new)
  let ?ds = "dropWhile (\<lambda>r. snd r \<le> c) rs"
  have ge: "c \<le> k" if "k \<in> set (c # cs)" for k using "2.prems"(1) that by auto
  have cov: "k \<in> cover ?ds \<longleftrightarrow> k \<in> cover rs" if "k \<in> set (c # cs)" for k
    using cover_dropWhile[OF ge[OF that]] .
  show ?case
  proof (cases ?ds)
    case Nil
    then have "split_scan (c # cs) rs new = new" by (simp del: dropWhile_eq_Nil_conv)
    moreover have "k \<notin> cover rs" if "k \<in> set (c # cs)" for k using cov[OF that] Nil by simp
    ultimately show ?thesis using "2.prems"(3) by auto
  next
    case (Cons r rs')
    have can: "canonical (r # rs')" using canonical_dropWhile[OF "2.prems"(2)] Cons by metis
    have end_r: "\<not> snd r \<le> c" using Cons hd_dropWhile[of "\<lambda>r. snd r \<le> c" rs] by auto
    have s: "sorted cs" using "2.prems"(1) by simp
    show ?thesis
    proof (cases "c < fst r")
      case True
      then have "c \<notin> cover rs" using cov[of c] canonical_cover_below[OF can] Cons by auto
      moreover have "split_scan (c # cs) rs new = split_scan cs (r # rs') new"
        using Cons True by simp
      moreover have "set cs \<inter> cover (r # rs') = set cs \<inter> cover rs" using cov Cons by auto
      ultimately show ?thesis
        using "2.IH"(1)[OF Cons True s can "2.prems"(3)] "2.prems"(4) by auto
    next
      case False
      let ?new = "if new = [] \<or> c \<noteq> last new then new @ [c] else new"
      have in_c: "c \<in> cover rs" using cov[of c] False end_r Cons by (auto simp: cover_Cons)
      have le: "\<forall>x \<in> set new. x \<le> c" using "2.prems"(4) by auto
      have new_set: "set ?new = insert c (set new)" by auto
      have "x < c" if "x \<in> set new" "c \<noteq> last new" for x
      proof -
        have "x \<le> last new" using strict_sorted_le_last "2.prems"(3) that(1) .
        moreover have "last new \<le> c" using le that(1) by (cases new) auto
        ultimately show ?thesis using that(2) by order
      qed
      then have sn: "sorted_wrt (<) ?new" using "2.prems"(3) by (auto simp: sorted_wrt_append)
      have bound: "\<forall>x \<in> set ?new. \<forall>d \<in> set cs. x \<le> d"
        using "2.prems"(1,4) by (auto simp: new_set)
      have "split_scan (c # cs) rs new = split_scan cs (r # rs') ?new" using Cons False by simp
      moreover have "set cs \<inter> cover (r # rs') = set cs \<inter> cover rs" using cov Cons by auto
      ultimately show ?thesis
        using "2.IH"(2)[OF Cons False s can sn bound] in_c new_set by auto
    qed
  qed
qed simp

lemma split_loop_correct:
  assumes "sorted A" "sorted B" "canonical rs"
  shows "sorted_wrt (<) (split_loop A B rs [])"
    and "set (split_loop A B rs []) = (set A \<union> set B) \<inter> cover rs"
  using split_scan_correct[OF sorted_union_sorted[OF assms(1,2)] assms(3), of "[]"]
  by (auto simp: split_loop_scan set_union_sorted)

section \<open>The ranges that overlap a file\<close>

definition overlapping_ranges :: "'k::linorder range list \<Rightarrow> 'k \<Rightarrow> 'k \<Rightarrow> 'k range list" where
  "overlapping_ranges ranges start stop =
     (let it = lower_bound (\<lambda>a. fst a < start) ranges;
          prev = (if it \<noteq> 0 \<and> snd (ranges ! (it - 1)) > start then [ranges ! (it - 1)] else [])
      in prev @ takeWhile (\<lambda>r. fst r < stop) (drop it ranges))"

lemma canonical_overlap_prefix:
  fixes start :: "'k::linorder"
  assumes "canonical rs"
  defines "tw \<equiv> takeWhile (\<lambda>r. fst r < start) rs"
  shows "filter (\<lambda>r. start < snd r) tw =
    (if tw \<noteq> [] \<and> snd (last tw) > start then [last tw] else [])"
  using assms(1) unfolding tw_def
proof (induction rs)
  case (Cons r rs)
  show ?case
  proof (cases "takeWhile (\<lambda>r. fst r < start) rs")
    case Nil
    then show ?thesis by auto
  next
    case (Cons s ss)
    then obtain ss' where "rs = s # ss'" "fst s < start" by (cases rs) (auto split: if_splits)
    then have "\<not> start < snd r" using \<open>canonical (r # rs)\<close> by (auto simp: canonical_Cons)
    then show ?thesis using Cons.IH Cons \<open>canonical (r # rs)\<close> by (auto simp: canonical_Cons)
  qed
qed simp

lemma by_start_filter_takeWhile:
  "by_start rs \<Longrightarrow> filter (\<lambda>r. fst r < b) rs = takeWhile (\<lambda>r. fst r < b) rs"
proof (induction rs)
  case (Cons r rs)
  have "\<not> fst x < b" if "\<not> fst r < b" "x \<in> set rs" for x
  proof -
    have "fst r \<le> fst x" using Cons.prems that(2) by (simp add: by_start_Cons)
    then show ?thesis using that(1) by order
  qed
  then have "\<not> fst r < b \<Longrightarrow> filter (\<lambda>r. fst r < b) rs = []" by (simp add: filter_empty_conv)
  then show ?case using Cons by (auto simp: by_start_Cons)
qed simp

lemma canonical_dropWhile_start:
  assumes "canonical rs" "r \<in> set (dropWhile (\<lambda>r. fst r < start) rs)"
  shows "start < snd r"
proof -
  let ?dw = "dropWhile (\<lambda>r. fst r < start) rs"
  have dw: "canonical ?dw" using canonical_dropWhile[OF assms(1)] .
  obtain r0 rs0 where c: "?dw = r0 # rs0" using assms(2) by (metis empty_iff list.set(1) neq_Nil_conv)
  then have "\<not> fst r0 < start" using hd_dropWhile[of "\<lambda>r. fst r < start" rs] by auto
  moreover have "fst r0 \<le> fst r" using canonical_by_start[OF dw] assms(2) c by (auto simp: by_start_Cons)
  moreover have "fst r < snd r" using dw assms(2) by (simp add: canonical_def)
  ultimately show ?thesis by order
qed

lemma overlapping_ranges_filter:
  fixes start :: "'k::linorder"
  assumes "canonical rs" "start \<le> stop"
  shows "overlapping_ranges rs start stop = filter (\<lambda>r. start < snd r \<and> fst r < stop) rs"
proof -
  define tw where "tw = takeWhile (\<lambda>r. fst r < start) rs"
  define dw where "dw = dropWhile (\<lambda>r. fst r < start) rs"
  have it: "lower_bound (\<lambda>a. fst a < start) rs = length tw"
    unfolding tw_def
    using lower_bound_takeWhile[OF by_start_partitioned_lower[OF canonical_by_start[OF assms(1)]]] .
  have rs: "rs = tw @ dw" unfolding tw_def dw_def by simp
  have can: "canonical dw" unfolding dw_def using canonical_dropWhile[OF assms(1)] .
  have "filter (\<lambda>r. start < snd r \<and> fst r < stop) tw = filter (\<lambda>r. start < snd r) tw"
    using assms(2) unfolding tw_def by (intro filter_cong) (auto dest!: set_takeWhileD)
  also have "\<dots> = (if tw \<noteq> [] \<and> snd (last tw) > start then [last tw] else [])"
    using canonical_overlap_prefix[OF assms(1), of start] unfolding tw_def .
  finally have A: "filter (\<lambda>r. start < snd r \<and> fst r < stop) tw = \<dots>" .
  have "filter (\<lambda>r. start < snd r \<and> fst r < stop) dw = filter (\<lambda>r. fst r < stop) dw"
    using canonical_dropWhile_start[OF assms(1)] unfolding dw_def by (intro filter_cong) auto
  also have "\<dots> = takeWhile (\<lambda>r. fst r < stop) dw"
    by (rule by_start_filter_takeWhile[OF canonical_by_start[OF can]])
  finally have B: "filter (\<lambda>r. start < snd r \<and> fst r < stop) dw = \<dots>" .
  have "rs ! (length tw - Suc 0) = last tw" if "tw \<noteq> []"
    using that by (simp add: rs nth_append last_conv_nth)
  moreover have "drop (length tw) rs = dw" by (simp add: rs)
  ultimately have "overlapping_ranges rs start stop =
      (if tw \<noteq> [] \<and> snd (last tw) > start then [last tw] else []) @ takeWhile (\<lambda>r. fst r < stop) dw"
    by (auto simp: overlapping_ranges_def it Let_def)
  moreover have "filter (\<lambda>r. start < snd r \<and> fst r < stop) rs =
      (if tw \<noteq> [] \<and> snd (last tw) > start then [last tw] else []) @ takeWhile (\<lambda>r. fst r < stop) dw"
    by (subst rs) (simp only: filter_append A B)
  ultimately show ?thesis by simp
qed

section \<open>Gathering the ranges of compacted files\<close>

definition overlaps_any :: "'k::linorder range list \<Rightarrow> 'k range \<Rightarrow> bool" where
  "overlaps_any file_boundaries r = list_ex (\<lambda>b. snd r > fst b \<and> fst r < snd b) file_boundaries"

definition fragments :: "'k::linorder range list \<Rightarrow> 'k range \<Rightarrow> 'k range list" where
  "fragments file_boundaries r =
     filter (\<lambda>(start, stop). start < stop)
       (map (\<lambda>b. (max (fst r) (fst b), min (snd r) (snd b))) file_boundaries)"

fun gather_loop :: "'k::linorder range list \<Rightarrow> 'k range list \<Rightarrow> 'k range list \<times> 'k range list" where
  "gather_loop file_boundaries [] = ([], [])"
| "gather_loop file_boundaries (r # rs) =
     (case gather_loop file_boundaries rs of (new, gathered) \<Rightarrow>
        if overlaps_any file_boundaries r
        then (new, fragments file_boundaries r @ gathered)
        else (r # new, gathered))"

lemma cover_fragments: "cover (fragments bs r) = {fst r..<snd r} \<inter> cover bs"
proof (induction bs)
  case Nil
  then show ?case by (simp add: fragments_def)
next
  case (Cons b bs)
  define s e where "s = max (fst r) (fst b)" and "e = min (snd r) (snd b)"
  have "fragments (b # bs) r = (if s < e then [(s, e)] else []) @ fragments bs r"
    unfolding fragments_def s_def e_def by simp
  then have "cover (fragments (b # bs) r) = {s..<e} \<union> cover (fragments bs r)"
    by (cases "s < e") (auto simp: cover_append cover_Cons)
  then show ?case
    using Cons by (simp add: cover_Cons Int_Un_distrib Int_atLeastLessThan s_def e_def)
qed

lemma not_overlaps_any: "\<not> overlaps_any bs r \<Longrightarrow> {fst r..<snd r} \<inter> cover bs = {}"
proof (induction bs)
  case (Cons b bs)
  then have "snd r \<le> fst b \<or> snd b \<le> fst r" by (auto simp: overlaps_any_def not_less)
  then have "{fst r..<snd r} \<inter> {fst b..<snd b} = {}" by auto
  then show ?case using Cons by (simp add: cover_Cons Int_Un_distrib overlaps_any_def)
qed simp

lemma gather_loop_fst: "fst (gather_loop bs rs) = filter (\<lambda>r. \<not> overlaps_any bs r) rs"
  by (induction bs rs rule: gather_loop.induct) (auto split: prod.splits)

lemma gather_loop_cover: "cover (snd (gather_loop bs rs)) = cover rs \<inter> cover bs"
proof (induction bs rs rule: gather_loop.induct)
  case (2 bs r rs)
  then show ?case
    using not_overlaps_any[of bs r] cover_fragments[of bs r]
    by (auto simp: cover_Cons cover_append split: prod.splits)
qed simp

section \<open>Properties\<close>

text \<open>C11: Cutting file boundaries out of a level always ends without reaching the
  ``Condition Unchecked'' branch: the kept ranges cover exactly the keys outside the boundaries, the
  moved ranges exactly the keys inside, both in canonical form, and the loop that deletes without
  moving keeps the same ranges.\<close>

theorem cutting_partitions:
  assumes "canonical it" "canonical itf"
  shows "\<exists>n m. remove_loop b it itf = Inr (n, m) \<and> canonical n \<and> canonical m \<and>
    cover n = cover it - cover itf \<and> cover m = cover it \<inter> cover itf \<and> delete_loop b it itf = Inr n"
proof -
  obtain n m where run: "remove_loop b it itf = Inr (n, m)" "cut_result it itf n m"
    using remove_loop_cut[OF assms] by blast
  moreover have "canonical m" using remove_loop_moved[OF assms run(1)] by (simp add: moved_ok_def)
  ultimately show ?thesis
    using delete_loop_remove_loop[OF canonical_nonempty[OF assms(1)], of b itf] by (auto simp: cut_result_def)
qed

theorem cutting_partitions_witness:
  "\<exists>n m. remove_loop Debug [(1::int, 10), (20, 30)] [(3, 5), (8, 22)] = Inr (n, m) \<and> canonical n \<and> canonical m \<and>
    cover n = cover [(1, 10), (20, 30)] - cover [(3, 5), (8, 22)] \<and>
    cover m = cover [(1, 10), (20, 30)] \<inter> cover [(3, 5), (8, 22)] \<and>
    delete_loop Debug [(1, 10), (20, 30)] [(3, 5), (8, 22)] = Inr n"
  using cutting_partitions[of "[(1::int, 10), (20, 30)]" "[(3, 5), (8, 22)]" Debug] by (simp add: canonical_def)

text \<open>The binary search for the ranges of a level that overlap a key interval finds all of them
  and nothing else, in order.\<close>

theorem overlapping_ranges_exact:
  assumes "canonical rs" "start \<le> stop"
  shows "overlapping_ranges rs start stop = filter (\<lambda>r. start < snd r \<and> fst r < stop) rs"
  using overlapping_ranges_filter[OF assms] .

theorem overlapping_ranges_exact_witness:
  "overlapping_ranges [(1::int, 4), (6, 9), (12, 15), (20, 22)] 8 13 = [(6, 9), (12, 15)]"
  using overlapping_ranges_exact[of "[(1::int, 4), (6, 9), (12, 15), (20, 22)]" 8 13] by (simp add: canonical_def)

end
