(* ===== verification/RDF_Contract.thy ===== *)
theory RDF_Contract
  imports Range_Lists
begin

text \<open>
  What a range delete filter promises its callers, as locales. A filter keeps, for every level, a
  set \<open>dead\<close> of deleted keys; \<open>add\<close> deletes a list of ranges on a level,
  \<open>cut\<close> takes file boundaries out of it, \<open>query\<close> tells whether a key is alive.
  \<open>splittable_filter\<close> adds \<open>split\<close>, which exempts single keys (the point entries written
  after the range delete). The lemmas are what version_set.cc relies on when it asks a filter
  before reading a file: they follow from the laws alone and hold for every filter that
  interprets the locale.
\<close>

locale range_delete_filter =
  fixes inv :: "'s \<Rightarrow> bool"
    and dead :: "'s \<Rightarrow> nat \<Rightarrow> 'k::linorder set"
    and nlevels :: "'s \<Rightarrow> nat"
    and add :: "nat \<Rightarrow> 'k range list \<Rightarrow> 's \<Rightarrow> 's result"
    and cut :: "nat \<Rightarrow> 'k range list \<Rightarrow> 's \<Rightarrow> 's result"
    and query :: "nat \<Rightarrow> 'k \<Rightarrow> 's \<Rightarrow> (bool \<times> 's) result"
  assumes add_law: "inv s \<Longrightarrow> ordered_ranges B \<Longrightarrow> l \<le> nlevels s \<Longrightarrow>
      \<exists>s'. add l B s = Inr s' \<and> inv s' \<and> dead s' = (dead s)(l := dead s l \<union> cover B) \<and>
        nlevels s' = max (nlevels s) (l + 1)"
    and cut_law: "inv s \<Longrightarrow> canonical B \<Longrightarrow>
      \<exists>s'. cut l B s = Inr s' \<and> inv s' \<and> dead s' = (dead s)(l := dead s l - cover B) \<and>
        nlevels s' = nlevels s"
    and query_law: "inv s \<Longrightarrow> l < nlevels s \<Longrightarrow>
      \<exists>s'. query l k s = Inr (k \<notin> dead s l, s') \<and> inv s' \<and> dead s' = dead s \<and> nlevels s' = nlevels s"
begin

lemma add_then_query:
  assumes "inv s" "ordered_ranges B" "l \<le> nlevels s"
  shows "\<exists>s1 s2. add l B s = Inr s1 \<and> query l k s1 = Inr (k \<notin> dead s l \<and> k \<notin> cover B, s2)"
proof -
  obtain s1 where s1: "add l B s = Inr s1" "inv s1" "dead s1 = (dead s)(l := dead s l \<union> cover B)"
    "nlevels s1 = max (nlevels s) (l + 1)" using add_law[OF assms] by blast
  moreover have "l < nlevels s1" using s1(4) by simp
  ultimately show ?thesis using query_law[of s1 l k] by fastforce
qed

lemma cut_then_query:
  assumes "inv s" "canonical B" "l < nlevels s"
  shows "\<exists>s1 s2. cut l B s = Inr s1 \<and> query l k s1 = Inr (k \<notin> dead s l \<or> k \<in> cover B, s2)"
proof -
  obtain s1 where s1: "cut l B s = Inr s1" "inv s1" "dead s1 = (dead s)(l := dead s l - cover B)"
    "nlevels s1 = nlevels s" using cut_law[OF assms(1,2)] by blast
  then show ?thesis using query_law[of s1 l k] assms(3) by auto
qed

lemma query_repeatable:
  assumes "inv s" "l < nlevels s" "query l k s = Inr (a, s1)"
  shows "\<exists>s2. query l k s1 = Inr (a, s2)"
proof -
  obtain s' where "query l k s = Inr (k \<notin> dead s l, s')" "inv s'" "dead s' = dead s" "nlevels s' = nlevels s"
    using query_law[OF assms(1,2)] by blast
  then show ?thesis using query_law[of s1 l k] assms by auto
qed

text \<open>Moving the deletes of some ranges from one level to another: on the two levels together no
  key is forgotten.\<close>

lemma move_keeps_deletes:
  assumes "inv s" "canonical B" "i \<noteq> j" "j \<le> nlevels s"
  shows "\<exists>s1 s2. cut i B s = Inr s1 \<and> add j B s1 = Inr s2 \<and> inv s2 \<and>
    dead s2 i = dead s i - cover B \<and> dead s2 j = dead s j \<union> cover B \<and>
    dead s i \<union> dead s j \<subseteq> dead s2 i \<union> dead s2 j \<and> (\<forall>l. l \<noteq> i \<longrightarrow> l \<noteq> j \<longrightarrow> dead s2 l = dead s l)"
proof -
  obtain s1 where s1: "cut i B s = Inr s1" "inv s1" "dead s1 = (dead s)(i := dead s i - cover B)"
    "nlevels s1 = nlevels s" using cut_law[OF assms(1,2)] by blast
  then obtain s2 where "add j B s1 = Inr s2" "inv s2" "dead s2 = (dead s1)(j := dead s1 j \<union> cover B)"
    using add_law[of s1 B j] canonical_ordered[OF assms(2)] assms(4) by auto
  then show ?thesis using s1 assms(3) by auto
qed

end

locale splittable_filter = range_delete_filter inv dead nlevels add cut query
  for inv :: "'s \<Rightarrow> bool" and dead :: "'s \<Rightarrow> nat \<Rightarrow> 'k::linorder set" and nlevels :: "'s \<Rightarrow> nat"
    and add :: "nat \<Rightarrow> 'k range list \<Rightarrow> 's \<Rightarrow> 's result"
    and cut :: "nat \<Rightarrow> 'k range list \<Rightarrow> 's \<Rightarrow> 's result"
    and query :: "nat \<Rightarrow> 'k \<Rightarrow> 's \<Rightarrow> (bool \<times> 's) result" +
  fixes split :: "nat \<Rightarrow> 'k list \<Rightarrow> 's \<Rightarrow> 's result"
  assumes split_law: "inv s \<Longrightarrow> sorted ks \<Longrightarrow>
      \<exists>s'. split l ks s = Inr s' \<and> inv s' \<and> dead s' = (dead s)(l := dead s l - set ks) \<and>
        nlevels s' = nlevels s"
    and dead_beyond: "nlevels s \<le> l \<Longrightarrow> dead s l = {}"
begin

text \<open>A key written after a range delete is alive again once it was sampled, and a later range
  delete over it deletes it again.\<close>

lemma split_then_query:
  assumes "inv s" "sorted ks" "l < nlevels s" "k \<in> set ks"
  shows "\<exists>s1 s2. split l ks s = Inr s1 \<and> query l k s1 = Inr (True, s2)"
proof -
  obtain s1 where s1: "split l ks s = Inr s1" "inv s1" "dead s1 = (dead s)(l := dead s l - set ks)"
    "nlevels s1 = nlevels s" using split_law[OF assms(1,2)] by blast
  then show ?thesis using query_law[of s1 l k] assms(3,4) by auto
qed

lemma split_then_add_then_query:
  assumes "inv s" "sorted ks" "ordered_ranges B" "l \<le> nlevels s" "k \<in> cover B"
  shows "\<exists>s1 s2 s3. split l ks s = Inr s1 \<and> add l B s1 = Inr s2 \<and> query l k s2 = Inr (False, s3)"
proof -
  obtain s1 where s1: "split l ks s = Inr s1" "inv s1" "nlevels s1 = nlevels s"
    using split_law[OF assms(1,2)] by blast
  then show ?thesis using add_then_query[of s1 B l k] assms(3-5) by auto
qed

end

end
