(* ===== verification/PLRDF_Filter.thy ===== *)
theory PLRDF_Filter
  imports PLRDF_Cuts RDF_Contract
begin

text \<open>
  The per-level range delete filter \<open>PLRDF_t<KeyType>\<close> of include/rocksdb/sys_rdfilter.h: its
  state and its operations on the levels. The record \<open>plrdf\<close> holds the fields of class
  \<open>PLRDF\<close>, \<open>plrdf_t\<close> adds the one more field of \<open>PLRDF_t\<close>; the operations are
  polymorphic in the key type, as the template is. \<open>uint\<close> levels are \<open>nat\<close>; where the source
  converts an \<open>int\<close> level the model converts it with \<open>to_uint\<close>. A vector index out of range
  is \<open>Undefined_behaviour\<close>.

  \<open>plrdf_inv\<close> is the representation invariant and \<open>dead\<close> the abstraction: the set of keys
  the filter reports as deleted on a level. The lemmas show that every operation keeps the
  invariant and acts on \<open>dead\<close> as a set operation.
\<close>

section \<open>State\<close>

record 'k plrdf =
  rd_filter_level0 :: "fd \<rightharpoonup> 'k range list"
  rd_filter :: "'k range list list"
  split_keys :: "'k list list"
  tracing_rd_filter_level0 :: "fd \<rightharpoonup> 'k range list"
  tracing_level_file_rd_filter :: "(fd \<times> 'k range list) list list"
  numbers_of_ranges_in_RDF_log :: "int list"
  memory_usage_in_RDF_log :: "int list"
  key_search_count :: u32
  key_may_deleted_count :: u32
  key_search_count_kmd :: u32
  flag_key_may_deleted :: bool

record 'k plrdf_t = "'k plrdf" +
  numbers_of_split_keys_in_RDF_log :: "int list"

definition plrdf_empty :: "'k plrdf" where
  "plrdf_empty = \<lparr>rd_filter_level0 = Map.empty, rd_filter = [], split_keys = [],
     tracing_rd_filter_level0 = Map.empty, tracing_level_file_rd_filter = [],
     numbers_of_ranges_in_RDF_log = [], memory_usage_in_RDF_log = [],
     key_search_count = 0, key_may_deleted_count = 0, key_search_count_kmd = 0,
     flag_key_may_deleted = False\<rparr>"

definition plrdf_t_empty :: "'k plrdf_t" where
  "plrdf_t_empty = plrdf.extend plrdf_empty (plrdf_t.fields [])"

section \<open>Operations on the levels\<close>

definition purge_key_on_level ::
  "nat \<Rightarrow> 'k::linorder range list \<Rightarrow> ('k, 'm) plrdf_scheme \<Rightarrow> ('k, 'm) plrdf_scheme" where
  "purge_key_on_level level range_delete_list_in s =
     (if length (split_keys s) \<le> level \<or> split_keys s ! level = [] then s
      else s\<lparr>split_keys := (split_keys s)[level :=
               purge_loop (split_keys s ! level) range_delete_list_in]\<rparr>)"

definition addRangeDelete_internal ::
  "build \<Rightarrow> nat \<Rightarrow> 'k::linorder range list \<Rightarrow> ('k, 'm) plrdf_scheme \<Rightarrow> ('k, 'm) plrdf_scheme result" where
  "addRangeDelete_internal b level range_delete_list_in s =
     cxx_assert b (length (rd_filter s) \<ge> level)
       (let n = level + 1 - length (rd_filter s);
            s1 = s\<lparr>rd_filter := rd_filter s @ replicate n [],
                   split_keys := split_keys s @ replicate n []\<rparr>;
            s2 = purge_key_on_level level range_delete_list_in s1
        in bind_res (addRangeDelete_list (rd_filter s2 ! level) range_delete_list_in)
             (\<lambda>l. Inr (s2\<lparr>rd_filter := (rd_filter s2)[level := l]\<rparr>)))"

definition removeRangeDeletesFromLevel0 ::
  "fd list \<Rightarrow> ('k, 'm) plrdf_scheme \<Rightarrow> ('k, 'm) plrdf_scheme" where
  "removeRangeDeletesFromLevel0 file_numbers s =
     s\<lparr>rd_filter_level0 := fold (\<lambda>f m. m(f := None)) file_numbers (rd_filter_level0 s)\<rparr>"

definition adjustRangeDeletesForLevel0Input ::
  "build \<Rightarrow> nat \<Rightarrow> fd list \<Rightarrow> 'k::linorder range list \<Rightarrow> ('k, 'm) plrdf_scheme \<Rightarrow>
   ('k, 'm) plrdf_scheme result" where
  "adjustRangeDeletesForLevel0Input b olevel file_numbers collected_tombstones s =
     addRangeDelete_internal b olevel collected_tombstones
       (s\<lparr>rd_filter_level0 := fold (\<lambda>f m. m(f := None)) file_numbers (rd_filter_level0 s)\<rparr>)"

definition RemoveRangeDeletesAndSplitKeyFromLevel ::
  "build \<Rightarrow> nat \<Rightarrow> 'k::linorder range list \<Rightarrow> ('k, 'm) plrdf_scheme \<Rightarrow> ('k, 'm) plrdf_scheme result" where
  "RemoveRangeDeletesAndSplitKeyFromLevel b clevel boundaries s =
     (if length (rd_filter s) \<le> clevel then Inr s
      else if boundaries = [] then Inr s
      else bind_res (remove_loop b (rd_filter s ! clevel) boundaries)
        (\<lambda>(new_rdf, moved).
           if length (split_keys s) \<le> clevel then Inl Undefined_behaviour
           else Inr (s\<lparr>rd_filter := (rd_filter s)[clevel := new_rdf],
                       split_keys := (split_keys s)[clevel := keep_loop (split_keys s ! clevel) new_rdf]\<rparr>)))"

definition getOverlappingRanges ::
  "nat \<Rightarrow> 'k::linorder \<Rightarrow> 'k \<Rightarrow> ('k, 'm) plrdf_scheme \<Rightarrow> 'k range list" where
  "getOverlappingRanges level start stop s =
     (if level \<ge> length (rd_filter s) then [] else overlapping_ranges (rd_filter s ! level) start stop)"

definition getRangesForFile ::
  "nat \<Rightarrow> fd \<Rightarrow> 'k::linorder \<Rightarrow> 'k \<Rightarrow> ('k, 'm) plrdf_scheme \<Rightarrow> 'k range list" where
  "getRangesForFile level fd start stop s =
     (if level = 0
      then (case rd_filter_level0 s fd of Some rs \<Rightarrow> rs | None \<Rightarrow> [])
      else getOverlappingRanges level start stop s)"

definition insertRangeDeleteToLevel0 ::
  "fd \<Rightarrow> 'k::linorder range list \<Rightarrow> fd list \<Rightarrow> ('k, 'm) plrdf_scheme \<Rightarrow> ('k, 'm) plrdf_scheme result" where
  "insertRangeDeleteToLevel0 file_num range_delete_list_in exist_level0_file_nums s =
     (let sorted_merged_rdlist = sortAndMerge range_delete_list_in
      in if binary_search exist_level0_file_nums file_num then Inl (Exit 1)
         else Inr (s\<lparr>rd_filter_level0 := (rd_filter_level0 s)(file_num \<mapsto> sorted_merged_rdlist)\<rparr>))"

definition addRangeDelete ::
  "nat \<Rightarrow> 'k::linorder range list \<Rightarrow> ('k, 'm) plrdf_scheme \<Rightarrow> ('k, 'm) plrdf_scheme result" where
  "addRangeDelete level range_delete_list_in s =
     (let rd = grow [] level (rd_filter s)
      in bind_res (addRangeDelete_list (rd ! level) range_delete_list_in)
           (\<lambda>l. Inr (s\<lparr>rd_filter := rd[level := l]\<rparr>)))"

type_synonym 'k file_meta = "int \<times> int \<times> 'k range list \<times> fd list"

definition shift_one ::
  "build \<Rightarrow> 'k::linorder file_meta \<Rightarrow> ('k, 'm) plrdf_scheme \<Rightarrow> ('k, 'm) plrdf_scheme result" where
  "shift_one b file_meta_data s =
     (case file_meta_data of (clevel, olevel, range_list, src_fd_list) \<Rightarrow>
        let sorted_merged_rdlist = sortAndMerge range_list
        in if clevel = 0 then Inr (removeRangeDeletesFromLevel0 src_fd_list s)
           else RemoveRangeDeletesAndSplitKeyFromLevel b (to_uint clevel) sorted_merged_rdlist s)"

definition shiftRDFToOutputLevel ::
  "build \<Rightarrow> 'k::linorder file_meta list \<Rightarrow> 'k range list \<Rightarrow> ('k, 'm) plrdf_scheme \<Rightarrow>
   ('k, 'm) plrdf_scheme result" where
  "shiftRDFToOutputLevel b file_meta_data_vectors sorted_merged_rdlist_outlevel s =
     (if file_meta_data_vectors = [] then Inr s
      else bind_res (fold_res (shift_one b) file_meta_data_vectors s)
        (\<lambda>s1. if sorted_merged_rdlist_outlevel \<noteq> []
              then addRangeDelete_internal b (to_uint (fst (snd (hd file_meta_data_vectors))))
                     sorted_merged_rdlist_outlevel s1
              else Inr s1))"

definition delete_level0_file :: "build \<Rightarrow> fd \<Rightarrow> ('k, 'm) plrdf_scheme \<Rightarrow> ('k, 'm) plrdf_scheme result" where
  "delete_level0_file b fd s =
     (if rd_filter_level0 s fd = None then cxx_assert b False (Inl (Exit 1))
      else Inr (s\<lparr>rd_filter_level0 := (rd_filter_level0 s)(fd := None)\<rparr>))"

definition deleteRDFAssociatedWithFilesAtCurrentLevel ::
  "build \<Rightarrow> int \<times> 'k::linorder range list \<times> fd list \<Rightarrow> ('k, 'm) plrdf_scheme \<Rightarrow>
   ('k, 'm) plrdf_scheme result" where
  "deleteRDFAssociatedWithFilesAtCurrentLevel b file_meta_data s =
     (case file_meta_data of (level, meta_data, fd_list) \<Rightarrow>
        if level = 0 then fold_res (delete_level0_file b) fd_list s
        else if length (rd_filter s) \<le> to_uint level then Inr s
        else bind_res (delete_loop b (rd_filter s ! to_uint level) (sortAndMerge meta_data))
          (\<lambda>new_rdf.
             if length (split_keys s) \<le> to_uint level then Inl Undefined_behaviour
             else Inr (s\<lparr>rd_filter := (rd_filter s)[to_uint level := new_rdf],
                         split_keys := (split_keys s)[to_uint level :=
                           keep_loop (split_keys s ! to_uint level) new_rdf]\<rparr>)))"

definition getLevelRanges :: "int \<Rightarrow> ('k, 'm) plrdf_scheme \<Rightarrow> 'k range list" where
  "getLevelRanges outlevel s =
     (if to_uint outlevel \<ge> length (rd_filter s) then [] else rd_filter s ! to_uint outlevel)"

definition setLevelRanges ::
  "'k range list \<Rightarrow> int \<Rightarrow> ('k, 'm) plrdf_scheme \<Rightarrow> ('k, 'm) plrdf_scheme" where
  "setLevelRanges level_ranges_in outlevel s =
     s\<lparr>rd_filter := (grow [] (to_uint outlevel) (rd_filter s))[to_uint outlevel := level_ranges_in]\<rparr>"

definition gatherSortedRangeTombstonesAndRemoveRDF ::
  "nat \<Rightarrow> fd list \<Rightarrow> 'k::linorder range list \<Rightarrow> 'k range list \<Rightarrow> ('k, 'm) plrdf_scheme \<Rightarrow>
   'k range list \<times> ('k, 'm) plrdf_scheme" where
  "gatherSortedRangeTombstonesAndRemoveRDF clevel file_numbers file_boundaries gathered_rd_list s =
     (if clevel = 0 then
        fold (\<lambda>f (g, s). case rd_filter_level0 s f of
                None \<Rightarrow> (g, s)
              | Some rs \<Rightarrow> (g @ rs, s\<lparr>rd_filter_level0 := (rd_filter_level0 s)(f := None)\<rparr>))
          file_numbers (gathered_rd_list, s)
      else if length (rd_filter s) \<le> clevel then (gathered_rd_list, s)
      else (case gather_loop file_boundaries (rd_filter s ! clevel) of (new_rdf, gathered) \<Rightarrow>
              (gathered_rd_list @ gathered, s\<lparr>rd_filter := (rd_filter s)[clevel := new_rdf]\<rparr>)))"

text \<open>\<open>rd_filter.size() - 1 == bottom_level\<close> is computed in \<open>size_t\<close>: with no level the left
  side is the largest \<open>size_t\<close>, which no \<open>uint\<close> equals.\<close>

definition deleteLastLevelIfEqualsBottomLevel ::
  "nat \<Rightarrow> ('k, 'm) plrdf_scheme \<Rightarrow> ('k, 'm) plrdf_scheme result" where
  "deleteLastLevelIfEqualsBottomLevel bottom_level s =
     (if length (rd_filter s) = bottom_level + 1 then
        (if length (split_keys s) \<le> bottom_level then Inl Undefined_behaviour
         else Inr (s\<lparr>rd_filter := (rd_filter s)[bottom_level := []],
                     split_keys := (split_keys s)[bottom_level := []]\<rparr>))
      else Inr s)"

definition splitRangesOnLevel ::
  "nat \<Rightarrow> 'k::linorder list \<Rightarrow> ('k, 'm) plrdf_scheme \<Rightarrow> ('k, 'm) plrdf_scheme result" where
  "splitRangesOnLevel level keys s =
     (if length (rd_filter s) \<le> level then Inr s
      else if length (split_keys s) \<le> level then Inl Undefined_behaviour
      else Inr (s\<lparr>split_keys := (split_keys s)[level :=
                   split_loop (split_keys s ! level) keys (rd_filter s ! level) []]\<rparr>))"

section \<open>Counters and logs\<close>

definition clearFlagKeyMayDeleted :: "('k, 'm) plrdf_scheme \<Rightarrow> ('k, 'm) plrdf_scheme" where
  "clearFlagKeyMayDeleted s = s\<lparr>flag_key_may_deleted := False, key_search_count_kmd := 0\<rparr>"

definition incKeySearchCountKMD :: "('k, 'm) plrdf_scheme \<Rightarrow> ('k, 'm) plrdf_scheme" where
  "incKeySearchCountKMD s = s\<lparr>key_search_count_kmd := key_search_count_kmd s + 1\<rparr>"

definition incKeySearchCount :: "('k, 'm) plrdf_scheme \<Rightarrow> ('k, 'm) plrdf_scheme" where
  "incKeySearchCount s = s\<lparr>key_search_count := key_search_count s + 1\<rparr>"

definition setFlagKeyMayDeleted :: "('k, 'm) plrdf_scheme \<Rightarrow> ('k, 'm) plrdf_scheme" where
  "setFlagKeyMayDeleted s =
     s\<lparr>key_may_deleted_count := key_may_deleted_count s + 1, flag_key_may_deleted := True\<rparr>"

definition checkProperUsageOfFlagKeyMayDeleted :: "('k, 'm) plrdf_scheme \<Rightarrow> unit result" where
  "checkProperUsageOfFlagKeyMayDeleted s =
     (if key_search_count_kmd s > 1 then Inl (Exit (-1)) else Inr ())"

definition getFlagKeyMayDeleted :: "('k, 'm) plrdf_scheme \<Rightarrow> bool result" where
  "getFlagKeyMayDeleted s =
     bind_res (checkProperUsageOfFlagKeyMayDeleted s) (\<lambda>_. Inr (flag_key_may_deleted s))"

definition clearFilterFalsePositiveRate :: "('k, 'm) plrdf_scheme \<Rightarrow> ('k, 'm) plrdf_scheme" where
  "clearFilterFalsePositiveRate s = s\<lparr>key_search_count := 0, key_may_deleted_count := 0\<rparr>"

definition getNumberOfTotalLevels :: "('k, 'm) plrdf_scheme \<Rightarrow> int" where
  "getNumberOfTotalLevels s =
     fst (foldl (\<lambda>(num, i) l. (if length l > 0 then i + 1 else num, i + 1)) (0, 0) (rd_filter s))"

definition getNumberOfTotalRanges :: "('k, 'm) plrdf_scheme \<Rightarrow> int" where
  "getNumberOfTotalRanges s = foldl (\<lambda>num l. wrap32 (num + int (length l))) 0 (rd_filter s)"

definition getNumberOfTotalSplitKeys :: "('k, 'm) plrdf_scheme \<Rightarrow> int" where
  "getNumberOfTotalSplitKeys s = foldl (\<lambda>num l. wrap32 (num + int (length l))) 0 (split_keys s)"

text \<open>The branch \<open>KeyType = std::string\<close>, the only instance the program has.\<close>

definition getNumberOfTotalMemoryUsage :: "(string, 'm) plrdf_scheme \<Rightarrow> int" where
  "getNumberOfTotalMemoryUsage s =
     foldl (foldl (\<lambda>num k. wrap32 (num + int (length k))))
       (foldl (foldl (\<lambda>num r. wrap32 (num + int (length (fst r) + length (snd r))))) 0 (rd_filter s))
       (split_keys s)"

definition logCurrentTotalNumbersOfRanges :: "('k, 'm) plrdf_scheme \<Rightarrow> ('k, 'm) plrdf_scheme" where
  "logCurrentTotalNumbersOfRanges s =
     s\<lparr>numbers_of_ranges_in_RDF_log := numbers_of_ranges_in_RDF_log s @ [getNumberOfTotalRanges s]\<rparr>"

definition logCurrentTotalNumbersOfSplitKeys :: "('k, 'm) plrdf_t_scheme \<Rightarrow> ('k, 'm) plrdf_t_scheme" where
  "logCurrentTotalNumbersOfSplitKeys s =
     s\<lparr>numbers_of_split_keys_in_RDF_log :=
         numbers_of_split_keys_in_RDF_log s @ [getNumberOfTotalSplitKeys s]\<rparr>"

definition logCurrentTotalMemoryUsage :: "(string, 'm) plrdf_scheme \<Rightarrow> (string, 'm) plrdf_scheme" where
  "logCurrentTotalMemoryUsage s =
     s\<lparr>memory_usage_in_RDF_log := memory_usage_in_RDF_log s @ [getNumberOfTotalMemoryUsage s]\<rparr>"

section \<open>The point query\<close>

text \<open>\<open>partial_key\<close> is \<open>PLRDF_Env::getInstance()->getUsingPartialStringKey()\<close>.\<close>

definition lookup_range :: "'k::linorder range list \<Rightarrow> 'k \<Rightarrow> 'k range" where
  "lookup_range rdList key =
     (let i = upper_bound (\<lambda>a. key < fst a) rdList
      in rdList ! (if i \<noteq> 0 then i - 1 else i))"

definition isEntryAlive ::
  "build \<Rightarrow> bool \<Rightarrow> nat \<Rightarrow> 'k::linorder \<Rightarrow> ('k, 'm) plrdf_scheme \<Rightarrow> (bool \<times> ('k, 'm) plrdf_scheme) result" where
  "isEntryAlive b partial_key level key s0 =
     (let s = incKeySearchCount (incKeySearchCountKMD (clearFlagKeyMayDeleted s0))
      in cxx_assert b (length (rd_filter s) > level)
           (if level \<ge> length (rd_filter s) then Inr (True, s)
            else if rd_filter s ! level = [] then Inr (True, s)
            else if length (split_keys s) \<le> level then Inl Undefined_behaviour
            else let splitKeyList = split_keys s ! level;
                     p = lower_bound (\<lambda>a. a < key) splitKeyList;
                     it = lookup_range (rd_filter s ! level) key
                 in if p < length splitKeyList \<and> splitKeyList ! p = key then Inr (True, s)
                    else if partial_key then
                      let s' = (if key = fst it \<or> key = snd it then setFlagKeyMayDeleted s else s)
                      in if key \<ge> fst it \<and> key < snd it then Inr (False, s') else Inr (True, s')
                    else if key \<ge> fst it \<and> key < snd it then Inr (False, s)
                    else Inr (True, s)))"

section \<open>Invariant and abstraction\<close>

definition level_ok :: "'k::linorder range list \<Rightarrow> 'k list \<Rightarrow> bool" where
  "level_ok rs ks \<longleftrightarrow> canonical rs \<and> sorted_wrt (<) ks \<and> set ks \<subseteq> cover rs"

definition plrdf_inv :: "('k::linorder, 'm) plrdf_scheme \<Rightarrow> bool" where
  "plrdf_inv s \<longleftrightarrow>
     list_all2 level_ok (rd_filter s) (split_keys s) \<and>
     (\<forall>rs \<in> ran (rd_filter_level0 s). canonical rs)"

definition dead :: "('k::linorder, 'm) plrdf_scheme \<Rightarrow> nat \<Rightarrow> 'k set" where
  "dead s l = (if l < length (rd_filter s) then cover (rd_filter s ! l) - set (split_keys s ! l) else {})"

definition dead_level0 :: "('k::linorder, 'm) plrdf_scheme \<Rightarrow> fd \<Rightarrow> 'k set" where
  "dead_level0 s f = (case rd_filter_level0 s f of None \<Rightarrow> {} | Some rs \<Rightarrow> cover rs)"

lemma level_ok_Nil [simp]: "level_ok [] []"
  by (simp add: level_ok_def)

lemma strict_sorted_filter: "sorted_wrt (<) ks \<Longrightarrow> sorted_wrt (<) (filter P ks)"
  by (rule sorted_wrt_filter)

lemma strict_sorted_sorted: "sorted_wrt (<) ks \<Longrightarrow> sorted ks" for ks :: "'k::linorder list"
  by (simp add: strict_sorted_iff)

lemma plrdf_inv_empty: "plrdf_inv plrdf_empty"
  by (simp add: plrdf_inv_def plrdf_empty_def)

lemma plrdf_inv_length: "plrdf_inv s \<Longrightarrow> length (split_keys s) = length (rd_filter s)"
  by (auto simp: plrdf_inv_def dest: list_all2_lengthD)

lemma plrdf_inv_level:
  "plrdf_inv s \<Longrightarrow> l < length (rd_filter s) \<Longrightarrow> level_ok (rd_filter s ! l) (split_keys s ! l)"
  by (auto simp: plrdf_inv_def dest: list_all2_nthD)

lemma plrdf_inv_update:
  assumes "plrdf_inv s" "level_ok rs ks" "l < length (rd_filter s)"
  shows "plrdf_inv (s\<lparr>rd_filter := (rd_filter s)[l := rs], split_keys := (split_keys s)[l := ks]\<rparr>)"
  using assms by (auto simp: plrdf_inv_def intro: list_all2_update_cong)

lemma dead_update:
  assumes "length (split_keys s) = length (rd_filter s)" "l < length (rd_filter s)"
  shows "dead (s\<lparr>rd_filter := (rd_filter s)[l := rs], split_keys := (split_keys s)[l := ks]\<rparr>) =
    (dead s)(l := cover rs - set ks)"
  using assms by (auto simp: dead_def fun_eq_iff)

lemma dead_level0_update [simp]:
  "dead_level0 (s\<lparr>rd_filter := x\<rparr>) = dead_level0 s"
  "dead_level0 (s\<lparr>split_keys := y\<rparr>) = dead_level0 s"
  by (simp_all add: dead_level0_def fun_eq_iff)

lemma level_ok_add:
  assumes "level_ok rs ks" "canonical C" "cover C = cover rs \<union> cover B"
  shows "level_ok C (filter (\<lambda>k. k \<notin> cover B) ks)"
    and "cover C - set (filter (\<lambda>k. k \<notin> cover B) ks) = (cover rs - set ks) \<union> cover B"
  using assms by (auto simp: level_ok_def strict_sorted_filter)

lemma level_ok_cut:
  assumes "level_ok rs ks" "canonical C" "cover C = cover rs - cover B"
  shows "level_ok C (keep_loop ks C)"
    and "cover C - set (keep_loop ks C) = (cover rs - set ks) - cover B"
proof -
  have "keep_loop ks C = filter (\<lambda>k. k \<in> cover C) ks"
    by (rule keep_loop_filter) (use assms strict_sorted_sorted in \<open>auto simp: level_ok_def\<close>)
  then show "level_ok C (keep_loop ks C)" "cover C - set (keep_loop ks C) = (cover rs - set ks) - cover B"
    using assms by (auto simp: level_ok_def strict_sorted_filter)
qed

section \<open>Every operation keeps the invariant and acts as a set operation\<close>

text \<open>Extending the vectors to a level adds levels on which nothing is dead.\<close>

definition extend_levels :: "nat \<Rightarrow> ('k, 'm) plrdf_scheme \<Rightarrow> ('k, 'm) plrdf_scheme" where
  "extend_levels level s =
     (let n = level + 1 - length (rd_filter s)
      in s\<lparr>rd_filter := rd_filter s @ replicate n [], split_keys := split_keys s @ replicate n []\<rparr>)"

lemma extend_levels_inv: "plrdf_inv s \<Longrightarrow> plrdf_inv (extend_levels level s)"
  by (auto simp: plrdf_inv_def extend_levels_def Let_def list_all2_conv_all_nth nth_append)

lemma extend_levels_dead: "plrdf_inv s \<Longrightarrow> dead (extend_levels level s) = dead s"
  using plrdf_inv_length[of s]
  by (auto simp: dead_def extend_levels_def Let_def nth_append fun_eq_iff)

lemma extend_levels_length [simp]:
  "length (rd_filter (extend_levels level s)) = max (length (rd_filter s)) (level + 1)"
  by (simp add: extend_levels_def Let_def)

lemma extend_levels_level0 [simp]: "rd_filter_level0 (extend_levels level s) = rd_filter_level0 s"
  by (simp add: extend_levels_def Let_def)

lemma purge_key_on_level_eq:
  assumes "length (split_keys s) = length (rd_filter s)" "level < length (rd_filter s)"
  shows "purge_key_on_level level B s =
    s\<lparr>split_keys := (split_keys s)[level := purge_loop (split_keys s ! level) B]\<rparr>"
proof (cases "split_keys s ! level = []")
  case True
  have "purge_loop [] B = []" by (induction B) auto
  moreover have "(split_keys s)[level := []] = split_keys s" using True by (metis list_update_id)
  ultimately show ?thesis using True by (simp add: purge_key_on_level_def)
qed (use assms in \<open>simp add: purge_key_on_level_def\<close>)

lemma addRangeDelete_internal_eq:
  "addRangeDelete_internal b level B s =
     cxx_assert b (length (rd_filter s) \<ge> level)
       (let s2 = purge_key_on_level level B (extend_levels level s)
        in bind_res (addRangeDelete_list (rd_filter s2 ! level) B)
             (\<lambda>l. Inr (s2\<lparr>rd_filter := (rd_filter s2)[level := l]\<rparr>)))"
  by (simp add: addRangeDelete_internal_def extend_levels_def Let_def)

lemma addRangeDelete_internal_ok:
  assumes "plrdf_inv s" "ordered_ranges B" "level \<le> length (rd_filter s) \<or> b = NDebug"
  shows "\<exists>s'. addRangeDelete_internal b level B s = Inr s' \<and> plrdf_inv s' \<and>
    dead s' = (dead s)(level := dead s level \<union> cover B) \<and> dead_level0 s' = dead_level0 s \<and>
    length (rd_filter s') = max (length (rd_filter s)) (level + 1)"
proof -
  let ?e = "extend_levels level s"
  let ?ks = "split_keys ?e ! level" and ?rs = "rd_filter ?e ! level"
  have inv: "plrdf_inv ?e" using extend_levels_inv assms(1) .
  have len: "level < length (rd_filter ?e)" by simp
  have ok: "level_ok ?rs ?ks" using plrdf_inv_level[OF inv len] .
  obtain C where C: "addRangeDelete_list ?rs B = Inr C" "canonical C" "cover C = cover ?rs \<union> cover B"
    using addRangeDelete_list_ok[of ?rs B] ok ordered_by_start ordered_nonempty assms(2)
    by (auto simp: level_ok_def)
  let ?f = "filter (\<lambda>k. k \<notin> cover B) ?ks"
  let ?s = "?e\<lparr>rd_filter := (rd_filter ?e)[level := C], split_keys := (split_keys ?e)[level := ?f]\<rparr>"
  have purge: "purge_loop ?ks B = ?f"
    by (rule purge_loop_filter) (use assms(2) ok strict_sorted_sorted in \<open>auto simp: level_ok_def\<close>)
  have guard: "b = Debug \<longrightarrow> level \<le> length (rd_filter s)" using assms(3) by auto
  have "addRangeDelete_internal b level B s = Inr ?s"
    using purge_key_on_level_eq[OF plrdf_inv_length[OF inv] len, of B] C(1) purge guard
    by (simp add: addRangeDelete_internal_eq cxx_assert_def)
  moreover have "plrdf_inv ?s" using plrdf_inv_update[OF inv level_ok_add(1)[OF ok C(2,3)] len] .
  moreover have "dead ?s = (dead s)(level := dead s level \<union> cover B)"
  proof -
    have "dead ?s = (dead ?e)(level := (cover ?rs - set ?ks) \<union> cover B)"
      using dead_update[OF plrdf_inv_length[OF inv] len] level_ok_add(2)[OF ok C(2,3)] by simp
    moreover have "cover ?rs - set ?ks = dead ?e level" using len by (simp add: dead_def)
    ultimately show ?thesis by (simp add: extend_levels_dead[OF assms(1)])
  qed
  moreover have "dead_level0 ?s = dead_level0 s" by (simp add: dead_level0_def fun_eq_iff)
  ultimately show ?thesis by simp
qed

lemma RemoveRangeDeletes_ok:
  assumes "plrdf_inv s" "canonical B"
  shows "\<exists>s'. RemoveRangeDeletesAndSplitKeyFromLevel b level B s = Inr s' \<and> plrdf_inv s' \<and>
    dead s' = (dead s)(level := dead s level - cover B) \<and> dead_level0 s' = dead_level0 s \<and>
    length (rd_filter s') = length (rd_filter s)"
proof (cases "length (rd_filter s) \<le> level \<or> B = []")
  case True
  then have "dead s level - cover B = dead s level" by (auto simp: dead_def)
  then show ?thesis using True assms(1) by (auto simp: RemoveRangeDeletesAndSplitKeyFromLevel_def)
next
  case False
  then have len: "level < length (rd_filter s)" by simp
  let ?rs = "rd_filter s ! level" and ?ks = "split_keys s ! level"
  have ok: "level_ok ?rs ?ks" using plrdf_inv_level[OF assms(1) len] .
  obtain n m where cut: "remove_loop b ?rs B = Inr (n, m)" "cut_result ?rs B n m"
    using remove_loop_cut[of ?rs B b] ok assms(2) by (auto simp: level_ok_def)
  then have n: "canonical n" "cover n = cover ?rs - cover B" by (auto simp: cut_result_def)
  let ?s = "s\<lparr>rd_filter := (rd_filter s)[level := n], split_keys := (split_keys s)[level := keep_loop ?ks n]\<rparr>"
  have "RemoveRangeDeletesAndSplitKeyFromLevel b level B s = Inr ?s"
    using cut(1) False plrdf_inv_length[OF assms(1)]
    by (simp add: RemoveRangeDeletesAndSplitKeyFromLevel_def)
  moreover have "plrdf_inv ?s" using plrdf_inv_update[OF assms(1) level_ok_cut(1)[OF ok n] len] .
  moreover have "dead ?s = (dead s)(level := dead s level - cover B)"
    using dead_update[OF plrdf_inv_length[OF assms(1)] len, where rs = n and ks = "keep_loop ?ks n"]
      level_ok_cut(2)[OF ok n] len by (simp add: dead_def)
  ultimately show ?thesis by (auto simp: dead_level0_def)
qed

lemma removeRangeDeletesFromLevel0_ok:
  "dead (removeRangeDeletesFromLevel0 fs s) = dead s"
  "rd_filter_level0 (removeRangeDeletesFromLevel0 fs s) = (\<lambda>f. if f \<in> set fs then None else rd_filter_level0 s f)"
  "dead_level0 (removeRangeDeletesFromLevel0 fs s) = (\<lambda>f. if f \<in> set fs then {} else dead_level0 s f)"
  "rd_filter (removeRangeDeletesFromLevel0 fs s) = rd_filter s"
proof -
  have fold: "fold (\<lambda>f m. m(f := None)) fs m = (\<lambda>f. if f \<in> set fs then None else m f)" for m :: "fd \<rightharpoonup> 'a range list"
    by (induction fs arbitrary: m) (auto simp: fun_eq_iff)
  show "rd_filter_level0 (removeRangeDeletesFromLevel0 fs s) =
      (\<lambda>f. if f \<in> set fs then None else rd_filter_level0 s f)"
    by (simp add: removeRangeDeletesFromLevel0_def fold)
  then show "dead_level0 (removeRangeDeletesFromLevel0 fs s) = (\<lambda>f. if f \<in> set fs then {} else dead_level0 s f)"
    by (auto simp: dead_level0_def fun_eq_iff)
qed (simp_all add: dead_def removeRangeDeletesFromLevel0_def fun_eq_iff)

lemma removeRangeDeletesFromLevel0_inv: "plrdf_inv s \<Longrightarrow> plrdf_inv (removeRangeDeletesFromLevel0 fs s)"
  unfolding plrdf_inv_def removeRangeDeletesFromLevel0_ok(2)
  by (auto simp: removeRangeDeletesFromLevel0_def ran_def split: if_splits)

lemma insertRangeDeleteToLevel0_ok:
  assumes "plrdf_inv s" "nonempty_ranges rds" "sorted exist" "f \<notin> set exist"
  shows "\<exists>s'. insertRangeDeleteToLevel0 f rds exist s = Inr s' \<and> plrdf_inv s' \<and> dead s' = dead s \<and>
    dead_level0 s' = (dead_level0 s)(f := cover rds) \<and> rd_filter s' = rd_filter s"
proof -
  let ?s = "s\<lparr>rd_filter_level0 := (rd_filter_level0 s)(f \<mapsto> sortAndMerge rds)\<rparr>"
  have "insertRangeDeleteToLevel0 f rds exist s = Inr ?s"
    using assms(3,4) by (simp add: insertRangeDeleteToLevel0_def Let_def binary_search_correct)
  moreover have "plrdf_inv ?s"
    using assms(1) canonical_sortAndMerge[OF assms(2)] by (auto simp: plrdf_inv_def ran_def)
  ultimately show ?thesis by (auto simp: dead_def dead_level0_def fun_eq_iff cover_simps)
qed

lemma insertRangeDeleteToLevel0_error:
  "sorted exist \<Longrightarrow>
   insertRangeDeleteToLevel0 f rds exist s = Inl e \<longleftrightarrow> f \<in> set exist \<and> e = Exit 1"
  by (auto simp: insertRangeDeleteToLevel0_def Let_def binary_search_correct)

lemma splitRangesOnLevel_ok:
  assumes "plrdf_inv s" "sorted keys"
  shows "\<exists>s'. splitRangesOnLevel level keys s = Inr s' \<and> plrdf_inv s' \<and>
    dead s' = (dead s)(level := dead s level - set keys) \<and> dead_level0 s' = dead_level0 s \<and>
    length (rd_filter s') = length (rd_filter s)"
proof (cases "length (rd_filter s) \<le> level")
  case True
  then have "dead s level - set keys = dead s level" by (simp add: dead_def)
  then show ?thesis using True assms(1) by (auto simp: splitRangesOnLevel_def)
next
  case False
  then have len: "level < length (rd_filter s)" by simp
  let ?rs = "rd_filter s ! level" and ?ks = "split_keys s ! level"
  have ok: "level_ok ?rs ?ks" using plrdf_inv_level[OF assms(1) len] .
  let ?n = "split_loop ?ks keys ?rs []"
  have n: "sorted_wrt (<) ?n" "set ?n = (set ?ks \<union> set keys) \<inter> cover ?rs"
    using split_loop_correct[of ?ks keys ?rs] ok assms(2) strict_sorted_sorted by (auto simp: level_ok_def)
  let ?s = "s\<lparr>rd_filter := (rd_filter s)[level := ?rs], split_keys := (split_keys s)[level := ?n]\<rparr>"
  have "splitRangesOnLevel level keys s = Inr ?s"
    using False plrdf_inv_length[OF assms(1)] by (simp add: splitRangesOnLevel_def)
  moreover have "level_ok ?rs ?n" using ok n by (auto simp: level_ok_def)
  then have "plrdf_inv ?s" using plrdf_inv_update[OF assms(1) _ len] by blast
  moreover have "cover ?rs - set ?n = dead s level - set keys"
    using n(2) len by (auto simp: dead_def)
  then have "dead ?s = (dead s)(level := dead s level - set keys)"
    using dead_update[OF plrdf_inv_length[OF assms(1)] len, where rs = ?rs and ks = ?n] by simp
  ultimately show ?thesis by (auto simp: dead_level0_def)
qed

lemma deleteLastLevel_ok:
  assumes "plrdf_inv s"
  shows "\<exists>s'. deleteLastLevelIfEqualsBottomLevel level s = Inr s' \<and> plrdf_inv s' \<and>
    dead s' = (if length (rd_filter s) = level + 1 then (dead s)(level := {}) else dead s) \<and>
    dead_level0 s' = dead_level0 s \<and> length (rd_filter s') = length (rd_filter s)"
proof (cases "length (rd_filter s) = level + 1")
  case True
  let ?s = "s\<lparr>rd_filter := (rd_filter s)[level := []], split_keys := (split_keys s)[level := []]\<rparr>"
  have len: "level < length (rd_filter s)" using True by simp
  have "deleteLastLevelIfEqualsBottomLevel level s = Inr ?s"
    using True plrdf_inv_length[OF assms] by (simp add: deleteLastLevelIfEqualsBottomLevel_def)
  then show ?thesis
    using plrdf_inv_update[OF assms level_ok_Nil len] True
      dead_update[OF plrdf_inv_length[OF assms] len, where rs = "[]" and ks = "[]"]
    by (auto simp: dead_level0_def)
qed (simp add: deleteLastLevelIfEqualsBottomLevel_def assms)

section \<open>Compaction: files move to the output level\<close>

definition cut_from :: "'k::linorder file_meta list \<Rightarrow> nat \<Rightarrow> 'k set" where
  "cut_from ms l = (\<Union>(c, out, rs, fs) \<in> set ms. if c \<noteq> 0 \<and> to_uint c = l then cover rs else {})"

definition files_of_level0 :: "'k file_meta list \<Rightarrow> fd set" where
  "files_of_level0 ms = (\<Union>(c, out, rs, fs) \<in> set ms. if c = 0 then set fs else {})"

definition metas_ok :: "'k::linorder file_meta list \<Rightarrow> bool" where
  "metas_ok ms \<longleftrightarrow> (\<forall>(c, out, rs, fs) \<in> set ms. nonempty_ranges rs)"

lemma shift_one_ok:
  assumes "plrdf_inv s" "nonempty_ranges rs"
  shows "\<exists>s'. shift_one b (c, out, rs, fs) s = Inr s' \<and> plrdf_inv s' \<and>
    (\<forall>l. dead s' l = dead s l - cut_from [(c, out, rs, fs)] l) \<and>
    (\<forall>f. dead_level0 s' f = (if f \<in> files_of_level0 [(c, out, rs, fs)] then {} else dead_level0 s f)) \<and>
    length (rd_filter s') = length (rd_filter s)"
proof (cases "c = 0")
  case True
  then show ?thesis
    using removeRangeDeletesFromLevel0_inv[OF assms(1), of fs] removeRangeDeletesFromLevel0_ok[of fs s]
    by (auto simp: shift_one_def cut_from_def files_of_level0_def)
next
  case False
  have "canonical (sortAndMerge rs)" using canonical_sortAndMerge[OF assms(2)] .
  from RemoveRangeDeletes_ok[OF assms(1) this, of b "to_uint c"]
  obtain s' where "RemoveRangeDeletesAndSplitKeyFromLevel b (to_uint c) (sortAndMerge rs) s = Inr s'"
    "plrdf_inv s'" "dead s' = (dead s)(to_uint c := dead s (to_uint c) - cover rs)"
    "dead_level0 s' = dead_level0 s" "length (rd_filter s') = length (rd_filter s)"
    by (auto simp: cover_simps)
  then show ?thesis using False by (auto simp: shift_one_def cut_from_def files_of_level0_def)
qed

lemma shift_fold_ok:
  assumes "plrdf_inv s" "metas_ok ms"
  shows "\<exists>s'. fold_res (shift_one b) ms s = Inr s' \<and> plrdf_inv s' \<and>
    (\<forall>l. dead s' l = dead s l - cut_from ms l) \<and>
    (\<forall>f. dead_level0 s' f = (if f \<in> files_of_level0 ms then {} else dead_level0 s f)) \<and>
    length (rd_filter s') = length (rd_filter s)"
  using assms
proof (induction ms arbitrary: s)
  case Nil
  then show ?case by (simp add: cut_from_def files_of_level0_def)
next
  case (Cons m ms)
  obtain c out rs fs where m: "m = (c, out, rs, fs)" by (metis prod_cases4)
  have ne: "nonempty_ranges rs" and ms: "metas_ok ms" using Cons.prems(2) m by (auto simp: metas_ok_def)
  obtain s1 where s1: "shift_one b m s = Inr s1" "plrdf_inv s1"
    "\<forall>l. dead s1 l = dead s l - cut_from [m] l"
    "\<forall>f. dead_level0 s1 f = (if f \<in> files_of_level0 [m] then {} else dead_level0 s f)"
    "length (rd_filter s1) = length (rd_filter s)"
    using shift_one_ok[OF Cons.prems(1) ne] m by blast
  obtain s2 where s2: "fold_res (shift_one b) ms s1 = Inr s2" "plrdf_inv s2"
    "\<forall>l. dead s2 l = dead s1 l - cut_from ms l"
    "\<forall>f. dead_level0 s2 f = (if f \<in> files_of_level0 ms then {} else dead_level0 s1 f)"
    "length (rd_filter s2) = length (rd_filter s1)"
    using Cons.IH[OF s1(2) ms] by blast
  have "cut_from (m # ms) l = cut_from [m] l \<union> cut_from ms l" for l by (simp add: cut_from_def)
  moreover have "files_of_level0 (m # ms) = files_of_level0 [m] \<union> files_of_level0 ms"
    by (simp add: files_of_level0_def)
  ultimately show ?case using s1 s2 by auto
qed

definition after_shift :: "'k::linorder file_meta list \<Rightarrow> 'k range list \<Rightarrow> (nat \<Rightarrow> 'k set) \<Rightarrow> nat \<Rightarrow> 'k set" where
  "after_shift ms rds d l =
     (if ms = [] then d l
      else (d l - cut_from ms l) \<union> (if l = to_uint (fst (snd (hd ms))) then cover rds else {}))"

definition levels_after_shift :: "'k file_meta list \<Rightarrow> 'k range list \<Rightarrow> nat \<Rightarrow> nat" where
  "levels_after_shift ms rds n = (if ms = [] \<or> rds = [] then n else max n (to_uint (fst (snd (hd ms))) + 1))"

lemma shiftRDFToOutputLevel_ok:
  assumes "plrdf_inv s" "metas_ok ms" "ordered_ranges rds"
    and "ms \<noteq> [] \<longrightarrow> to_uint (fst (snd (hd ms))) \<le> length (rd_filter s) \<or> b = NDebug"
  shows "\<exists>s'. shiftRDFToOutputLevel b ms rds s = Inr s' \<and> plrdf_inv s' \<and>
    dead s' = after_shift ms rds (dead s) \<and>
    (\<forall>f. dead_level0 s' f = (if f \<in> files_of_level0 ms then {} else dead_level0 s f)) \<and>
    length (rd_filter s') = levels_after_shift ms rds (length (rd_filter s))"
proof (cases "ms = []")
  case True
  then show ?thesis
    using assms(1)
    by (auto simp: shiftRDFToOutputLevel_def after_shift_def files_of_level0_def levels_after_shift_def fun_eq_iff)
next
  case False
  obtain s1 where s1: "fold_res (shift_one b) ms s = Inr s1" "plrdf_inv s1"
    "\<forall>l. dead s1 l = dead s l - cut_from ms l"
    "\<forall>f. dead_level0 s1 f = (if f \<in> files_of_level0 ms then {} else dead_level0 s f)"
    "length (rd_filter s1) = length (rd_filter s)"
    using shift_fold_ok[OF assms(1,2)] by blast
  show ?thesis
  proof (cases "rds = []")
    case True
    then show ?thesis
      using s1 False by (auto simp: shiftRDFToOutputLevel_def after_shift_def levels_after_shift_def fun_eq_iff)
  next
    case F: False
    from addRangeDelete_internal_ok[OF s1(2) assms(3), of "to_uint (fst (snd (hd ms)))" b]
    obtain s2 where "addRangeDelete_internal b (to_uint (fst (snd (hd ms)))) rds s1 = Inr s2" "plrdf_inv s2"
      "dead s2 = (dead s1)(to_uint (fst (snd (hd ms))) := dead s1 (to_uint (fst (snd (hd ms)))) \<union> cover rds)"
      "dead_level0 s2 = dead_level0 s1"
      "length (rd_filter s2) = max (length (rd_filter s1)) (to_uint (fst (snd (hd ms))) + 1)"
      using assms(4) False s1(5) by auto
    then show ?thesis
      using s1 False F by (auto simp: shiftRDFToOutputLevel_def after_shift_def levels_after_shift_def fun_eq_iff)
  qed
qed

section \<open>Direct removal of files\<close>

lemma delete_level0_ok:
  assumes "plrdf_inv s" "set fs \<subseteq> dom (rd_filter_level0 s)" "distinct fs"
  shows "\<exists>s'. fold_res (delete_level0_file b) fs s = Inr s' \<and> plrdf_inv s' \<and> dead s' = dead s \<and>
    (\<forall>f. dead_level0 s' f = (if f \<in> set fs then {} else dead_level0 s f)) \<and> rd_filter s' = rd_filter s"
  using assms
proof (induction fs arbitrary: s)
  case (Cons f fs)
  let ?s = "s\<lparr>rd_filter_level0 := (rd_filter_level0 s)(f := None)\<rparr>"
  have step: "delete_level0_file b f s = Inr ?s" using Cons.prems(2) by (auto simp: delete_level0_file_def)
  have inv: "plrdf_inv ?s" using Cons.prems(1) by (auto simp: plrdf_inv_def ran_def)
  have sub: "set fs \<subseteq> dom (rd_filter_level0 ?s)" "distinct fs" using Cons.prems(2,3) by auto
  obtain s' where s': "fold_res (delete_level0_file b) fs ?s = Inr s'" "plrdf_inv s'" "dead s' = dead ?s"
    "\<forall>g. dead_level0 s' g = (if g \<in> set fs then {} else dead_level0 ?s g)" "rd_filter s' = rd_filter s"
    using Cons.IH[OF inv sub] by auto
  moreover have "dead ?s = dead s" by (simp add: dead_def fun_eq_iff)
  moreover have "dead_level0 ?s = (dead_level0 s)(f := {})" by (auto simp: dead_level0_def fun_eq_iff)
  ultimately show ?case using step by auto
qed simp

lemma deleteRDF_level_ok:
  assumes "plrdf_inv s" "nonempty_ranges rs" "level \<noteq> 0"
  shows "\<exists>s'. deleteRDFAssociatedWithFilesAtCurrentLevel b (level, rs, fs) s = Inr s' \<and> plrdf_inv s' \<and>
    dead s' = (dead s)(to_uint level := dead s (to_uint level) - cover rs) \<and>
    dead_level0 s' = dead_level0 s \<and> length (rd_filter s') = length (rd_filter s)"
proof (cases "length (rd_filter s) \<le> to_uint level")
  case True
  then have "dead s (to_uint level) - cover rs = dead s (to_uint level)" by (simp add: dead_def)
  then show ?thesis using True assms(1,3) by (auto simp: deleteRDFAssociatedWithFilesAtCurrentLevel_def)
next
  case False
  define l where "l = to_uint level"
  have len: "l < length (rd_filter s)" using False by (simp add: l_def)
  let ?rs = "rd_filter s ! l" and ?ks = "split_keys s ! l"
  have ok: "level_ok ?rs ?ks" using plrdf_inv_level[OF assms(1) len] .
  obtain n where n: "delete_loop b ?rs (sortAndMerge rs) = Inr n" "canonical n" "cover n = cover ?rs - cover rs"
    using delete_loop_cut[of ?rs "sortAndMerge rs" b] ok canonical_sortAndMerge[OF assms(2)]
    by (auto simp: level_ok_def cover_simps)
  let ?s = "s\<lparr>rd_filter := (rd_filter s)[l := n], split_keys := (split_keys s)[l := keep_loop ?ks n]\<rparr>"
  have "deleteRDFAssociatedWithFilesAtCurrentLevel b (level, rs, fs) s = Inr ?s"
    using n(1) False assms(3) plrdf_inv_length[OF assms(1)]
    by (simp add: deleteRDFAssociatedWithFilesAtCurrentLevel_def l_def)
  moreover have "plrdf_inv ?s" using plrdf_inv_update[OF assms(1) level_ok_cut(1)[OF ok n(2,3)] len] .
  moreover have "dead ?s = (dead s)(l := dead s l - cover rs)"
    using dead_update[OF plrdf_inv_length[OF assms(1)] len, where rs = n and ks = "keep_loop ?ks n"]
      level_ok_cut(2)[OF ok n(2,3)] len by (simp add: dead_def)
  ultimately show ?thesis by (auto simp: dead_level0_def l_def)
qed

section \<open>The point query answers from the abstraction\<close>

lemma lookup_range_correct:
  assumes "canonical rs" "rs \<noteq> []"
  shows "(fst (lookup_range rs k) \<le> k \<and> k < snd (lookup_range rs k)) \<longleftrightarrow> k \<in> cover rs"
  using canonical_lookup(2)[OF assms, of k] by (simp add: lookup_range_def Let_def)

definition query_counted :: "('k, 'm) plrdf_scheme \<Rightarrow> ('k, 'm) plrdf_scheme" where
  "query_counted s = incKeySearchCount (incKeySearchCountKMD (clearFlagKeyMayDeleted s))"

lemmas counter_defs = query_counted_def incKeySearchCount_def incKeySearchCountKMD_def
  clearFlagKeyMayDeleted_def setFlagKeyMayDeleted_def

lemma query_counted_sel [simp]:
  "rd_filter (query_counted s) = rd_filter s" "split_keys (query_counted s) = split_keys s"
  "rd_filter_level0 (query_counted s) = rd_filter_level0 s"
  by (simp_all add: counter_defs)

lemma isEntryAlive_ok:
  assumes "plrdf_inv s" "level < length (rd_filter s)"
  shows "\<exists>s'. isEntryAlive b p level key s = Inr (key \<notin> dead s level, s') \<and>
    (s' = query_counted s \<or> s' = setFlagKeyMayDeleted (query_counted s))"
proof -
  let ?rs = "rd_filter s ! level" and ?ks = "split_keys s ! level"
  have ok: "canonical ?rs" "sorted ?ks"
    using plrdf_inv_level[OF assms] strict_sorted_sorted by (auto simp: level_ok_def)
  have len: "level < length (split_keys s)" using plrdf_inv_length[OF assms(1)] assms(2) by simp
  have split: "lower_bound (\<lambda>a. a < key) ?ks < length ?ks \<and> ?ks ! lower_bound (\<lambda>a. a < key) ?ks = key
      \<longleftrightarrow> key \<in> set ?ks"
    using sorted_lower_bound_hit[OF ok(2)] .
  have look: "?rs \<noteq> [] \<Longrightarrow> fst (lookup_range ?rs key) \<le> key \<and> key < snd (lookup_range ?rs key) \<longleftrightarrow> key \<in> cover ?rs"
    using lookup_range_correct[OF ok(1)] .
  show ?thesis
    unfolding isEntryAlive_def query_counted_def[symmetric]
    using assms(2) len split look by (auto simp: Let_def dead_def not_le)
qed

section \<open>The filter meets its contract\<close>

lemma setFlag_sel [simp]:
  "rd_filter (setFlagKeyMayDeleted s) = rd_filter s" "split_keys (setFlagKeyMayDeleted s) = split_keys s"
  "rd_filter_level0 (setFlagKeyMayDeleted s) = rd_filter_level0 s"
  by (simp_all add: setFlagKeyMayDeleted_def)

lemma plrdf_inv_cong:
  "rd_filter s' = rd_filter s \<Longrightarrow> split_keys s' = split_keys s \<Longrightarrow> rd_filter_level0 s' = rd_filter_level0 s \<Longrightarrow>
   plrdf_inv s' = plrdf_inv s \<and> dead s' = dead s \<and> dead_level0 s' = dead_level0 s"
  by (intro conjI ext) (simp_all add: plrdf_inv_def dead_def dead_level0_def)

lemma isEntryAlive_contract:
  assumes "plrdf_inv s" "level < length (rd_filter s)"
  shows "\<exists>s'. isEntryAlive b p level key s = Inr (key \<notin> dead s level, s') \<and>
    plrdf_inv s' \<and> dead s' = dead s \<and> length (rd_filter s') = length (rd_filter s)"
proof -
  obtain s' where s': "isEntryAlive b p level key s = Inr (key \<notin> dead s level, s')"
    "s' = query_counted s \<or> s' = setFlagKeyMayDeleted (query_counted s)"
    using isEntryAlive_ok[OF assms] by blast
  then have "rd_filter s' = rd_filter s" "split_keys s' = split_keys s" "rd_filter_level0 s' = rd_filter_level0 s"
    by auto
  then show ?thesis using s'(1) plrdf_inv_cong[of s' s] assms(1) by auto
qed

interpretation plrdf_t: splittable_filter plrdf_inv dead "\<lambda>s. length (rd_filter s)"
  "addRangeDelete_internal b" "RemoveRangeDeletesAndSplitKeyFromLevel b" "isEntryAlive b p"
  splitRangesOnLevel
  for b p
proof (unfold_locales, goal_cases)
  case (1 s B l)
  then show ?case using addRangeDelete_internal_ok[of s B l b] by blast
next
  case (2 s B l)
  then show ?case using RemoveRangeDeletes_ok[of s B b l] by blast
next
  case (3 s l k)
  then show ?case using isEntryAlive_contract[of s l b p k] by blast
next
  case (4 s ks l)
  then show ?case using splitRangesOnLevel_ok[of s ks l] by blast
next
  case (5 s l)
  then show ?case by (simp add: dead_def)
qed

section \<open>Properties\<close>

text \<open>A small filter for the examples: level 1 deletes \<open>[1, 5)\<close> and \<open>[8, 12)\<close> except the
  key 3.\<close>

definition sample_filter :: "int plrdf" where
  "sample_filter = plrdf_empty\<lparr>rd_filter := [[], [(1, 5), (8, 12)]], split_keys := [[], [3]]\<rparr>"

lemma sample_filter_inv: "plrdf_inv sample_filter"
  by (simp add: sample_filter_def plrdf_empty_def plrdf_inv_def level_ok_def canonical_def cover_def)

lemma sample_filter_len: "length (rd_filter sample_filter) = 2"
  by (simp add: sample_filter_def plrdf_empty_def)


text \<open>C7: A point query answers ``deleted'' exactly for the keys covered by a range of the level and
  not split off since, whatever the build and with or without partial string keys, and changes
  nothing but the counters.\<close>

theorem isEntryAlive_exact:
  assumes "plrdf_inv s" "level < length (rd_filter s)"
  shows "\<exists>s'. isEntryAlive b p level key s =
      Inr (\<not> (key \<in> cover (rd_filter s ! level) \<and> key \<notin> set (split_keys s ! level)), s') \<and>
    rd_filter s' = rd_filter s \<and> split_keys s' = split_keys s \<and> rd_filter_level0 s' = rd_filter_level0 s \<and>
    key_search_count s' = key_search_count s + 1 \<and> key_search_count_kmd s' = 1"
proof -
  obtain s' where s': "isEntryAlive b p level key s = Inr (key \<notin> dead s level, s')"
    "s' = query_counted s \<or> s' = setFlagKeyMayDeleted (query_counted s)"
    using isEntryAlive_ok[OF assms] by blast
  from s'(2) have "key_search_count s' = key_search_count s + 1 \<and> key_search_count_kmd s' = 1"
    by (auto simp: counter_defs)
  then show ?thesis using s' assms(2) by (auto simp: dead_def)
qed

theorem isEntryAlive_exact_witness:
  "(\<exists>s'. isEntryAlive Debug False 1 4 sample_filter = Inr (False, s')) \<and>
   (\<exists>s'. isEntryAlive Debug False 1 3 sample_filter = Inr (True, s'))"
  using isEntryAlive_exact[OF sample_filter_inv, of 1 Debug False 4]
    isEntryAlive_exact[OF sample_filter_inv, of 1 Debug False 3]
  by (auto simp: sample_filter_def plrdf_empty_def cover_Cons)

text \<open>C16: Adding range deletes to a level makes exactly the keys they cover deleted in addition, also
  keys that had been split off, and leaves the other levels and level 0 alone.\<close>

theorem addRangeDelete_internal_deletes:
  assumes "plrdf_inv s" "ordered_ranges B" "level \<le> length (rd_filter s) \<or> b = NDebug"
  shows "\<exists>s'. addRangeDelete_internal b level B s = Inr s' \<and> plrdf_inv s' \<and>
    dead s' = (dead s)(level := dead s level \<union> cover B) \<and> dead_level0 s' = dead_level0 s"
  using addRangeDelete_internal_ok[OF assms] by blast

theorem addRangeDelete_internal_deletes_witness:
  "\<exists>s'. addRangeDelete_internal Debug 1 [(2, 4)] sample_filter = Inr s' \<and> plrdf_inv s' \<and>
    dead s' = (dead sample_filter)(1 := dead sample_filter 1 \<union> cover [(2, 4)]) \<and>
    dead_level0 s' = dead_level0 sample_filter"
  by (rule addRangeDelete_internal_deletes[OF sample_filter_inv])
     (simp_all add: ordered_ranges_def sample_filter_len)

text \<open>C17: Removing the deletes of compacted files from a level removes exactly the keys within the
  file boundaries, and the split keys that remain are those still covered.\<close>

theorem RemoveRangeDeletes_removes:
  assumes "plrdf_inv s" "canonical B"
  shows "\<exists>s'. RemoveRangeDeletesAndSplitKeyFromLevel b level B s = Inr s' \<and> plrdf_inv s' \<and>
    dead s' = (dead s)(level := dead s level - cover B) \<and> dead_level0 s' = dead_level0 s"
  using RemoveRangeDeletes_ok[OF assms] by blast

theorem RemoveRangeDeletes_removes_witness:
  "\<exists>s'. RemoveRangeDeletesAndSplitKeyFromLevel Debug 1 [(2, 4)] sample_filter = Inr s' \<and> plrdf_inv s' \<and>
    dead s' = (dead sample_filter)(1 := dead sample_filter 1 - cover [(2, 4)]) \<and>
    dead_level0 s' = dead_level0 sample_filter"
  by (rule RemoveRangeDeletes_removes[OF sample_filter_inv]) (simp add: canonical_def)

text \<open>C25: A flush records the merged tombstones of the new file of level 0; a file number that is
  already listed is refused with exit status 1 and only then.\<close>

theorem insertRangeDeleteToLevel0_records:
  assumes "plrdf_inv s" "nonempty_ranges rds" "sorted exist"
  shows "if f \<in> set exist then insertRangeDeleteToLevel0 f rds exist s = Inl (Exit 1)
    else \<exists>s'. insertRangeDeleteToLevel0 f rds exist s = Inr s' \<and> plrdf_inv s' \<and> dead s' = dead s \<and>
      dead_level0 s' = (dead_level0 s)(f := cover rds)"
  using insertRangeDeleteToLevel0_ok[OF assms] insertRangeDeleteToLevel0_error[OF assms(3), of f rds s "Exit 1"]
  by auto

theorem insertRangeDeleteToLevel0_records_witness:
  "insertRangeDeleteToLevel0 9 [(1::int, 4)] [7, 9] plrdf_empty = Inl (Exit 1) \<and>
   (\<exists>s'. insertRangeDeleteToLevel0 8 [(1::int, 4)] [7, 9] plrdf_empty = Inr s' \<and> plrdf_inv s' \<and>
      dead s' = dead plrdf_empty \<and> dead_level0 s' = (dead_level0 plrdf_empty)(8 := cover [(1, 4)]))"
  using insertRangeDeleteToLevel0_records[OF plrdf_inv_empty, of "[(1::int, 4)]" "[7, 9]" 9]
    insertRangeDeleteToLevel0_records[OF plrdf_inv_empty, of "[(1::int, 4)]" "[7, 9]" 8]
  by (simp add: nonempty_ranges_def)

text \<open>Deleting a file of level 0 that the filter does not hold ends the program: an assertion in a
  debug build, exit status 1 otherwise.\<close>

theorem delete_missing_level0_file:
  assumes "rd_filter_level0 s f = None"
  shows "deleteRDFAssociatedWithFilesAtCurrentLevel b (0, rs, f # fs) s =
    (if b = Debug then Inl Assert_failed else Inl (Exit 1))"
  using assms by (simp add: deleteRDFAssociatedWithFilesAtCurrentLevel_def delete_level0_file_def cxx_assert_def)

theorem delete_missing_level0_file_witness:
  "deleteRDFAssociatedWithFilesAtCurrentLevel NDebug (0, [], [5]) sample_filter = Inl (Exit 1)"
  using delete_missing_level0_file[of sample_filter 5 NDebug "[]" "[]"]
  by (simp add: sample_filter_def plrdf_empty_def)

text \<open>Through the contract: a key that was split off is alive, and deleted again as soon as a
  later range delete covers it.\<close>

theorem split_then_delete_again:
  assumes "plrdf_inv s" "sorted ks" "ordered_ranges B" "l < length (rd_filter s)" "k \<in> set ks" "k \<in> cover B"
  shows "\<exists>s1. splitRangesOnLevel l ks s = Inr s1 \<and> (\<exists>s2. isEntryAlive b p l k s1 = Inr (True, s2)) \<and>
    (\<exists>s3 s4. addRangeDelete_internal b l B s1 = Inr s3 \<and> isEntryAlive b p l k s3 = Inr (False, s4))"
  using plrdf_t.split_then_query[OF assms(1,2,4,5), of b p]
    plrdf_t.split_then_add_then_query[OF assms(1,2,3) less_imp_le[OF assms(4)] assms(6), of b p] by auto

theorem split_then_delete_again_witness:
  "\<exists>s1. splitRangesOnLevel 1 [9] sample_filter = Inr s1 \<and> (\<exists>s2. isEntryAlive Debug False 1 9 s1 = Inr (True, s2)) \<and>
    (\<exists>s3 s4. addRangeDelete_internal Debug 1 [(9, 10)] s1 = Inr s3 \<and> isEntryAlive Debug False 1 9 s3 = Inr (False, s4))"
  by (rule split_then_delete_again[OF sample_filter_inv])
     (simp_all add: ordered_ranges_def sample_filter_len cover_Cons)

text \<open>\<open>getFlagKeyMayDeleted\<close> never ends the program after a query: every query resets the
  counter that guards it.\<close>

theorem flag_usable_after_query:
  assumes "isEntryAlive b p level key s = Inr (a, s')"
  shows "getFlagKeyMayDeleted s' = Inr (flag_key_may_deleted s')"
  using assms
  by (auto simp: isEntryAlive_def counter_defs getFlagKeyMayDeleted_def checkProperUsageOfFlagKeyMayDeleted_def
      Let_def cxx_assert_Inr_iff split: if_splits)

theorem flag_usable_after_query_witness:
  "\<exists>a s'. isEntryAlive Debug True 1 5 sample_filter = Inr (a, s') \<and>
    getFlagKeyMayDeleted s' = Inr (flag_key_may_deleted s')"
proof -
  obtain s' where "isEntryAlive Debug True 1 5 sample_filter = Inr (5 \<notin> dead sample_filter 1, s')"
    using isEntryAlive_ok[OF sample_filter_inv, of 1 Debug True 5] by (auto simp: sample_filter_len)
  with flag_usable_after_query[OF this] show ?thesis by blast
qed

text \<open>\<open>gatherSortedRangeTombstonesAndRemoveRDF\<close> forgets deletes: a key of a range that overlaps
  a file boundary, but lies outside all boundaries, is neither gathered nor kept on the level,
  although the range is said to be fragmented there.\<close>

theorem gather_forgets_outside:
  assumes "0 < l" "l < length (rd_filter s)" "r \<in> set (rd_filter s ! l)" "overlaps_any bs r"
    "canonical (rd_filter s ! l)" "fst r \<le> k" "k < snd r" "k \<notin> cover bs"
    "gatherSortedRangeTombstonesAndRemoveRDF l fs bs [] s = (g, s')"
  shows "k \<notin> cover g \<and> k \<notin> cover (rd_filter s' ! l)"
proof -
  let ?rs = "rd_filter s ! l"
  have eq: "g = snd (gather_loop bs ?rs)" "rd_filter s' ! l = fst (gather_loop bs ?rs)"
    using assms(1,2,9) by (auto simp: gatherSortedRangeTombstonesAndRemoveRDF_def split: prod.splits)
  have "q = r" if "q \<in> set ?rs" "fst q \<le> k" "k < snd q" for q
  proof -
    have "snd a < fst b \<or> a = b \<or> snd b < fst a" if "a \<in> set ?rs" "b \<in> set ?rs" for a b
      using assms(5) that unfolding canonical_def by (auto simp: sorted_wrt_iff_nth_less in_set_conv_nth) (metis nat_neq_iff)
    then show ?thesis using that assms(3,6,7) by (meson le_less_trans less_asym' less_le_trans)
  qed
  then have "k \<notin> cover (fst (gather_loop bs ?rs))"
    using assms(4) by (auto simp: gather_loop_fst cover_def)
  then show ?thesis using assms(8) by (simp add: eq gather_loop_cover)
qed

theorem gather_forgets_outside_witness:
  "case gatherSortedRangeTombstonesAndRemoveRDF 1 [] [(2, 4)] [] sample_filter of
     (g, s') \<Rightarrow> 1 \<in> cover (rd_filter sample_filter ! 1) \<and> 1 \<notin> cover g \<and> 1 \<notin> cover (rd_filter s' ! 1)"
proof -
  obtain g s' where g: "gatherSortedRangeTombstonesAndRemoveRDF 1 [] [(2, 4)] [] sample_filter = (g, s')"
    by (metis prod.exhaust)
  have "1 \<notin> cover g \<and> 1 \<notin> cover (rd_filter s' ! 1)"
    by (rule gather_forgets_outside[OF _ _ _ _ _ _ _ _ g, of "(1, 5)"])
       (simp_all add: sample_filter_def plrdf_empty_def overlaps_any_def canonical_def cover_Cons)
  then show ?thesis using g by (simp add: sample_filter_def plrdf_empty_def cover_Cons)
qed

text \<open>C29: The public \<open>addRangeDelete(level, list)\<close> extends the levels without their split-key
  lists: a query on a level it created indexes \<open>split_keys\<close> out of range.\<close>

theorem public_addRangeDelete_breaks_query:
  assumes "length (split_keys s) = length (rd_filter s)" "length (rd_filter s) \<le> level"
    "by_start B" "nonempty_ranges B" "B \<noteq> []"
  shows "\<exists>s'. addRangeDelete level B s = Inr s' \<and> isEntryAlive b p level key s' = Inl Undefined_behaviour"
proof -
  obtain C where C: "addRangeDelete_list [] B = Inr C" "cover C = cover B" "canonical C"
    using addRangeDelete_list_ok[OF canonical_Nil assms(3,4)] by auto
  have "cover B \<noteq> {}" using assms(4,5) by (cases B) (auto simp: nonempty_ranges_Cons cover_Cons)
  then have "C \<noteq> []" using C(2) by auto
  have "addRangeDelete level B s = Inr (s\<lparr>rd_filter := (grow [] level (rd_filter s))[level := C]\<rparr>)"
    using C(1) assms(2) nth_grow[of level "[]" level "rd_filter s"] by (simp add: addRangeDelete_def Let_def)
  then show ?thesis
    using assms(1,2) \<open>C \<noteq> []\<close> by (simp add: isEntryAlive_def counter_defs Let_def cxx_assert_def)
qed

theorem public_addRangeDelete_breaks_query_witness:
  "\<exists>s'. addRangeDelete 2 [(1, 4)] sample_filter = Inr s' \<and>
     isEntryAlive Debug False 2 2 s' = Inl Undefined_behaviour"
  by (rule public_addRangeDelete_breaks_query)
     (simp_all add: sample_filter_def plrdf_empty_def by_start_def nonempty_ranges_def)

text \<open>The logged number of ranges is exact as long as it fits an \<open>int\<close>.\<close>

theorem getNumberOfTotalRanges_exact:
  assumes "sum_list (map length (rd_filter s)) < 2 ^ 31"
  shows "getNumberOfTotalRanges s = int (sum_list (map length (rd_filter s)))"
proof -
  have "foldl (\<lambda>num l. wrap32 (num + int (length l))) (wrap32 n) ls = wrap32 (n + int (sum_list (map length ls)))"
    for n and ls :: "'a range list list"
    by (induction ls arbitrary: n) (auto simp: wrap32_add add.assoc)
  from this[of 0 "rd_filter s"] show ?thesis
    using assms by (simp add: getNumberOfTotalRanges_def wrap32_id)
qed

theorem getNumberOfTotalRanges_exact_witness: "getNumberOfTotalRanges sample_filter = 2"
  using getNumberOfTotalRanges_exact[of sample_filter] by (simp add: sample_filter_def plrdf_empty_def)

end
