(* ===== verification/PLRDF_Runs.thy ===== *)
theory PLRDF_Runs
  imports PLRDF_Filter
begin

text \<open>
  The abstract specification of a per-level filter and its refinement. \<open>deletes\<close> is what a
  filter promises: for every level the set of deleted keys, for every file of level 0 the set of
  keys its tombstones delete, and the number of levels. \<open>filter_op\<close> lists the calls
  VersionRDFBundle and Version make, \<open>run_op\<close> executes one on the filter, \<open>spec_op\<close> on the
  specification; \<open>op_ok\<close> is what the callers guarantee. \<open>filter_step\<close> is the transition
  relation of the filter under these calls.
\<close>

section \<open>Specification\<close>

record 'k deletes =
  n_levels :: nat
  on_level :: "nat \<Rightarrow> 'k set"
  in_file :: "fd \<Rightarrow> 'k set"

definition abs_filter :: "('k::linorder, 'm) plrdf_scheme \<Rightarrow> 'k deletes" where
  "abs_filter s = \<lparr>n_levels = length (rd_filter s), on_level = dead s, in_file = dead_level0 s\<rparr>"

datatype 'k filter_op =
    Flush fd "'k range list" "fd list"
  | Shift "'k file_meta list" "'k range list"
  | Remove "int \<times> 'k range list \<times> fd list"
  | Split nat "'k list"
  | Delete_last nat
  | Ask nat 'k

fun run_op :: "build \<Rightarrow> bool \<Rightarrow> 'k::linorder filter_op \<Rightarrow> ('k, 'm) plrdf_scheme \<Rightarrow> ('k, 'm) plrdf_scheme result" where
  "run_op b p (Flush f rds exist) s = insertRangeDeleteToLevel0 f rds exist s"
| "run_op b p (Shift ms rds) s = shiftRDFToOutputLevel b ms rds s"
| "run_op b p (Remove m) s = deleteRDFAssociatedWithFilesAtCurrentLevel b m s"
| "run_op b p (Split l ks) s = splitRangesOnLevel l ks s"
| "run_op b p (Delete_last l) s = deleteLastLevelIfEqualsBottomLevel l s"
| "run_op b p (Ask l k) s = bind_res (isEntryAlive b p l k s) (\<lambda>(alive, s'). Inr s')"

fun op_ok :: "build \<Rightarrow> 'k::linorder filter_op \<Rightarrow> ('k, 'm) plrdf_scheme \<Rightarrow> bool" where
  "op_ok b (Flush f rds exist) s = (nonempty_ranges rds \<and> sorted exist \<and> f \<notin> set exist)"
| "op_ok b (Shift ms rds) s =
     (metas_ok ms \<and> ordered_ranges rds \<and>
      (ms \<noteq> [] \<longrightarrow> to_uint (fst (snd (hd ms))) \<le> length (rd_filter s) \<or> b = NDebug))"
| "op_ok b (Remove (l, rs, fs)) s =
     (if l = 0 then distinct fs \<and> (\<forall>f \<in> set fs. rd_filter_level0 s f \<noteq> None) else nonempty_ranges rs)"
| "op_ok b (Split l ks) s = sorted ks"
| "op_ok b (Delete_last l) s = True"
| "op_ok b (Ask l k) s = (l < length (rd_filter s))"

fun spec_op :: "'k::linorder filter_op \<Rightarrow> 'k deletes \<Rightarrow> 'k deletes" where
  "spec_op (Flush f rds exist) d = d\<lparr>in_file := (in_file d)(f := cover rds)\<rparr>"
| "spec_op (Shift ms rds) d =
     d\<lparr>n_levels := levels_after_shift ms rds (n_levels d),
       on_level := after_shift ms rds (on_level d),
       in_file := (\<lambda>f. if f \<in> files_of_level0 ms then {} else in_file d f)\<rparr>"
| "spec_op (Remove (l, rs, fs)) d =
     (if l = 0 then d\<lparr>in_file := (\<lambda>f. if f \<in> set fs then {} else in_file d f)\<rparr>
      else d\<lparr>on_level := (on_level d)(to_uint l := on_level d (to_uint l) - cover rs)\<rparr>)"
| "spec_op (Split l ks) d = d\<lparr>on_level := (on_level d)(l := on_level d l - set ks)\<rparr>"
| "spec_op (Delete_last l) d =
     (if n_levels d = l + 1 then d\<lparr>on_level := (on_level d)(l := {})\<rparr> else d)"
| "spec_op (Ask l k) d = d"

lemma abs_filter_eqI:
  "length (rd_filter s') = n_levels d \<Longrightarrow> dead s' = on_level d \<Longrightarrow> dead_level0 s' = in_file d \<Longrightarrow> abs_filter s' = d"
  by (simp add: abs_filter_def)

section \<open>Every call refines the specification\<close>

lemma Remove_ok:
  assumes "plrdf_inv s" "op_ok b (Remove (l, rs, fs)) s"
  shows "\<exists>s'. run_op b p (Remove (l, rs, fs)) s = Inr s' \<and> plrdf_inv s' \<and>
    abs_filter s' = spec_op (Remove (l, rs, fs)) (abs_filter s)"
proof (cases "l = 0")
  case True
  then have d: "set fs \<subseteq> dom (rd_filter_level0 s)" "distinct fs" using assms(2) by auto
  obtain s' where "fold_res (delete_level0_file b) fs s = Inr s'" "plrdf_inv s'" "dead s' = dead s"
    "\<forall>f. dead_level0 s' f = (if f \<in> set fs then {} else dead_level0 s f)" "rd_filter s' = rd_filter s"
    using delete_level0_ok[OF assms(1) d] by blast
  then show ?thesis using True
    by (auto simp: deleteRDFAssociatedWithFilesAtCurrentLevel_def abs_filter_def fun_eq_iff)
next
  case False
  then show ?thesis using deleteRDF_level_ok[OF assms(1), of rs l b fs] assms(2)
    by (auto simp: abs_filter_def)
qed

lemma run_op_refines:
  assumes "plrdf_inv s" "op_ok b oper s"
  shows "\<exists>s'. run_op b p oper s = Inr s' \<and> plrdf_inv s' \<and> abs_filter s' = spec_op oper (abs_filter s)"
proof (cases oper)
  case (Flush f rds exist)
  then show ?thesis using insertRangeDeleteToLevel0_ok[OF assms(1), of rds exist f] assms(2)
    by (auto simp: abs_filter_def)
next
  case (Shift ms rds)
  then show ?thesis using shiftRDFToOutputLevel_ok[OF assms(1), of ms rds b] assms(2)
    by (auto simp: abs_filter_def fun_eq_iff)
next
  case (Remove m)
  then show ?thesis using Remove_ok[OF assms(1)] assms(2) by (metis prod_cases3)
next
  case (Split l ks)
  then show ?thesis using splitRangesOnLevel_ok[OF assms(1), of ks l] assms(2) by (auto simp: abs_filter_def)
next
  case (Delete_last l)
  then show ?thesis using deleteLastLevel_ok[OF assms(1), of l] by (auto simp: abs_filter_def)
next
  case (Ask l k)
  obtain s' where s': "isEntryAlive b p l k s = Inr (k \<notin> dead s l, s')"
    "s' = query_counted s \<or> s' = setFlagKeyMayDeleted (query_counted s)"
    using isEntryAlive_ok[OF assms(1), of l b p k] Ask assms(2) by auto
  then have f: "rd_filter s' = rd_filter s" "split_keys s' = split_keys s" "rd_filter_level0 s' = rd_filter_level0 s"
    by auto
  then show ?thesis using s'(1) plrdf_inv_cong[OF f] Ask assms(1) by (simp add: abs_filter_def)
qed

section \<open>Runs\<close>

inductive filter_step :: "build \<Rightarrow> bool \<Rightarrow> ('k::linorder, 'm) plrdf_scheme \<Rightarrow> ('k, 'm) plrdf_scheme \<Rightarrow> bool"
  for b p where
  step: "op_ok b oper s \<Longrightarrow> run_op b p oper s = Inr s' \<Longrightarrow> filter_step b p s s'"

inductive filter_run ::
  "build \<Rightarrow> bool \<Rightarrow> ('k::linorder, 'm) plrdf_scheme \<Rightarrow> 'k filter_op list \<Rightarrow> ('k, 'm) plrdf_scheme \<Rightarrow> bool"
  for b p s0 where
  start: "filter_run b p s0 [] s0"
| snoc: "filter_run b p s0 ops s \<Longrightarrow> op_ok b oper s \<Longrightarrow> run_op b p oper s = Inr s' \<Longrightarrow>
    filter_run b p s0 (ops @ [oper]) s'"

inductive_cases filter_stepE: "filter_step b p s s'"

inductive_simps filter_step_iff: "filter_step b p s s'"

lemma filter_step_inv: "filter_step b p s s' \<Longrightarrow> plrdf_inv s \<Longrightarrow> plrdf_inv s'"
  by (elim filter_stepE) (metis run_op_refines Inr_inject)

lemma filter_steps_inv: "(filter_step b p)\<^sup>*\<^sup>* s s' \<Longrightarrow> plrdf_inv s \<Longrightarrow> plrdf_inv s'"
  by (induction rule: rtranclp_induct) (auto dest: filter_step_inv)

lemma filter_run_refines:
  "filter_run b p s0 ops s \<Longrightarrow> plrdf_inv s0 \<Longrightarrow>
   plrdf_inv s \<and> abs_filter s = fold spec_op ops (abs_filter s0)"
proof (induction rule: filter_run.induct)
  case (snoc ops s oper s')
  then have "plrdf_inv s" and abs: "abs_filter s = fold spec_op ops (abs_filter s0)" by auto
  then obtain s'' where "run_op b p oper s = Inr s''" "plrdf_inv s''" "abs_filter s'' = spec_op oper (abs_filter s)"
    using run_op_refines snoc.hyps(2) by blast
  then show ?case using snoc.hyps(3) abs by auto
qed simp

lemma filter_run_answers:
  assumes "filter_run b p s0 ops s" "plrdf_inv s0" "l < length (rd_filter s)"
  shows "\<exists>s'. isEntryAlive b p l k s = Inr (k \<notin> on_level (fold spec_op ops (abs_filter s0)) l, s')"
proof -
  have inv: "plrdf_inv s" and abs: "abs_filter s = fold spec_op ops (abs_filter s0)"
    using filter_run_refines[OF assms(1,2)] by auto
  have "dead s = on_level (fold spec_op ops (abs_filter s0))"
    using abs by (metis abs_filter_def deletes.select_convs(2))
  then show ?thesis using isEntryAlive_ok[OF inv assms(3), of b p k] by auto
qed

section \<open>Properties\<close>

text \<open>C5: Refinement. On a filter that meets its invariant every call the callers may make (flush,
  compaction, direct removal, splitting, clearing the bottom level, a query) returns, keeps the
  invariant, and changes the deleted keys exactly as the specification says.\<close>

theorem filter_refines_spec:
  assumes "plrdf_inv s" "op_ok b oper s"
  shows "\<exists>s'. run_op b p oper s = Inr s' \<and> plrdf_inv s' \<and> abs_filter s' = spec_op oper (abs_filter s)"
  using run_op_refines[OF assms] .

theorem filter_refines_spec_witness:
  "\<exists>s'. run_op Debug False (Shift [(1, 2, [(4, 9)], [])] [(4, 5), (8, 9)]) sample_filter = Inr s' \<and> plrdf_inv s' \<and>
    abs_filter s' = spec_op (Shift [(1, 2, [(4, 9)], [])] [(4, 5), (8, 9)]) (abs_filter sample_filter)"
  by (rule filter_refines_spec[OF sample_filter_inv])
     (simp add: metas_ok_def nonempty_ranges_def ordered_ranges_def sample_filter_len to_uint_def)

text \<open>C6: After any history of calls on an empty filter the invariant holds and a query answers
  ``deleted'' exactly for the keys the history of calls deletes on that level according to the
  specification.\<close>

theorem filter_history_answers:
  assumes "filter_run b p plrdf_empty ops s" "l < length (rd_filter s)"
  shows "plrdf_inv s \<and>
    (\<exists>s'. isEntryAlive b p l k s = Inr (k \<notin> on_level (fold spec_op ops (abs_filter plrdf_empty)) l, s'))"
  using filter_run_refines[OF assms(1) plrdf_inv_empty] filter_run_answers[OF assms(1) plrdf_inv_empty assms(2)]
  by blast

theorem filter_history_answers_witness:
  "\<exists>s s'. filter_run NDebug False plrdf_empty [Shift [(0, 1, [], [])] [(4::int, 9)]] s \<and>
     isEntryAlive NDebug False 1 7 s = Inr (False, s')"
proof -
  let ?op = "Shift [(0, 1, [], [])] [(4::int, 9)]"
  let ?s = "plrdf_empty\<lparr>rd_filter := [[], [(4::int, 9)]], split_keys := [[], []]\<rparr>"
  have run: "run_op NDebug False ?op plrdf_empty = Inr ?s"
    by (simp add: shiftRDFToOutputLevel_def shift_one_def removeRangeDeletesFromLevel0_def
        addRangeDelete_internal_def purge_key_on_level_def addRangeDelete_list_def add_loop.simps
        plrdf_empty_def to_uint_def sortAndMerge_def Let_def numeral_2_eq_2)
  have "filter_run NDebug False plrdf_empty ([] @ [?op]) ?s"
    by (rule filter_run.snoc[OF filter_run.start _ run])
       (simp add: metas_ok_def nonempty_ranges_def ordered_ranges_def)
  then have r: "filter_run NDebug False plrdf_empty [?op] ?s" by simp
  from filter_history_answers[OF r, of 1 7] show ?thesis
    using r by (auto simp: abs_filter_def after_shift_def cover_Cons to_uint_def)
qed

end
