(* ===== verification/PLRDF_Tracing.thy ===== *)
theory PLRDF_Tracing
  imports PLRDF_Filter
begin

text \<open>
  The tracing side of \<open>PLRDF_t\<close> (include/rocksdb/sys_rdfilter.h): next to the filter of a
  level, the range tombstones of every file of the level. \<open>traced\<close> is the abstraction, the
  list recorded for a file; insertion and removal make it a table (locale \<open>file_table\<close>),
  \<open>gatherTracingRangesAndRemove\<close> takes the tombstones of the input files of a compaction out of
  it and \<open>shiftTracingToOutputLevel\<close> hands every output file exactly its part of the merged
  tombstones.
\<close>

section \<open>Operations\<close>

definition insertTracingRangesAtLevelOfFd ::
  "nat \<Rightarrow> fd \<Rightarrow> 'k range list \<Rightarrow> ('k, 'm) plrdf_scheme \<Rightarrow> ('k, 'm) plrdf_scheme" where
  "insertTracingRangesAtLevelOfFd level fd ranges s =
     (if ranges = [] then s
      else if level = 0 then
        s\<lparr>tracing_rd_filter_level0 := (tracing_rd_filter_level0 s)(fd \<mapsto> ranges)\<rparr>
      else let t = grow [] level (tracing_level_file_rd_filter s)
           in s\<lparr>tracing_level_file_rd_filter := t[level := smap_put fd ranges (t ! level)]\<rparr>)"

definition removeTracingRangesAtLevelOfFd ::
  "nat \<Rightarrow> fd \<Rightarrow> ('k, 'm) plrdf_scheme \<Rightarrow> ('k, 'm) plrdf_scheme" where
  "removeTracingRangesAtLevelOfFd level fd s =
     (if level = 0 then
        s\<lparr>tracing_rd_filter_level0 := (tracing_rd_filter_level0 s)(fd := None)\<rparr>
      else if level < length (tracing_level_file_rd_filter s) then
        s\<lparr>tracing_level_file_rd_filter := (tracing_level_file_rd_filter s)[level :=
            smap_erase fd (tracing_level_file_rd_filter s ! level)]\<rparr>
      else s)"

text \<open>The body of the inner loop of \<open>gatherTracingRangesAndRemove\<close>, for one file.\<close>

definition gather_file ::
  "nat \<Rightarrow> fd \<Rightarrow> 'k range list \<times> ('k, 'm) plrdf_scheme \<Rightarrow> 'k range list \<times> ('k, 'm) plrdf_scheme" where
  "gather_file level fd acc =
     (let (agg, s) = acc;
          (agg, s) = (if level = 0 then
                        (case tracing_rd_filter_level0 s fd of
                           None \<Rightarrow> (agg, s)
                         | Some rds \<Rightarrow> (agg @ rds,
                             s\<lparr>tracing_rd_filter_level0 := (tracing_rd_filter_level0 s)(fd := None)\<rparr>))
                      else (agg, s))
      in if level < length (tracing_level_file_rd_filter s) then
           (case map_of (tracing_level_file_rd_filter s ! level) fd of
              None \<Rightarrow> (agg, s)
            | Some rds \<Rightarrow> (agg @ rds,
                s\<lparr>tracing_level_file_rd_filter := (tracing_level_file_rd_filter s)[level :=
                    smap_erase fd (tracing_level_file_rd_filter s ! level)]\<rparr>))
         else (agg, s))"

definition gatherTracingRangesAndRemove ::
  "build \<Rightarrow> nat list \<Rightarrow> fd list list \<Rightarrow> ('k::linorder, 'm) plrdf_scheme \<Rightarrow>
   ('k range list \<times> ('k, 'm) plrdf_scheme) result" where
  "gatherTracingRangesAndRemove b src_level_list src_fd_list2d s =
     cxx_assert b (length src_level_list = length src_fd_list2d)
       (if length src_fd_list2d < length src_level_list then Inl Undefined_behaviour
        else let (agg, s') = fold (\<lambda>(level, fds). fold (gather_file level) fds)
                               (zip src_level_list src_fd_list2d) ([], s)
             in Inr (sortAndMerge agg, s'))"

text \<open>The second inner loop of \<open>shiftTracingToOutputLevel\<close>: the clipped ranges and the ranges
  from \<open>i_rd\<close> on.\<close>

fun clip_loop :: "'k::linorder range list \<Rightarrow> 'k range \<Rightarrow> 'k range list \<times> 'k range list" where
  "clip_loop [] file_boundary = ([], [])"
| "clip_loop (r # rd_merged) file_boundary =
     (if fst r < snd file_boundary then
        let range_in = (max (fst r) (fst file_boundary), min (snd r) (snd file_boundary))
        in if snd r > snd file_boundary then ([range_in], r # rd_merged)
           else let (ranges_to_insert, rest) = clip_loop rd_merged file_boundary
                in (range_in # ranges_to_insert, rest)
      else ([], r # rd_merged))"

fun shift_tracing_loop ::
  "nat \<Rightarrow> 'k::linorder range list \<Rightarrow> fd list \<Rightarrow> 'k range list \<Rightarrow> ('k, 'm) plrdf_scheme \<Rightarrow>
   ('k, 'm) plrdf_scheme result" where
  "shift_tracing_loop dst_level rd_merged [] boundaries s = Inr s"
| "shift_tracing_loop dst_level rd_merged (dst_fd # dst_fd_list) boundaries s =
     (if rd_merged = [] then Inr s
      else case boundaries of
        [] \<Rightarrow> Inl Undefined_behaviour
      | file_boundary # boundaries' \<Rightarrow>
          if fst file_boundary = snd file_boundary
          then shift_tracing_loop dst_level rd_merged dst_fd_list boundaries' s
          else let (ranges_to_insert, rest) =
                     clip_loop (dropWhile (\<lambda>r. snd r \<le> fst file_boundary) rd_merged) file_boundary
               in shift_tracing_loop dst_level rest dst_fd_list boundaries'
                    (if ranges_to_insert \<noteq> []
                     then insertTracingRangesAtLevelOfFd dst_level dst_fd ranges_to_insert s else s))"

definition shiftTracingToOutputLevel ::
  "build \<Rightarrow> 'k::linorder range list \<Rightarrow> nat \<Rightarrow> fd list \<Rightarrow> 'k range list \<Rightarrow> ('k, 'm) plrdf_scheme \<Rightarrow>
   ('k, 'm) plrdf_scheme result" where
  "shiftTracingToOutputLevel b rd_merged dst_level dst_fd_list file_boundary_list s =
     (if rd_merged = [] then Inr s
      else cxx_assert b (length dst_fd_list = length file_boundary_list)
             (shift_tracing_loop dst_level rd_merged dst_fd_list file_boundary_list s))"

definition setTracingForFile ::
  "nat \<Rightarrow> fd \<Rightarrow> 'k range list \<Rightarrow> ('k, 'm) plrdf_scheme \<Rightarrow> ('k, 'm) plrdf_scheme" where
  "setTracingForFile level fd ranges s =
     (let t = grow [] level (tracing_level_file_rd_filter s)
      in s\<lparr>tracing_level_file_rd_filter := t[level := smap_put fd ranges (t ! level)]\<rparr>)"

definition removeTracingForFile :: "nat \<Rightarrow> fd \<Rightarrow> ('k, 'm) plrdf_scheme \<Rightarrow> ('k, 'm) plrdf_scheme" where
  "removeTracingForFile level fd s =
     (if level < length (tracing_level_file_rd_filter s) then
        s\<lparr>tracing_level_file_rd_filter := (tracing_level_file_rd_filter s)[level :=
            smap_erase fd (tracing_level_file_rd_filter s ! level)]\<rparr>
      else s)"

definition getAllFileRangeTombstones :: "nat \<Rightarrow> ('k::linorder, 'm) plrdf_scheme \<Rightarrow> 'k range list" where
  "getAllFileRangeTombstones level s =
     (if level \<ge> length (tracing_level_file_rd_filter s) then []
      else sortAndMerge (foldl (\<lambda>all_ranges entry. all_ranges @ snd entry) []
             (tracing_level_file_rd_filter s ! level)))"

text \<open>\<open>checkTracingConsistency\<close> only prints; its value here is \<open>flag_inconsistency\<close>, which
  decides what it prints.\<close>

definition checkTracingConsistency :: "nat \<Rightarrow> ('k::linorder, 'm) plrdf_scheme \<Rightarrow> bool" where
  "checkTracingConsistency level s =
     (if level \<ge> length (rd_filter s) then False
      else let actual = rd_filter s ! level;
               traced = getAllFileRangeTombstones level s
           in length actual \<noteq> length traced \<or>
              (\<exists>i \<in> set [0..<min (length actual) (length traced)]. actual ! i \<noteq> traced ! i))"

text \<open>The test both branches of \<open>isEntryAliveWithTracingAtLevelOfFd\<close> end with: whether the list
  of the file covers the key.\<close>

definition list_deletes :: "'k::linorder range list \<Rightarrow> 'k \<Rightarrow> bool" where
  "list_deletes rdList key =
     (let i = upper_bound (\<lambda>a. key < fst a) rdList;
          it = (if i \<noteq> 0 then i - 1 else i)
      in it < length rdList \<and> key \<ge> fst (rdList ! it) \<and> key < snd (rdList ! it))"

definition isEntryAliveWithTracingAtLevelOfFd ::
  "nat \<Rightarrow> fd \<Rightarrow> 'k::linorder \<Rightarrow> ('k, 'm) plrdf_scheme \<Rightarrow> bool" where
  "isEntryAliveWithTracingAtLevelOfFd level fd key s =
     (if level = 0 then
        (case tracing_rd_filter_level0 s fd of
           Some rdList \<Rightarrow> if list_deletes rdList key then False else True
         | None \<Rightarrow> True)
      else if level < length (tracing_level_file_rd_filter s) then
        (case map_of (tracing_level_file_rd_filter s ! level) fd of
           Some rdList \<Rightarrow> if list_deletes rdList key then False else True
         | None \<Rightarrow> True)
      else True)"

section \<open>The table of the files\<close>

definition traced :: "('k, 'm) plrdf_scheme \<Rightarrow> nat \<Rightarrow> fd \<Rightarrow> 'k range list" where
  "traced s level fd =
     (if level = 0 then (case tracing_rd_filter_level0 s fd of Some rs \<Rightarrow> rs | None \<Rightarrow> [])
      else if level < length (tracing_level_file_rd_filter s)
      then (case map_of (tracing_level_file_rd_filter s ! level) fd of Some rs \<Rightarrow> rs | None \<Rightarrow> [])
      else [])"

locale file_table =
  fixes look :: "'s \<Rightarrow> nat \<Rightarrow> fd \<Rightarrow> 'v list"
    and ins :: "nat \<Rightarrow> fd \<Rightarrow> 'v list \<Rightarrow> 's \<Rightarrow> 's"
    and rem :: "nat \<Rightarrow> fd \<Rightarrow> 's \<Rightarrow> 's"
  assumes look_ins: "v \<noteq> [] \<Longrightarrow> look (ins l f v s) = (look s)(l := (look s l)(f := v))"
    and look_rem: "look (rem l f s) = (look s)(l := (look s l)(f := []))"
begin

lemma look_fold_ins:
  "distinct (map fst fvs) \<Longrightarrow>
   look (fold (\<lambda>(f, v) s. if v \<noteq> [] then ins l f v s else s) fvs s) l' f' =
     (case map_of fvs f' of Some v \<Rightarrow> if l' = l \<and> v \<noteq> [] then v else look s l' f' | None \<Rightarrow> look s l' f')"
proof (induction fvs arbitrary: s)
  case (Cons fv fvs)
  obtain f v where fv: "fv = (f, v)" by (cases fv)
  have "map_of fvs f = None" using Cons.prems fv by (simp add: map_of_eq_None_iff)
  then show ?case using Cons fv by (cases "f' = f") (simp_all add: look_ins split: option.split)
qed simp

lemma look_ins_rem: "v \<noteq> [] \<Longrightarrow> look s l f = [] \<Longrightarrow> look (rem l f (ins l f v s)) = look s"
  by (auto simp: look_ins look_rem fun_eq_iff)

lemma look_fold_rem:
  "look (fold (rem l) fs s) l' f' = (if l' = l \<and> f' \<in> set fs then [] else look s l' f')"
  by (induction fs arbitrary: s) (auto simp: look_rem)

end

interpretation tracing: file_table traced insertTracingRangesAtLevelOfFd removeTracingRangesAtLevelOfFd
proof (unfold_locales, goal_cases)
  case (1 v l f s)
  then show ?case
    by (auto simp: traced_def insertTracingRangesAtLevelOfFd_def Let_def fun_eq_iff nth_list_update nth_grow
        split: option.splits)
next
  case (2 l f s)
  then show ?case
    by (auto simp: traced_def removeTracingRangesAtLevelOfFd_def fun_eq_iff nth_list_update
        split: option.splits)
qed

section \<open>Gathering the tombstones of the input files\<close>

definition file_map_ok :: "(fd \<times> 'k::linorder range list) list \<Rightarrow> bool" where
  "file_map_ok m \<longleftrightarrow> smap_ok m \<and> (\<forall>e \<in> set m. canonical (snd e))"

lemma file_map_ok_Nil [simp]: "file_map_ok []"
  by (simp add: file_map_ok_def)

lemma file_map_ok_put: "file_map_ok m \<Longrightarrow> canonical rs \<Longrightarrow> file_map_ok (smap_put f rs m)"
  using set_smap_put_subset[of f rs m] by (fastforce simp: file_map_ok_def)

lemma file_map_ok_erase: "file_map_ok m \<Longrightarrow> file_map_ok (smap_erase f m)"
  using smap_ok_erase[of m f] by (auto simp: file_map_ok_def smap_erase_def)

lemma file_map_ok_lookup: "file_map_ok m \<Longrightarrow> map_of m f = Some rs \<Longrightarrow> canonical rs"
  by (auto simp: file_map_ok_def dest!: map_of_SomeD)

text \<open>The slot of level 0 in \<open>tracing_level_file_rd_filter\<close> is never filled: level 0 has its own
  map.\<close>

definition trace_inv :: "('k::linorder, 'm) plrdf_scheme \<Rightarrow> bool" where
  "trace_inv s \<longleftrightarrow>
     (\<forall>rs \<in> ran (tracing_rd_filter_level0 s). canonical rs) \<and>
     (\<forall>m \<in> set (tracing_level_file_rd_filter s). file_map_ok m) \<and>
     (tracing_level_file_rd_filter s \<noteq> [] \<longrightarrow> hd (tracing_level_file_rd_filter s) = [])"

lemma trace_inv_empty: "trace_inv plrdf_empty"
  by (simp add: trace_inv_def plrdf_empty_def)

lemma trace_inv_traced: "trace_inv s \<Longrightarrow> canonical (traced s l f)"
  by (auto simp: trace_inv_def traced_def ran_def intro: file_map_ok_lookup split: option.splits)

lemma hd_list_update: "0 < i \<Longrightarrow> hd (xs[i := x]) = hd xs"
  by (cases xs; cases i) auto

lemma trace_inv_update:
  assumes "trace_inv s" "\<forall>m \<in> set t. file_map_ok m" "t \<noteq> [] \<longrightarrow> hd t = []" "file_map_ok m"
    and "l = 0 \<longrightarrow> m = []"
  shows "trace_inv (s\<lparr>tracing_level_file_rd_filter := t[l := m]\<rparr>)"
proof -
  have "\<forall>m' \<in> set (t[l := m]). file_map_ok m'"
    using set_update_subset_insert[of t l m] assms(2,4) by blast
  moreover have "hd (t[l := m]) = []" if "t \<noteq> []"
    using assms(3,5) that hd_list_update[of l t m] by (cases "l = 0"; cases t) auto
  ultimately show ?thesis using assms(1) by (simp add: trace_inv_def)
qed

lemma trace_inv_insert:
  assumes "trace_inv s" "canonical rs"
  shows "trace_inv (insertTracingRangesAtLevelOfFd l f rs s)"
proof (cases "l = 0 \<or> rs = []")
  case True
  then show ?thesis using assms by (auto simp: insertTracingRangesAtLevelOfFd_def trace_inv_def ran_def)
next
  case False
  let ?t = "grow [] l (tracing_level_file_rd_filter s)"
  have mem: "\<forall>m \<in> set ?t. file_map_ok m"
    using set_grow[of "[]" l "tracing_level_file_rd_filter s"] assms(1) file_map_ok_Nil
    unfolding trace_inv_def by blast
  have "?t ! l \<in> set ?t" by (rule nth_mem) simp
  then have "file_map_ok (smap_put f rs (?t ! l))" using mem file_map_ok_put assms(2) by blast
  moreover have "hd ?t = []"
    using assms(1) by (cases "tracing_level_file_rd_filter s") (auto simp: trace_inv_def grow_def)
  ultimately show ?thesis
    using trace_inv_update[OF assms(1) mem, of "smap_put f rs (?t ! l)" l] False
    by (simp add: insertTracingRangesAtLevelOfFd_def Let_def)
qed

lemma trace_inv_level0: "trace_inv s \<Longrightarrow> 0 < length (tracing_level_file_rd_filter s) \<Longrightarrow>
    tracing_level_file_rd_filter s ! 0 = []"
  by (auto simp: trace_inv_def hd_conv_nth)

lemma trace_inv_remove:
  assumes "trace_inv s"
  shows "trace_inv (removeTracingRangesAtLevelOfFd l f s)"
proof (cases "l = 0 \<or> length (tracing_level_file_rd_filter s) \<le> l")
  case True
  then show ?thesis using assms by (auto simp: removeTracingRangesAtLevelOfFd_def trace_inv_def ran_def)
next
  case False
  let ?t = "tracing_level_file_rd_filter s"
  have "?t ! l \<in> set ?t" using False by simp
  then have "file_map_ok (smap_erase f (?t ! l))"
    using assms file_map_ok_erase unfolding trace_inv_def by blast
  then show ?thesis
    using trace_inv_update[OF assms, of ?t "smap_erase f (?t ! l)" l] False assms
    by (simp add: removeTracingRangesAtLevelOfFd_def trace_inv_def)
qed

text \<open>Tracing never touches the filter itself.\<close>

definition same_filter :: "('k, 'm) plrdf_scheme \<Rightarrow> ('k, 'm) plrdf_scheme \<Rightarrow> bool" where
  "same_filter s s' \<longleftrightarrow> rd_filter s' = rd_filter s \<and> split_keys s' = split_keys s \<and>
     rd_filter_level0 s' = rd_filter_level0 s"

lemma same_filter_refl [simp]: "same_filter s s"
  by (simp add: same_filter_def)

lemma same_filter_trans: "same_filter s s' \<Longrightarrow> same_filter s' s'' \<Longrightarrow> same_filter s s''"
  by (simp add: same_filter_def)

lemma same_filter_inv: "same_filter s s' \<Longrightarrow> plrdf_inv s' = plrdf_inv s \<and> dead s' = dead s \<and> dead_level0 s' = dead_level0 s"
  unfolding same_filter_def using plrdf_inv_cong[of s' s] by blast

lemma same_filter_insert [simp]: "same_filter s (insertTracingRangesAtLevelOfFd l f rs s)"
  by (simp add: same_filter_def insertTracingRangesAtLevelOfFd_def Let_def)

lemma same_filter_remove [simp]: "same_filter s (removeTracingRangesAtLevelOfFd l f s)"
  by (simp add: same_filter_def removeTracingRangesAtLevelOfFd_def)

text \<open>\<open>gathered D s s' agg\<close>: the tombstones of the files \<open>D\<close> were moved from the table of
  \<open>s\<close> to \<open>agg\<close>.\<close>

definition gathered :: "(nat \<times> fd) set \<Rightarrow> ('k::linorder, 'm) plrdf_scheme \<Rightarrow> ('k, 'm) plrdf_scheme \<Rightarrow>
    'k range list \<Rightarrow> bool" where
  "gathered D s s' agg \<longleftrightarrow> trace_inv s' \<and> same_filter s s' \<and>
     (\<forall>l f. traced s' l f = (if (l, f) \<in> D then [] else traced s l f)) \<and>
     cover agg = (\<Union>p \<in> D. cover (traced s (fst p) (snd p))) \<and> nonempty_ranges agg"

lemma gathered_Nil: "trace_inv s \<Longrightarrow> gathered {} s s []"
  by (simp add: gathered_def nonempty_ranges_def)

lemma gathered_trans:
  assumes "gathered D s s1 a1" "gathered E s1 s2 a2"
  shows "gathered (D \<union> E) s s2 (a1 @ a2)"
proof -
  let ?C = "\<lambda>p. cover (traced s (fst p) (snd p))"
  have "cover (traced s1 (fst p) (snd p)) = (if p \<in> D then {} else ?C p)" for p
    using assms(1) by (simp add: gathered_def)
  then have "cover a2 = (\<Union>p \<in> E. if p \<in> D then {} else ?C p)" using assms(2) by (simp add: gathered_def)
  moreover have "cover a1 = (\<Union>p \<in> D. ?C p)" using assms(1) by (simp add: gathered_def)
  moreover have "(\<Union>p \<in> D. ?C p) \<union> (\<Union>p \<in> E. if p \<in> D then {} else ?C p) = (\<Union>p \<in> D \<union> E. ?C p)"
    by (auto split: if_splits) 
  ultimately have "cover (a1 @ a2) = (\<Union>p \<in> D \<union> E. ?C p)" by (simp add: cover_append)
  then show ?thesis using assms same_filter_trans[of s s1 s2]
    by (auto simp: gathered_def nonempty_ranges_append)
qed

lemma gather_file_ok:
  assumes "trace_inv s"
  shows "\<exists>s'. gather_file l f (agg, s) = (agg @ traced s l f, s') \<and> gathered {(l, f)} s s' (traced s l f)"
proof -
  have "\<exists>s'. gather_file l f (agg, s) = (agg @ traced s l f, s') \<and>
      (s' = removeTracingRangesAtLevelOfFd l f s \<or> s' = s \<and> traced s l f = [])"
    using trace_inv_level0[OF assms]
    by (cases "l = 0")
       (auto simp: gather_file_def traced_def removeTracingRangesAtLevelOfFd_def split: option.splits)
  then show ?thesis
    using assms trace_inv_remove[OF assms] canonical_nonempty[OF trace_inv_traced[OF assms]]
    by (auto simp: tracing.look_rem gathered_def)
qed

lemma gather_files_ok:
  assumes "trace_inv s"
  shows "\<exists>s' agg'. fold (gather_file l) fs (agg, s) = (agg @ agg', s') \<and> gathered (Pair l ` set fs) s s' agg'"
  using assms
proof (induction fs arbitrary: s agg)
  case Nil
  then show ?case using gathered_Nil by auto
next
  case (Cons f fs)
  obtain s1 where s1: "gather_file l f (agg, s) = (agg @ traced s l f, s1)" "gathered {(l, f)} s s1 (traced s l f)"
    using gather_file_ok[OF Cons.prems] by blast
  then have "trace_inv s1" by (simp add: gathered_def)
  from Cons.IH[OF this, of "agg @ traced s l f"]
  obtain s2 a2 where s2: "fold (gather_file l) fs (agg @ traced s l f, s1) = ((agg @ traced s l f) @ a2, s2)"
    "gathered (Pair l ` set fs) s1 s2 a2" by blast
  show ?case using s1(1) s2(1) gathered_trans[OF s1(2) s2(2)] by (auto simp: insert_is_Un[symmetric])
qed

lemma gather_levels_ok:
  assumes "trace_inv s"
  shows "\<exists>s' agg'. fold (\<lambda>(level, fds). fold (gather_file level) fds) ps (agg, s) = (agg @ agg', s') \<and>
    gathered (\<Union>p \<in> set ps. Pair (fst p) ` set (snd p)) s s' agg'"
  using assms
proof (induction ps arbitrary: s agg)
  case Nil
  then show ?case using gathered_Nil by auto
next
  case (Cons p ps)
  from gather_files_ok[OF Cons.prems, of "fst p" "snd p" agg]
  obtain s1 a1 where s1: "fold (gather_file (fst p)) (snd p) (agg, s) = (agg @ a1, s1)"
    "gathered (Pair (fst p) ` set (snd p)) s s1 a1" by blast
  then have "trace_inv s1" by (simp add: gathered_def)
  from Cons.IH[OF this, of "agg @ a1"]
  obtain s2 a2 where s2: "fold (\<lambda>(level, fds). fold (gather_file level) fds) ps (agg @ a1, s1) = ((agg @ a1) @ a2, s2)"
    "gathered (\<Union>p \<in> set ps. Pair (fst p) ` set (snd p)) s1 s2 a2" by blast
  show ?case using s1(1) s2(1) gathered_trans[OF s1(2) s2(2)] by (cases p) auto
qed

lemma gatherTracing_ok:
  assumes "trace_inv s" "length levels = length fds"
  shows "\<exists>rds s'. gatherTracingRangesAndRemove b levels fds s = Inr (rds, s') \<and> canonical rds \<and>
    gathered (listed levels fds) s s' rds"
proof -
  from gather_levels_ok[OF assms(1), of "zip levels fds" "[]"]
  obtain s' agg where g: "fold (\<lambda>(level, fds). fold (gather_file level) fds) (zip levels fds) ([], s) = (agg, s')"
    "gathered (listed levels fds) s s' agg" by (auto simp: listed_def)
  then have "canonical (sortAndMerge agg)" using canonical_sortAndMerge by (auto simp: gathered_def)
  moreover from this have "gathered (listed levels fds) s s' (sortAndMerge agg)"
    using g(2) by (simp add: gathered_def cover_simps canonical_nonempty)
  ultimately show ?thesis using g(1) assms(2) by (simp add: gatherTracingRangesAndRemove_def)
qed

section \<open>Handing the merged tombstones to the output files\<close>

lemma clip_loop_ok:
  assumes "canonical rs" "lo < hi" "\<forall>r \<in> set rs. lo < snd r" "clip_loop rs (lo, hi) = (ins, rest)"
  shows "canonical ins" "cover ins = cover rs \<inter> {lo..<hi}" "canonical rest"
    "cover rest \<inter> {hi..} = cover rs \<inter> {hi..}" "\<forall>q \<in> set ins. \<exists>r \<in> set rs. fst r \<le> fst q"
proof -
  have "canonical ins \<and> cover ins = cover rs \<inter> {lo..<hi} \<and> canonical rest \<and>
    cover rest \<inter> {hi..} = cover rs \<inter> {hi..} \<and> (\<forall>q \<in> set ins. \<exists>r \<in> set rs. fst r \<le> fst q)"
    using assms
  proof (induction rs arbitrary: ins rest)
    case (Cons r rs)
    have r: "fst r < snd r" "canonical rs" "\<forall>q \<in> set rs. snd r < fst q" "lo < snd r"
      using Cons.prems(1,3) by (auto simp: canonical_Cons)
    have later: "snd r < k" if "k \<in> cover rs" for k using canonical_Cons_cover_ge[OF Cons.prems(1) that] .
    consider (out) "\<not> fst r < hi" | (cut) "fst r < hi" "hi < snd r" | (whole) "fst r < hi" "\<not> hi < snd r" by blast
    then show ?case
    proof cases
      case out
      then have "cover (r # rs) \<inter> {lo..<hi} = {}" using later r(1) by (force simp: cover_Cons)
      then show ?thesis using out Cons.prems by auto
    next
      case cut
      then have c: "cover (r # rs) \<inter> {lo..<hi} = {max (fst r) lo..<hi}" using later by (force simp: cover_Cons)
      have "min (snd r) hi = hi" using cut by simp
      then have eq: "ins = [(max (fst r) lo, hi)]" "rest = r # rs" using cut Cons.prems(4) by auto
      have "cover ins = cover (r # rs) \<inter> {lo..<hi}" unfolding c eq by (simp add: cover_Cons)
      then show ?thesis using eq cut Cons.prems(1,2) by auto
    next
      case whole
      obtain ins' where ins': "clip_loop rs (lo, hi) = (ins', rest)"
        "ins = (max (fst r) lo, min (snd r) hi) # ins'"
        using Cons.prems(4) whole by (auto split: prod.splits)
      have IH: "canonical ins' \<and> cover ins' = cover rs \<inter> {lo..<hi} \<and> canonical rest \<and>
          cover rest \<inter> {hi..} = cover rs \<inter> {hi..} \<and> (\<forall>q \<in> set ins'. \<exists>r \<in> set rs. fst r \<le> fst q)"
        using Cons.IH[OF r(2) assms(2) _ ins'(1)] Cons.prems(3) by simp
      have "snd r < fst q" if "q \<in> set ins'" for q using IH that r(3) by force
      then have "canonical ins" using ins'(2) IH r(1,4) whole assms(2)
        by (auto simp: canonical_Cons min_less_iff_disj)
      moreover have "{max (fst r) lo..<min (snd r) hi} = {fst r..<snd r} \<inter> {lo..<hi}" by auto
      then have "cover ins = cover (r # rs) \<inter> {lo..<hi}" using ins'(2) IH by (auto simp: cover_Cons)
      moreover have "cover (r # rs) \<inter> {hi..} = cover rs \<inter> {hi..}" using whole by (auto simp: cover_Cons)
      ultimately show ?thesis using IH ins'(2) by auto
    qed
  qed simp
  then show "canonical ins" "cover ins = cover rs \<inter> {lo..<hi}" "canonical rest"
    "cover rest \<inter> {hi..} = cover rs \<inter> {hi..}" "\<forall>q \<in> set ins. \<exists>r \<in> set rs. fst r \<le> fst q" by auto
qed

text \<open>What each output file receives, in the order of the boundaries.\<close>

fun distribute :: "'k::linorder range list \<Rightarrow> 'k range list \<Rightarrow> 'k range list list" where
  "distribute rds [] = []"
| "distribute rds (fb # fbs) =
     (if rds = [] \<or> fst fb = snd fb then [] # distribute rds fbs
      else let (ins, rest) = clip_loop (dropWhile (\<lambda>r. snd r \<le> fst fb) rds) fb
           in ins # distribute rest fbs)"

lemma length_distribute [simp]: "length (distribute rds fbs) = length fbs"
  by (induction rds fbs rule: distribute.induct) (auto split: prod.splits)

lemma distribute_correct:
  "canonical rds \<Longrightarrow> boundaries_ok fbs \<Longrightarrow>
   list_all2 (\<lambda>fb d. canonical d \<and> cover d = cover rds \<inter> {fst fb..<snd fb}) fbs (distribute rds fbs)"
proof (induction rds fbs rule: distribute.induct)
  case (2 rds fb fbs)
  have ok: "boundaries_ok fbs" using "2.prems"(2) by (simp add: boundaries_ok_def)
  show ?case
  proof (cases "rds = [] \<or> fst fb = snd fb")
    case True
    then show ?thesis using "2.IH"(1)[OF True "2.prems"(1) ok] by auto
  next
    case False
    let ?d = "dropWhile (\<lambda>r. snd r \<le> fst fb) rds"
    obtain ins rest where c: "clip_loop ?d fb = (ins, rest)" by (metis prod.exhaust)
    have lt: "fst fb < snd fb" using False "2.prems"(2) by (auto simp: boundaries_ok_def)
    note clip = clip_loop_ok[OF dropWhile_before(1)[OF "2.prems"(1)] lt dropWhile_before(2)[OF "2.prems"(1)], of ins rest, simplified]
    have d: "k \<in> cover ?d \<longleftrightarrow> k \<in> cover rds" if "fst fb \<le> k" for k
      using dropWhile_before(3)[OF "2.prems"(1), of "fst fb"] that by (metis Int_iff atLeast_iff)
    then have ins: "canonical ins" "cover ins = cover rds \<inter> {fst fb..<snd fb}"
      using clip(1,2)[OF c] by auto
    have "k \<in> cover rest \<longleftrightarrow> k \<in> cover rds" if "snd fb \<le> k" for k
    proof -
      have "k \<in> cover rest \<longleftrightarrow> k \<in> cover ?d" using clip(4)[OF c] that by (metis Int_iff atLeast_iff)
      then show ?thesis using d[of k] lt that by simp
    qed
    then have "cover rest \<inter> {fst b..<snd b} = cover rds \<inter> {fst b..<snd b}" if "b \<in> set fbs" for b
      using "2.prems"(2) that by (fastforce simp: boundaries_ok_def)
    then have "list_all2 (\<lambda>fb d. canonical d \<and> cover d = cover rds \<inter> {fst fb..<snd fb}) fbs (distribute rest fbs)"
      using list.rel_mono_strong[OF "2.IH"(2)[OF False c[symmetric] refl clip(3)[OF c] ok]] by simp
    then show ?thesis using False c ins by simp
  qed
qed simp

definition insert_files :: "nat \<Rightarrow> (fd \<times> 'k range list) list \<Rightarrow> ('k, 'm) plrdf_scheme \<Rightarrow> ('k, 'm) plrdf_scheme" where
  "insert_files l = fold (\<lambda>(f, v) s. if v \<noteq> [] then insertTracingRangesAtLevelOfFd l f v s else s)"

lemma insert_files_none: "\<forall>p \<in> set ps. snd p = [] \<Longrightarrow> insert_files l ps s = s"
  by (induction ps arbitrary: s) (auto simp: insert_files_def)

lemma distribute_none: "d \<in> set (distribute [] fbs) \<Longrightarrow> d = []"
  by (induction fbs) auto

lemma shift_tracing_loop_distribute:
  "length fds = length fbs \<Longrightarrow>
   shift_tracing_loop l rds fds fbs s = Inr (insert_files l (zip fds (distribute rds fbs)) s)"
proof (induction fds arbitrary: rds fbs s)
  case (Cons f fds)
  obtain fb fbs' where fbs: "fbs = fb # fbs'" "length fds = length fbs'" using Cons.prems by (cases fbs) auto
  show ?case
  proof (cases "rds = []")
    case True
    have "\<forall>p \<in> set (zip (f # fds) (distribute [] fbs)). snd p = []"
      using distribute_none[of _ fbs] by (auto dest: set_zip_rightD)
    from insert_files_none[OF this, of l s] show ?thesis using True by simp
  next
    case False
    then show ?thesis using Cons.IH[OF fbs(2)] fbs(1) by (auto simp: insert_files_def split: prod.splits)
  qed
qed (simp add: insert_files_def)

lemma insert_files_ok:
  assumes "trace_inv s" "\<forall>p \<in> set ps. canonical (snd p)"
  shows "trace_inv (insert_files l ps s) \<and> same_filter s (insert_files l ps s)"
  using assms
proof (induction ps arbitrary: s)
  case (Cons p ps)
  let ?s = "if snd p \<noteq> [] then insertTracingRangesAtLevelOfFd l (fst p) (snd p) s else s"
  have "trace_inv ?s" "same_filter s ?s" using Cons.prems trace_inv_insert by auto
  then show ?case using Cons.IH[of ?s] Cons.prems(2) same_filter_trans
    by (fastforce simp: insert_files_def case_prod_beta)
qed (simp add: insert_files_def)

lemma shiftTracing_ok:
  assumes "trace_inv s" "canonical rds" "boundaries_ok fbs" "length fds = length fbs" "distinct fds"
    and "\<forall>f \<in> set fds. traced s l f = []"
  shows "\<exists>s'. shiftTracingToOutputLevel b rds l fds fbs s = Inr s' \<and> trace_inv s' \<and> same_filter s s' \<and>
    (\<forall>i < length fds. cover (traced s' l (fds ! i)) = cover rds \<inter> {fst (fbs ! i)..<snd (fbs ! i)}) \<and>
    (\<forall>l' f. l' \<noteq> l \<or> f \<notin> set fds \<longrightarrow> traced s' l' f = traced s l' f)"
proof (cases "rds = []")
  case True
  then show ?thesis using assms(1,6) by (auto simp: shiftTracingToOutputLevel_def)
next
  case False
  let ?d = "distribute rds fbs"
  let ?ps = "zip fds ?d"
  have d: "list_all2 (\<lambda>fb d. canonical d \<and> cover d = cover rds \<inter> {fst fb..<snd fb}) fbs ?d"
    using distribute_correct[OF assms(2,3)] .
  have run: "shiftTracingToOutputLevel b rds l fds fbs s = Inr (insert_files l ?ps s)"
    using False assms(4) shift_tracing_loop_distribute[OF assms(4)]
    by (simp add: shiftTracingToOutputLevel_def)
  have "\<forall>p \<in> set ?ps. canonical (snd p)"
    using d by (auto simp: list_all2_conv_all_nth set_zip)
  then have inv: "trace_inv (insert_files l ?ps s)" "same_filter s (insert_files l ?ps s)"
    using insert_files_ok[OF assms(1)] by auto
  have look: "traced (insert_files l ?ps s) l' f =
      (case map_of ?ps f of Some v \<Rightarrow> if l' = l \<and> v \<noteq> [] then v else traced s l' f | None \<Rightarrow> traced s l' f)" for l' f
    unfolding insert_files_def by (rule tracing.look_fold_ins) (use assms(4,5) in simp)
  have "traced (insert_files l ?ps s) l (fds ! i) = ?d ! i" if "i < length fds" for i
  proof -
    have "map_of ?ps (fds ! i) = Some (?d ! i)" using that assms(4,5) by (intro map_of_zip_nth) auto
    then show ?thesis using look assms(6) that by auto
  qed
  moreover have "traced (insert_files l ?ps s) l' f = traced s l' f" if "l' \<noteq> l \<or> f \<notin> set fds" for l' f
  proof (cases "map_of ?ps f")
    case (Some v)
    then have "f \<in> set fds" by (metis map_of_SomeD set_zip_leftD)
    then show ?thesis using look[of l' f] Some that by simp
  qed (use look in simp)
  ultimately show ?thesis using run inv d assms(4) by (auto simp: list_all2_conv_all_nth)
qed

section \<open>Queries and the consistency check\<close>

lemma list_deletes_cover: "canonical rs \<Longrightarrow> list_deletes rs k \<longleftrightarrow> k \<in> cover rs"
proof (cases "rs = []")
  case False
  assume "canonical rs"
  from canonical_lookup[OF this False, of k] show ?thesis by (auto simp: list_deletes_def Let_def)
qed (simp add: list_deletes_def Let_def)

lemma isEntryAliveWithTracing_ok:
  assumes "trace_inv s"
  shows "isEntryAliveWithTracingAtLevelOfFd l f k s \<longleftrightarrow> k \<notin> cover (traced s l f)"
  using list_deletes_cover[OF trace_inv_traced[OF assms], of l f k]
  by (auto simp: isEntryAliveWithTracingAtLevelOfFd_def traced_def split: option.splits if_splits)

lemma foldl_append_concat: "foldl (\<lambda>acc e. acc @ g e) acc xs = acc @ concat (map g xs)"
  by (induction xs arbitrary: acc) auto

lemma getAllFileRangeTombstones_ok:
  assumes "trace_inv s" "0 < l"
  shows "canonical (getAllFileRangeTombstones l s)"
    "cover (getAllFileRangeTombstones l s) = (\<Union>f. cover (traced s l f))"
proof -
  let ?t = "tracing_level_file_rd_filter s"
  have "canonical (getAllFileRangeTombstones l s) \<and>
      cover (getAllFileRangeTombstones l s) = (\<Union>f. cover (traced s l f))"
  proof (cases "l < length ?t")
    case True
    have ok: "file_map_ok (?t ! l)" using assms(1) True by (simp add: trace_inv_def)
    then have "nonempty_ranges (concat (map snd (?t ! l)))"
      using canonical_nonempty by (fastforce simp: file_map_ok_def nonempty_ranges_def)
    moreover have "(\<Union>f. cover (traced s l f)) = (\<Union>e \<in> set (?t ! l). cover (snd e))"
    proof (rule set_eqI)
      fix k
      have "k \<in> (\<Union>f. cover (traced s l f)) \<longleftrightarrow> (\<exists>f rs. map_of (?t ! l) f = Some rs \<and> k \<in> cover rs)"
        using True assms(2) by (auto simp: traced_def split: option.splits)
      also have "\<dots> \<longleftrightarrow> (\<exists>f rs. (f, rs) \<in> set (?t ! l) \<and> k \<in> cover rs)"
        using ok by (simp add: file_map_ok_def smap_ok_distinct)
      also have "\<dots> \<longleftrightarrow> k \<in> (\<Union>e \<in> set (?t ! l). cover (snd e))" by force
      finally show "k \<in> (\<Union>f. cover (traced s l f)) \<longleftrightarrow> k \<in> (\<Union>e \<in> set (?t ! l). cover (snd e))" .
    qed
    ultimately show ?thesis
      using True canonical_sortAndMerge
      by (simp add: getAllFileRangeTombstones_def foldl_append_concat cover_simps cover_concat)
  next
    case False
    then show ?thesis using assms(2) by (simp add: getAllFileRangeTombstones_def traced_def)
  qed
  then show "canonical (getAllFileRangeTombstones l s)"
    "cover (getAllFileRangeTombstones l s) = (\<Union>f. cover (traced s l f))" by auto
qed

lemma differ_iff:
  "(length a \<noteq> length t \<or> (\<exists>i \<in> set [0..<min (length a) (length t)]. a ! i \<noteq> t ! i)) \<longleftrightarrow> a \<noteq> t"
proof (cases "length a = length t")
  case True
  have "a = t \<longleftrightarrow> (\<forall>i < length t. a ! i = t ! i)" using True by (simp only: list_eq_iff_nth_eq simp_thms)
  then show ?thesis using True by auto
next
  case False
  then have "a \<noteq> t" by blast
  then show ?thesis using False by simp
qed

lemma checkTracingConsistency_ok:
  assumes "plrdf_inv s" "trace_inv s" "0 < l" "l < length (rd_filter s)"
  shows "checkTracingConsistency l s \<longleftrightarrow> cover (rd_filter s ! l) \<noteq> (\<Union>f. cover (traced s l f))"
proof -
  let ?a = "rd_filter s ! l" and ?t = "getAllFileRangeTombstones l s"
  have "checkTracingConsistency l s \<longleftrightarrow> ?a \<noteq> ?t"
    using assms(4) differ_iff[of ?a ?t] by (simp add: checkTracingConsistency_def Let_def)
  moreover have "canonical ?a" using plrdf_inv_level[OF assms(1,4)] by (simp add: level_ok_def)
  ultimately show ?thesis
    using canonical_unique[of ?a ?t] getAllFileRangeTombstones_ok[OF assms(2,3)] by metis
qed

section \<open>Properties\<close>

text \<open>A small table for the examples: files 7 and 9 of level 1.\<close>

definition sample_traced :: "int plrdf" where
  "sample_traced = sample_filter\<lparr>tracing_level_file_rd_filter := [[], [(7, [(1, 5)]), (9, [(8, 12)])]]\<rparr>"

lemma sample_traced_inv: "trace_inv sample_traced" "plrdf_inv sample_traced"
proof -
  show "trace_inv sample_traced"
    by (simp add: sample_traced_def sample_filter_def plrdf_empty_def trace_inv_def file_map_ok_def smap_ok_def canonical_def)
  show "plrdf_inv sample_traced"
    using sample_filter_inv by (simp add: sample_traced_def plrdf_inv_def)
qed

lemma sample_traced_look:
  "traced sample_traced (Suc 0) 7 = [(1, 5)]" "traced sample_traced (Suc 0) 9 = [(8, 12)]"
  "traced sample_traced 2 f = []"
  by (simp_all add: traced_def sample_traced_def)

text \<open>C23: Gathering the tombstones of the input files of a compaction returns the canonical list of
  exactly the keys those files delete, empties their entries and touches no other entry and not the
  filter.\<close>

theorem gatherTracing_collects:
  assumes "trace_inv s" "length levels = length fds"
  shows "\<exists>rds s'. gatherTracingRangesAndRemove b levels fds s = Inr (rds, s') \<and> canonical rds \<and>
    cover rds = (\<Union>p \<in> listed levels fds. cover (traced s (fst p) (snd p))) \<and>
    (\<forall>l f. traced s' l f = (if (l, f) \<in> listed levels fds then [] else traced s l f)) \<and>
    trace_inv s' \<and> same_filter s s'"
  using gatherTracing_ok[OF assms, of b] unfolding gathered_def by blast

theorem gatherTracing_collects_witness:
  "\<exists>rds s'. gatherTracingRangesAndRemove Debug [1] [[7, 9]] sample_traced = Inr (rds, s') \<and>
    cover rds = {1..<5} \<union> {8..<12} \<and> traced s' 1 7 = []"
proof -
  obtain rds s' where "gatherTracingRangesAndRemove Debug [1] [[7, 9]] sample_traced = Inr (rds, s')"
    "cover rds = (\<Union>p \<in> listed [1] [[7, 9]]. cover (traced sample_traced (fst p) (snd p)))"
    "\<forall>l f. traced s' l f = (if (l, f) \<in> listed [1] [[7, 9]] then [] else traced sample_traced l f)"
    using gatherTracing_collects[OF sample_traced_inv(1), of "[1]" "[[7, 9]]" Debug] by auto
  then show ?thesis by (simp add: listed_def sample_traced_look cover_Cons)
qed

text \<open>C22: After \<open>shiftTracingToOutputLevel\<close> every output file holds exactly the part of the merged
  tombstones inside its boundaries; a range that spans several files is clipped to each.\<close>

theorem shiftTracing_distributes:
  assumes "trace_inv s" "canonical rds" "boundaries_ok fbs" "length fds = length fbs" "distinct fds"
    and "\<forall>f \<in> set fds. traced s l f = []"
  shows "\<exists>s'. shiftTracingToOutputLevel b rds l fds fbs s = Inr s' \<and> trace_inv s' \<and> same_filter s s' \<and>
    (\<forall>i < length fds. cover (traced s' l (fds ! i)) = cover rds \<inter> {fst (fbs ! i)..<snd (fbs ! i)}) \<and>
    (\<forall>l' f. l' \<noteq> l \<or> f \<notin> set fds \<longrightarrow> traced s' l' f = traced s l' f)"
  using shiftTracing_ok[OF assms] .

theorem shiftTracing_distributes_witness:
  "\<exists>s'. shiftTracingToOutputLevel Debug [(1, 9)] 2 [11, 12] [(0, 4), (4, 20)] sample_traced = Inr s' \<and>
    cover (traced s' 2 11) = {1..<4} \<and> cover (traced s' 2 12) = {4..<9}"
proof -
  have "\<exists>s'. shiftTracingToOutputLevel Debug [(1, 9)] 2 [11, 12] [(0, 4), (4, 20)] sample_traced = Inr s' \<and>
      trace_inv s' \<and> same_filter sample_traced s' \<and>
      (\<forall>i < length [11::fd, 12]. cover (traced s' 2 ([11, 12] ! i)) =
         cover [(1, 9)] \<inter> {fst ([(0::int, 4::int), (4, 20)] ! i)..<snd ([(0::int, 4::int), (4, 20)] ! i)}) \<and>
      (\<forall>l' f. l' \<noteq> 2 \<or> f \<notin> set [11, 12] \<longrightarrow> traced s' l' f = traced sample_traced l' f)"
    by (rule shiftTracing_distributes[OF sample_traced_inv(1)])
       (simp_all add: canonical_def boundaries_ok_def sample_traced_look)
  then obtain s' where s': "shiftTracingToOutputLevel Debug [(1, 9)] 2 [11, 12] [(0, 4), (4, 20)] sample_traced = Inr s'"
    "\<forall>i < length [11::fd, 12]. cover (traced s' 2 ([11, 12] ! i)) =
       cover [(1, 9)] \<inter> {fst ([(0::int, 4::int), (4, 20)] ! i)..<snd ([(0::int, 4::int), (4, 20)] ! i)}" by blast
  from s'(2)[rule_format, of 0] s'(2)[rule_format, of 1] show ?thesis using s'(1) by (auto simp: cover_Cons)
qed

text \<open>The per-file query on the table answers ``deleted'' exactly for the keys the file's list
  covers.\<close>

theorem tracing_query_exact:
  assumes "trace_inv s"
  shows "isEntryAliveWithTracingAtLevelOfFd l f k s \<longleftrightarrow> k \<notin> cover (traced s l f)"
  using isEntryAliveWithTracing_ok[OF assms] .

theorem tracing_query_exact_witness:
  "\<not> isEntryAliveWithTracingAtLevelOfFd 1 9 10 sample_traced \<and> isEntryAliveWithTracingAtLevelOfFd 1 9 12 sample_traced"
  using tracing_query_exact[OF sample_traced_inv(1), of 1 9 10] tracing_query_exact[OF sample_traced_inv(1), of 1 9 12]
  by (simp add: sample_traced_look cover_Cons)

text \<open>The consistency check reports a level exactly when the keys the filter's ranges cover differ
  from the keys the files of the level delete.\<close>

theorem consistency_check_exact:
  assumes "plrdf_inv s" "trace_inv s" "0 < l" "l < length (rd_filter s)"
  shows "checkTracingConsistency l s \<longleftrightarrow> cover (rd_filter s ! l) \<noteq> (\<Union>f. cover (traced s l f))"
  using checkTracingConsistency_ok[OF assms] .

theorem consistency_check_exact_witness:
  "checkTracingConsistency 1 sample_traced \<longleftrightarrow>
     cover (rd_filter sample_traced ! 1) \<noteq> (\<Union>f. cover (traced sample_traced 1 f))"
  by (rule consistency_check_exact[OF sample_traced_inv(2,1)]) (simp_all add: sample_traced_def sample_filter_len)

end
