(* ===== verification/PLRDF_LongLong.thy ===== *)
theory PLRDF_LongLong
  imports PLRDF_Tracing
begin

text \<open>
  The class \<open>PLRDF\<close> of include/rocksdb/sys_rdfilter.h, the filter for \<open>long long\<close> keys. It was
  written before the template \<open>PLRDF_t\<close> and repeats most of it; its methods carry the suffix
  \<open>_ll\<close>. A method whose text is that of the template is the template's definition at
  \<open>int\<close> keys. The others are translated here and shown to agree with the template on every
  state that meets the invariant, so the class meets the contract of the template.
  \<open>adjustRangeDeletes\<close> exists only here.
\<close>

section \<open>Methods with the text of the template\<close>

definition sortAndMerge_ll :: "int range list \<Rightarrow> int range list" where
  "sortAndMerge_ll = sortAndMerge"

definition purge_key_on_level_ll :: "nat \<Rightarrow> int range list \<Rightarrow> int plrdf \<Rightarrow> int plrdf" where
  "purge_key_on_level_ll = purge_key_on_level"

definition addRangeDelete_list_ll :: "int range list \<Rightarrow> int range list \<Rightarrow> int range list result" where
  "addRangeDelete_list_ll = addRangeDelete_list"

definition removeRangeDeletesFromLevel0_ll :: "fd list \<Rightarrow> int plrdf \<Rightarrow> int plrdf" where
  "removeRangeDeletesFromLevel0_ll = removeRangeDeletesFromLevel0"

definition RemoveRangeDeletesAndSplitKeyFromLevel_ll ::
  "build \<Rightarrow> nat \<Rightarrow> int range list \<Rightarrow> int plrdf \<Rightarrow> int plrdf result" where
  "RemoveRangeDeletesAndSplitKeyFromLevel_ll = RemoveRangeDeletesAndSplitKeyFromLevel"

definition getOverlappingRanges_ll :: "nat \<Rightarrow> int \<Rightarrow> int \<Rightarrow> int plrdf \<Rightarrow> int range list" where
  "getOverlappingRanges_ll = getOverlappingRanges"

definition getRangesForFile_ll :: "nat \<Rightarrow> fd \<Rightarrow> int \<Rightarrow> int \<Rightarrow> int plrdf \<Rightarrow> int range list" where
  "getRangesForFile_ll = getRangesForFile"

definition insertRangeDeleteToLevel0_ll ::
  "fd \<Rightarrow> int range list \<Rightarrow> fd list \<Rightarrow> int plrdf \<Rightarrow> int plrdf result" where
  "insertRangeDeleteToLevel0_ll = insertRangeDeleteToLevel0"

definition addRangeDelete_ll :: "nat \<Rightarrow> int range list \<Rightarrow> int plrdf \<Rightarrow> int plrdf result" where
  "addRangeDelete_ll = addRangeDelete"

definition getLevelRanges_ll :: "int \<Rightarrow> int plrdf \<Rightarrow> int range list" where
  "getLevelRanges_ll = getLevelRanges"

definition setLevelRanges_ll :: "int range list \<Rightarrow> int \<Rightarrow> int plrdf \<Rightarrow> int plrdf" where
  "setLevelRanges_ll = setLevelRanges"

definition getNumberOfTotalLevels_ll :: "int plrdf \<Rightarrow> int" where
  "getNumberOfTotalLevels_ll = getNumberOfTotalLevels"

definition getNumberOfTotalRanges_ll :: "int plrdf \<Rightarrow> int" where
  "getNumberOfTotalRanges_ll = getNumberOfTotalRanges"

definition gatherSortedRangeTombstonesAndRemoveRDF_ll ::
  "nat \<Rightarrow> fd list \<Rightarrow> int range list \<Rightarrow> int range list \<Rightarrow> int plrdf \<Rightarrow> int range list \<times> int plrdf" where
  "gatherSortedRangeTombstonesAndRemoveRDF_ll = gatherSortedRangeTombstonesAndRemoveRDF"

definition deleteLastLevelIfEqualsBottomLevel_ll :: "nat \<Rightarrow> int plrdf \<Rightarrow> int plrdf result" where
  "deleteLastLevelIfEqualsBottomLevel_ll = deleteLastLevelIfEqualsBottomLevel"

definition splitRangesOnLevel_ll :: "nat \<Rightarrow> int list \<Rightarrow> int plrdf \<Rightarrow> int plrdf result" where
  "splitRangesOnLevel_ll = splitRangesOnLevel"

definition logCurrentTotalNumbersOfRanges_ll :: "int plrdf \<Rightarrow> int plrdf" where
  "logCurrentTotalNumbersOfRanges_ll = logCurrentTotalNumbersOfRanges"

definition clearFilterFalsePositiveRate_ll :: "int plrdf \<Rightarrow> int plrdf" where
  "clearFilterFalsePositiveRate_ll = clearFilterFalsePositiveRate"

definition incKeySearchCount_ll :: "int plrdf \<Rightarrow> int plrdf" where
  "incKeySearchCount_ll = incKeySearchCount"

definition setFlagKeyMayDeleted_ll :: "int plrdf \<Rightarrow> int plrdf" where
  "setFlagKeyMayDeleted_ll = setFlagKeyMayDeleted"

definition clearFlagKeyMayDeleted_ll :: "int plrdf \<Rightarrow> int plrdf" where
  "clearFlagKeyMayDeleted_ll = clearFlagKeyMayDeleted"

definition checkProperUsageOfFlagKeyMayDeleted_ll :: "int plrdf \<Rightarrow> unit result" where
  "checkProperUsageOfFlagKeyMayDeleted_ll = checkProperUsageOfFlagKeyMayDeleted"

definition getFlagKeyMayDeleted_ll :: "int plrdf \<Rightarrow> bool result" where
  "getFlagKeyMayDeleted_ll = getFlagKeyMayDeleted"

definition getAllFileRangeTombstones_ll :: "nat \<Rightarrow> int plrdf \<Rightarrow> int range list" where
  "getAllFileRangeTombstones_ll = getAllFileRangeTombstones"

definition insertTracingRangesAtLevelOfFd_ll :: "nat \<Rightarrow> fd \<Rightarrow> int range list \<Rightarrow> int plrdf \<Rightarrow> int plrdf" where
  "insertTracingRangesAtLevelOfFd_ll = insertTracingRangesAtLevelOfFd"

definition removeTracingRangesAtLevelOfFd_ll :: "nat \<Rightarrow> fd \<Rightarrow> int plrdf \<Rightarrow> int plrdf" where
  "removeTracingRangesAtLevelOfFd_ll = removeTracingRangesAtLevelOfFd"

definition gatherTracingRangesAndRemove_ll ::
  "build \<Rightarrow> nat list \<Rightarrow> fd list list \<Rightarrow> int plrdf \<Rightarrow> (int range list \<times> int plrdf) result" where
  "gatherTracingRangesAndRemove_ll = gatherTracingRangesAndRemove"

definition shiftTracingToOutputLevel_ll ::
  "build \<Rightarrow> int range list \<Rightarrow> nat \<Rightarrow> fd list \<Rightarrow> int range list \<Rightarrow> int plrdf \<Rightarrow> int plrdf result" where
  "shiftTracingToOutputLevel_ll = shiftTracingToOutputLevel"

definition isEntryAliveWithTracingAtLevelOfFd_ll :: "nat \<Rightarrow> fd \<Rightarrow> int \<Rightarrow> int plrdf \<Rightarrow> bool" where
  "isEntryAliveWithTracingAtLevelOfFd_ll = isEntryAliveWithTracingAtLevelOfFd"

lemmas ll_instances =
  sortAndMerge_ll_def purge_key_on_level_ll_def addRangeDelete_list_ll_def removeRangeDeletesFromLevel0_ll_def
  RemoveRangeDeletesAndSplitKeyFromLevel_ll_def insertRangeDeleteToLevel0_ll_def splitRangesOnLevel_ll_def
  getAllFileRangeTombstones_ll_def insertTracingRangesAtLevelOfFd_ll_def removeTracingRangesAtLevelOfFd_ll_def

section \<open>Methods of their own\<close>

definition addRangeDelete_internal_ll :: "build \<Rightarrow> nat \<Rightarrow> int range list \<Rightarrow> int plrdf \<Rightarrow> int plrdf result" where
  "addRangeDelete_internal_ll b level range_delete_list_in s =
     cxx_assert b (length (rd_filter s) \<ge> level)
       (cxx_assert b (length (split_keys s) \<ge> level)
         (let s1 = s\<lparr>rd_filter := grow [] level (rd_filter s), split_keys := grow [] level (split_keys s)\<rparr>;
              s2 = purge_key_on_level_ll level range_delete_list_in s1
          in bind_res (addRangeDelete_list_ll (rd_filter s2 ! level) range_delete_list_in)
               (\<lambda>l. Inr (s2\<lparr>rd_filter := (rd_filter s2)[level := l]\<rparr>))))"

definition adjustRangeDeletesForLevel0Input_ll ::
  "build \<Rightarrow> nat \<Rightarrow> fd list \<Rightarrow> int range list \<Rightarrow> int plrdf \<Rightarrow> int plrdf result" where
  "adjustRangeDeletesForLevel0Input_ll b olevel file_numbers collected_tombstones s =
     addRangeDelete_internal_ll b olevel collected_tombstones
       (s\<lparr>rd_filter_level0 := fold (\<lambda>f m. m(f := None)) file_numbers (rd_filter_level0 s)\<rparr>)"

text \<open>The loop of \<open>adjustRangeDeletes\<close>; it has \<open>val.first <= file_boundry.second\<close> where
  \<open>remove_loop\<close> has \<open><\<close>.\<close>

function adjust_loop :: "build \<Rightarrow> int range list \<Rightarrow> int range list \<Rightarrow> (int range list \<times> int range list) result" where
  "adjust_loop b [] itf = Inr ([], [])"
| "adjust_loop b (v # it) [] =
     emit (if fst v \<noteq> snd v then [v] else []) [] (adjust_loop b it [])"
| "adjust_loop b (v # it) (f # itf) =
     (if snd v \<le> fst f then
        emit (if fst v \<noteq> snd v then [v] else []) [] (adjust_loop b it (f # itf))
      else if fst v \<ge> snd f then adjust_loop b (v # it) itf
      else if fst v < fst f \<and> snd v > fst f \<and> snd v \<le> snd f then
        emit (if fst v \<noteq> fst f then [(fst v, fst f)] else [])
             (if fst f \<noteq> snd v then [(fst f, snd v)] else [])
             (adjust_loop b it (f # itf))
      else if fst v \<ge> fst f \<and> snd v \<le> snd f then
        emit [] (if fst v \<noteq> snd v then [v] else []) (adjust_loop b it (f # itf))
      else if fst v \<ge> fst f \<and> fst v \<le> snd f \<and> snd v > snd f then
        emit [] [(fst v, snd f)] (adjust_loop b (advance_first (snd f) v it) itf)
      else if fst v < fst f \<and> snd v > snd f then
        emit (if fst v \<noteq> fst f then [(fst v, fst f)] else []) [(fst f, snd f)]
             (adjust_loop b (advance_first (snd f) v it) itf)
      else cxx_assert b False (Inl (Exit 1)))"
  by pat_completeness auto
termination
  by (relation "measure (\<lambda>(b, it, itf). length it + length itf)")
     (auto simp: less_Suc_eq_le length_advance_first)

definition adjustRangeDeletes :: "build \<Rightarrow> nat \<Rightarrow> nat \<Rightarrow> int range list \<Rightarrow> int plrdf \<Rightarrow> int plrdf result" where
  "adjustRangeDeletes b clevel olevel boundaries s =
     (if length (rd_filter s) \<le> clevel then Inr s
      else if boundaries = [] then Inr s
      else bind_res (adjust_loop b (rd_filter s ! clevel) boundaries)
        (\<lambda>(new_rdf, to_be_added).
           bind_res (addRangeDelete_internal_ll b olevel (sort_key fst to_be_added)
                       (s\<lparr>rd_filter := (rd_filter s)[clevel := new_rdf]\<rparr>))
             (\<lambda>s2. if length (split_keys s2) \<le> clevel then Inl Undefined_behaviour
                   else Inr (s2\<lparr>split_keys := (split_keys s2)[clevel :=
                               keep_loop (split_keys s2 ! clevel) new_rdf]\<rparr>))))"

definition shift_one_ll :: "build \<Rightarrow> int file_meta \<Rightarrow> int plrdf \<Rightarrow> int plrdf result" where
  "shift_one_ll b file_meta_data s =
     (case file_meta_data of (clevel, olevel, range_list, src_fd_list) \<Rightarrow>
        let sorted_merged_rdlist = sortAndMerge_ll range_list
        in if clevel = 0 then Inr (removeRangeDeletesFromLevel0_ll src_fd_list s)
           else RemoveRangeDeletesAndSplitKeyFromLevel_ll b (to_uint clevel) sorted_merged_rdlist s)"

definition shiftRDFToOutputLevel_ll ::
  "build \<Rightarrow> int file_meta list \<Rightarrow> int range list \<Rightarrow> int plrdf \<Rightarrow> int plrdf result" where
  "shiftRDFToOutputLevel_ll b file_meta_data_vectors sorted_merged_rdlist_outlevel s =
     (if file_meta_data_vectors = [] then Inr s
      else bind_res (fold_res (shift_one_ll b) file_meta_data_vectors s)
        (\<lambda>s1. if sorted_merged_rdlist_outlevel \<noteq> []
              then addRangeDelete_internal_ll b (to_uint (fst (snd (hd file_meta_data_vectors))))
                     sorted_merged_rdlist_outlevel s1
              else Inr s1))"

text \<open>The loop of \<open>deleteRDFAssociatedWithFilesAtCurrentLevel\<close>, again with \<open><=\<close>.\<close>

function delete_loop_ll :: "build \<Rightarrow> int range list \<Rightarrow> int range list \<Rightarrow> int range list result" where
  "delete_loop_ll b [] itf = Inr []"
| "delete_loop_ll b (v # it) [] = bind_res (delete_loop_ll b it []) (\<lambda>n. Inr (v # n))"
| "delete_loop_ll b (v # it) (f # itf) =
     (if snd v \<le> fst f then bind_res (delete_loop_ll b it (f # itf)) (\<lambda>n. Inr (v # n))
      else if fst v \<ge> snd f then delete_loop_ll b (v # it) itf
      else if fst v < fst f \<and> snd v > fst f \<and> snd v \<le> snd f then
        bind_res (delete_loop_ll b it (f # itf)) (\<lambda>n. Inr ((fst v, fst f) # n))
      else if fst v \<ge> fst f \<and> snd v \<le> snd f then delete_loop_ll b it (f # itf)
      else if fst v \<ge> fst f \<and> fst v \<le> snd f \<and> snd v > snd f then
        delete_loop_ll b (advance_first (snd f) v it) itf
      else if fst v < fst f \<and> snd v > snd f then
        bind_res (delete_loop_ll b (advance_first (snd f) v it) itf) (\<lambda>n. Inr ((fst v, fst f) # n))
      else cxx_assert b False (Inl (Exit 1)))"
  by pat_completeness auto
termination
  by (relation "measure (\<lambda>(b, it, itf). length it + length itf)")
     (auto simp: less_Suc_eq_le length_advance_first)

definition deleteRDFAssociatedWithFilesAtCurrentLevel_ll ::
  "build \<Rightarrow> int \<times> int range list \<times> fd list \<Rightarrow> int plrdf \<Rightarrow> int plrdf result" where
  "deleteRDFAssociatedWithFilesAtCurrentLevel_ll b file_meta_data s =
     (case file_meta_data of (level, meta_data, fd_list) \<Rightarrow>
        if level = 0 then fold_res (delete_level0_file b) fd_list s
        else if length (rd_filter s) \<le> to_uint level then Inr s
        else bind_res (delete_loop_ll b (rd_filter s ! to_uint level) (sortAndMerge_ll meta_data))
          (\<lambda>new_rdf.
             if length (split_keys s) \<le> to_uint level then Inl Undefined_behaviour
             else Inr (s\<lparr>rd_filter := (rd_filter s)[to_uint level := new_rdf],
                         split_keys := (split_keys s)[to_uint level :=
                           keep_loop (split_keys s ! to_uint level) new_rdf]\<rparr>)))"

text \<open>\<open>sizeof(pll)\<close> is 16; the product is computed in \<open>size_t\<close> and converted to \<open>int\<close>.\<close>

definition getNumberOfTotalMemoryUsage_ll :: "int plrdf \<Rightarrow> int" where
  "getNumberOfTotalMemoryUsage_ll s =
     wrap32 (foldl (\<lambda>num l. wrap32 (num + int (length l))) 0 (rd_filter s) * 16)"

definition logCurrentTotalMemoryUsage_ll :: "int plrdf \<Rightarrow> int plrdf" where
  "logCurrentTotalMemoryUsage_ll s =
     s\<lparr>memory_usage_in_RDF_log := memory_usage_in_RDF_log s @ [getNumberOfTotalMemoryUsage_ll s]\<rparr>"

definition isEntryAlive_ll :: "build \<Rightarrow> nat \<Rightarrow> int \<Rightarrow> int plrdf \<Rightarrow> bool result" where
  "isEntryAlive_ll b level key s =
     cxx_assert b (length (rd_filter s) > level)
       (if level \<ge> length (rd_filter s) then Inr True
        else if rd_filter s ! level = [] then Inr True
        else if length (split_keys s) \<le> level then Inl Undefined_behaviour
        else let splitKeyList = split_keys s ! level;
                 p = lower_bound (\<lambda>a. a < key) splitKeyList;
                 it = lookup_range (rd_filter s ! level) key
             in if p < length splitKeyList \<and> splitKeyList ! p = key then Inr True
                else if key \<ge> fst it \<and> key < snd it then Inr False
                else Inr True)"

text \<open>The loop of \<open>checkTracingConsistency\<close> runs over all of \<open>actual\<close> and indexes
  \<open>traced\<close>, which may be shorter.\<close>

definition checkTracingConsistency_ll :: "nat \<Rightarrow> int plrdf \<Rightarrow> bool result" where
  "checkTracingConsistency_ll level s =
     (if level \<ge> length (rd_filter s) then Inr False
      else let actual = rd_filter s ! level;
               traced = getAllFileRangeTombstones_ll level s
           in if length actual > length traced then Inl Undefined_behaviour
              else Inr (length actual \<noteq> length traced \<or>
                        (\<exists>i \<in> set [0..<length actual]. actual ! i \<noteq> traced ! i)))"

definition setTracingForFile_ll :: "nat \<Rightarrow> fd \<Rightarrow> int range list \<Rightarrow> int plrdf \<Rightarrow> int plrdf" where
  "setTracingForFile_ll level fd ranges s = insertTracingRangesAtLevelOfFd_ll level fd ranges s"

definition removeTracingForFile_ll :: "nat \<Rightarrow> fd \<Rightarrow> int plrdf \<Rightarrow> int plrdf" where
  "removeTracingForFile_ll level fd s = removeTracingRangesAtLevelOfFd_ll level fd s"

definition getTracingRangesForFile_ll :: "nat \<Rightarrow> fd \<Rightarrow> int plrdf \<Rightarrow> int range list" where
  "getTracingRangesForFile_ll level fd s =
     (if level = 0 then
        (case tracing_rd_filter_level0 s fd of Some rs \<Rightarrow> rs | None \<Rightarrow> [])
      else if level < length (tracing_level_file_rd_filter s) then
        (case map_of (tracing_level_file_rd_filter s ! level) fd of Some rs \<Rightarrow> rs | None \<Rightarrow> [])
      else [])"

section \<open>Agreement with the template\<close>

lemma adjust_loop_remove_loop: "adjust_loop b it itf = remove_loop b it itf"
  by (induction b it itf rule: adjust_loop.induct) (simp_all add: order.order_iff_strict)

lemma delete_loop_ll_eq: "delete_loop_ll b it itf = delete_loop b it itf"
  by (induction b it itf rule: delete_loop_ll.induct) (simp_all add: order.order_iff_strict)

lemma addRangeDelete_internal_ll_eq:
  assumes "length (split_keys s) = length (rd_filter s)"
  shows "addRangeDelete_internal_ll b level B s = addRangeDelete_internal b level B s"
  using assms
  by (simp add: addRangeDelete_internal_ll_def addRangeDelete_internal_def ll_instances grow_def cxx_assert_def Let_def)

lemma shift_one_ll_eq: "shift_one_ll = shift_one"
  by (intro ext) (simp add: shift_one_ll_def shift_one_def ll_instances split: prod.split)

lemma shiftRDFToOutputLevel_ll_eq:
  assumes "plrdf_inv s" "metas_ok ms"
  shows "shiftRDFToOutputLevel_ll b ms rds s = shiftRDFToOutputLevel b ms rds s"
proof -
  obtain s1 where s1: "fold_res (shift_one b) ms s = Inr s1" "plrdf_inv s1"
    using shift_fold_ok[OF assms] by blast
  then show ?thesis
    using addRangeDelete_internal_ll_eq[OF plrdf_inv_length[OF s1(2)]]
    by (simp add: shiftRDFToOutputLevel_ll_def shiftRDFToOutputLevel_def shift_one_ll_eq)
qed

lemma deleteRDF_ll_eq:
  "deleteRDFAssociatedWithFilesAtCurrentLevel_ll = deleteRDFAssociatedWithFilesAtCurrentLevel"
  by (intro ext) (simp add: deleteRDFAssociatedWithFilesAtCurrentLevel_ll_def
      deleteRDFAssociatedWithFilesAtCurrentLevel_def delete_loop_ll_eq ll_instances split: prod.split)

lemma isEntryAlive_ll_template:
  "isEntryAlive_ll b level key s = bind_res (isEntryAlive b p level key s) (\<lambda>(a, s'). Inr a)"
  by (simp add: isEntryAlive_ll_def isEntryAlive_def counter_defs Let_def cxx_assert_def)

lemma isEntryAlive_ll_ok:
  assumes "plrdf_inv s" "level < length (rd_filter s)"
  shows "isEntryAlive_ll b level key s = Inr (key \<notin> dead s level)"
  using isEntryAlive_ok[OF assms, of b False key] isEntryAlive_ll_template[of b level key s False] by auto

interpretation plrdf_ll: splittable_filter "plrdf_inv :: int plrdf \<Rightarrow> bool" dead "\<lambda>s. length (rd_filter s)"
  "addRangeDelete_internal_ll b" "RemoveRangeDeletesAndSplitKeyFromLevel_ll b"
  "\<lambda>l k s. bind_res (isEntryAlive_ll b l k s) (\<lambda>a. Inr (a, s))" splitRangesOnLevel_ll
  for b
proof (unfold_locales, goal_cases)
  case (1 s B l)
  then show ?case using addRangeDelete_internal_ok[of s B l b]
    by (auto simp: addRangeDelete_internal_ll_eq plrdf_inv_length)
next
  case (2 s B l)
  then show ?case using RemoveRangeDeletes_ok[of s B b l] by (auto simp: ll_instances)
next
  case (3 s l k)
  then show ?case using isEntryAlive_ll_ok[of s l b k] by simp
next
  case (4 s ks l)
  then show ?case using splitRangesOnLevel_ok[of s ks l] by (auto simp: ll_instances)
next
  case (5 s l)
  then show ?case by (simp add: dead_def)
qed

section \<open>Moving a level's deletes along with its files\<close>

text \<open>Adding on one level does not see the split keys of another.\<close>

lemma addRangeDelete_internal_other_split_keys:
  assumes "c \<noteq> l" "c < length (split_keys s)" "length (split_keys s) = length (rd_filter s)"
  shows "addRangeDelete_internal b l B (s\<lparr>split_keys := (split_keys s)[c := ks]\<rparr>) =
    bind_res (addRangeDelete_internal b l B s) (\<lambda>s'. Inr (s'\<lparr>split_keys := (split_keys s')[c := ks]\<rparr>))"
proof -
  let ?e = "extend_levels l s"
  have ext: "extend_levels l (s\<lparr>split_keys := (split_keys s)[c := ks]\<rparr>) =
      ?e\<lparr>split_keys := (split_keys ?e)[c := ks]\<rparr>"
    using assms(2) by (simp add: extend_levels_def Let_def list_update_append)
  have len: "length (split_keys ?e) = length (rd_filter ?e)" "l < length (rd_filter ?e)"
    using assms(3) by (auto simp: extend_levels_def Let_def)
  have "purge_key_on_level l B (?e\<lparr>split_keys := (split_keys ?e)[c := ks]\<rparr>) =
      (purge_key_on_level l B ?e)\<lparr>split_keys := (split_keys (purge_key_on_level l B ?e))[c := ks]\<rparr>"
    using assms(1) purge_key_on_level_eq[OF len, of B] len
      purge_key_on_level_eq[of "?e\<lparr>split_keys := (split_keys ?e)[c := ks]\<rparr>" l B]
    by (simp add: list_update_swap)
  then show ?thesis unfolding addRangeDelete_internal_eq ext
    by (cases "addRangeDelete_list (rd_filter (purge_key_on_level l B ?e) ! l) B")
       (simp_all add: Let_def cxx_assert_def)
qed

lemma addRangeDelete_internal_keeps_split_keys:
  assumes "addRangeDelete_internal b l B s = Inr s'" "c \<noteq> l" "c < length (split_keys s)"
  shows "split_keys s' ! c = split_keys s ! c" "c < length (split_keys s')"
  using assms
  by (auto simp: addRangeDelete_internal_def cxx_assert_Inr_iff Let_def purge_key_on_level_def nth_append
      split: if_splits)

lemma adjustRangeDeletes_ok:
  assumes "plrdf_inv s" "canonical B" "c \<noteq> l" "l \<le> length (rd_filter s) \<or> b = NDebug"
    "c < length (rd_filter s)" "B \<noteq> []"
  shows "\<exists>s'. adjustRangeDeletes b c l B s = Inr s' \<and> plrdf_inv s' \<and>
    dead s' = (dead s)(c := dead s c - cover B, l := dead s l \<union> (cover (rd_filter s ! c) \<inter> cover B))"
proof -
  let ?rs = "rd_filter s ! c" and ?ks = "split_keys s ! c"
  have len: "length (split_keys s) = length (rd_filter s)" using plrdf_inv_length[OF assms(1)] .
  have ok: "level_ok ?rs ?ks" using plrdf_inv_level[OF assms(1,5)] .
  obtain n m where cut: "remove_loop b ?rs B = Inr (n, m)" "cut_result ?rs B n m"
    using remove_loop_cut[of ?rs B b] ok assms(2) by (auto simp: level_ok_def)
  then have n: "canonical n" "cover n = cover ?rs - cover B" "cover m = cover ?rs \<inter> cover B"
    by (auto simp: cut_result_def)
  have m: "canonical m" using remove_loop_moved[OF _ assms(2) cut(1)] ok by (simp add: level_ok_def moved_ok_def)
  have sort: "sort_key fst m = m" using canonical_by_start[OF m] by (simp add: by_start_def sort_key_id_if_sorted)
  let ?s1 = "s\<lparr>rd_filter := (rd_filter s)[c := n]\<rparr>"
  let ?s2 = "?s1\<lparr>split_keys := (split_keys ?s1)[c := keep_loop ?ks n]\<rparr>"
  have "plrdf_inv ?s2" using plrdf_inv_update[OF assms(1) level_ok_cut(1)[OF ok n(1,2)] assms(5)] by simp
  moreover have d2: "dead ?s2 = (dead s)(c := dead s c - cover B)"
    using dead_update[OF len assms(5), where rs = n and ks = "keep_loop ?ks n"] level_ok_cut(2)[OF ok n(1,2)] assms(5)
    by (simp add: dead_def)
  ultimately obtain s' where s': "addRangeDelete_internal b l m ?s2 = Inr s'" "plrdf_inv s'"
    "dead s' = (dead ?s2)(l := dead ?s2 l \<union> cover m)"
    using addRangeDelete_internal_ok[of ?s2 m l b] canonical_ordered[OF m] assms(4) by auto
  have "bind_res (addRangeDelete_internal b l m ?s1)
      (\<lambda>s'. Inr (s'\<lparr>split_keys := (split_keys s')[c := keep_loop ?ks n]\<rparr>)) = Inr s'"
    using addRangeDelete_internal_other_split_keys[of c l ?s1 b m "keep_loop ?ks n"] assms(3,5) len s'(1) by simp
  then obtain s3 where s3: "addRangeDelete_internal b l m ?s1 = Inr s3"
    "s' = s3\<lparr>split_keys := (split_keys s3)[c := keep_loop ?ks n]\<rparr>" by auto
  have "split_keys s3 ! c = ?ks" "c < length (split_keys s3)"
    using addRangeDelete_internal_keeps_split_keys[OF s3(1) assms(3)] assms(5) len by auto
  then have "adjustRangeDeletes b c l B s = Inr s'"
    using cut(1) s3 assms(5,6) len sort addRangeDelete_internal_ll_eq[of ?s1]
    by (simp add: adjustRangeDeletes_def adjust_loop_remove_loop)
  moreover have "dead s' = (dead s)(c := dead s c - cover B, l := dead s l \<union> (cover ?rs \<inter> cover B))"
    using s'(3) d2 n(3) assms(3) by simp
  ultimately show ?thesis using s'(2) by blast
qed

section \<open>The consistency check can read past the traced ranges\<close>

lemma checkTracingConsistency_ll_ok:
  assumes "length (rd_filter s ! l) \<le> length (getAllFileRangeTombstones l s)"
  shows "checkTracingConsistency_ll l s = Inr (checkTracingConsistency l s)"
  using assms by (simp add: checkTracingConsistency_ll_def checkTracingConsistency_def ll_instances Let_def min_def)

lemma checkTracingConsistency_ll_error:
  "checkTracingConsistency_ll l s = Inl e \<longleftrightarrow>
     l < length (rd_filter s) \<and> length (getAllFileRangeTombstones l s) < length (rd_filter s ! l) \<and>
     e = Undefined_behaviour"
  by (auto simp: checkTracingConsistency_ll_def ll_instances Let_def)

text \<open>The consistency check of this class reads past the end of the traced ranges, which is
  undefined behaviour, exactly when the level holds more ranges than its files' merged tombstones;
  otherwise it reports what the template's check reports.\<close>

lemma long_long_check_reads_past_end:
  "checkTracingConsistency_ll l s =
     (if l < length (rd_filter s) \<and> length (getAllFileRangeTombstones l s) < length (rd_filter s ! l)
      then Inl Undefined_behaviour else Inr (checkTracingConsistency l s))"
proof (cases "l < length (rd_filter s) \<and> length (getAllFileRangeTombstones l s) < length (rd_filter s ! l)")
  case True
  then show ?thesis using checkTracingConsistency_ll_error[of l s Undefined_behaviour] by simp
next
  case False
  then consider "length (rd_filter s) \<le> l" | "length (rd_filter s ! l) \<le> length (getAllFileRangeTombstones l s)"
    by linarith
  then show ?thesis
  proof cases
    case 1
    then show ?thesis by (simp add: checkTracingConsistency_ll_def checkTracingConsistency_def)
  next
    case 2
    then show ?thesis using checkTracingConsistency_ll_ok[OF 2] by simp
  qed
qed

section \<open>Properties\<close>

text \<open>C24: Method by method, where the class for \<open>long long\<close> keys has a text of its own: on every state that
  meets the invariant its compaction, its direct removal and its internal addition return the same
  state, or the same error, as the template's at \<open>int\<close> keys. Its query gives the template's answer, but
  changes no state, where the template counts searches and sets the flag. Its consistency check differs: it reads past the traced ranges exactly when the level holds more ranges than they do, and
  reports what the template's check reports otherwise. Memory usage, which depends on the size of the
  keys, is not compared.\<close>

theorem long_long_against_template:
  assumes "plrdf_inv s" "metas_ok ms"
  shows "shiftRDFToOutputLevel_ll b ms rds s = shiftRDFToOutputLevel b ms rds s \<and>
    deleteRDFAssociatedWithFilesAtCurrentLevel_ll b m s = deleteRDFAssociatedWithFilesAtCurrentLevel b m s \<and>
    addRangeDelete_internal_ll b l B s = addRangeDelete_internal b l B s \<and>
    isEntryAlive_ll b l k s = bind_res (isEntryAlive b p l k s) (\<lambda>(a, s'). Inr a) \<and>
    checkTracingConsistency_ll l s =
     (if l < length (rd_filter s) \<and> length (getAllFileRangeTombstones l s) < length (rd_filter s ! l)
      then Inl Undefined_behaviour else Inr (checkTracingConsistency l s))"
  using shiftRDFToOutputLevel_ll_eq[OF assms] deleteRDF_ll_eq addRangeDelete_internal_ll_eq[OF plrdf_inv_length[OF assms(1)]]
    isEntryAlive_ll_template long_long_check_reads_past_end by simp

theorem long_long_against_template_witness:
  "shiftRDFToOutputLevel_ll Debug [(1, 2, [(4, 9)], [])] [(4, 5)] sample_filter =
     shiftRDFToOutputLevel Debug [(1, 2, [(4, 9)], [])] [(4, 5)] sample_filter \<and>
   checkTracingConsistency_ll 1 sample_filter = Inl Undefined_behaviour"
proof -
  have "metas_ok [(1, 2, [(4, 9 :: int)], [])]" by (simp add: metas_ok_def nonempty_ranges_def)
  from long_long_against_template[OF sample_filter_inv this, of Debug "[(4, 5)]" undefined 1]
  show ?thesis by (simp add: sample_filter_def plrdf_empty_def getAllFileRangeTombstones_def)
qed

text \<open>C26: \<open>adjustRangeDeletes\<close> takes the keys within the file boundaries off the input level and
  deletes on the output level every key the ranges covered there. Split keys do not move along: a
  key exempted on the input level is deleted on the output level.\<close>

theorem adjustRangeDeletes_moves:
  assumes "plrdf_inv s" "canonical B" "c \<noteq> l" "l \<le> length (rd_filter s) \<or> b = NDebug"
    "c < length (rd_filter s)" "B \<noteq> []"
  shows "\<exists>s'. adjustRangeDeletes b c l B s = Inr s' \<and> plrdf_inv s' \<and>
    dead s' = (dead s)(c := dead s c - cover B, l := dead s l \<union> (cover (rd_filter s ! c) \<inter> cover B))"
  using adjustRangeDeletes_ok[OF assms] .

theorem adjustRangeDeletes_moves_witness:
  "\<exists>s'. adjustRangeDeletes Debug 1 2 [(2, 9)] sample_filter = Inr s' \<and> 3 \<notin> dead sample_filter 1 \<and> 3 \<in> dead s' 2"
proof -
  obtain s' where "adjustRangeDeletes Debug 1 2 [(2, 9)] sample_filter = Inr s'"
    "dead s' = (dead sample_filter)(1 := dead sample_filter 1 - cover [(2, 9)],
       2 := dead sample_filter 2 \<union> (cover (rd_filter sample_filter ! 1) \<inter> cover [(2, 9)]))"
    using adjustRangeDeletes_moves[OF sample_filter_inv, of "[(2, 9)]" 1 2 Debug]
    by (auto simp: canonical_def sample_filter_len)
  moreover from this have "3 \<in> dead s' 2" by (simp add: sample_filter_def plrdf_empty_def cover_Cons)
  moreover have "3 \<notin> dead sample_filter 1" by (simp add: sample_filter_def plrdf_empty_def dead_def)
  ultimately show ?thesis by blast
qed

end
