(* ===== verification/Skyline_RDF.thy ===== *)
theory Skyline_RDF
  imports Cxx_Prelude
begin

text \<open>
  The class \<open>SkyLineRDF\<close> of include/rocksdb/sys_rdfilter.h: one list of segments
  \<open>(start, end, seq)\<close> in which every key has at most one sequence number, the largest of the
  range tombstones over it. \<open>addRangeTombstones\<close> sweeps over the starts with a priority queue of
  \<open>(seq, end)\<close>, here a list in descending order. The reference is \<open>max_seq\<close>, the maximum over
  all tombstones, and \<open>seg_ok\<close> the form of the list that makes the binary search of
  \<open>getMaxSeq\<close> right. \<open>t3ll\<close> and \<open>pll\<close> compare lexicographically, their components are
  \<open>int\<close> (the class only compares them).
\<close>

type_synonym tombstone = "int \<times> int \<times> int"

section \<open>State and operations\<close>

record skyline =
  rd_list :: "tombstone list"
  numbers_of_ranges_log :: "int list"
  memory_usage_log :: "int list"
  search_count :: u32
  may_deleted_count :: u32
  search_count_kmd :: u32
  flag_may_deleted :: bool

definition skyline_empty :: skyline where
  "skyline_empty = \<lparr>rd_list = [], numbers_of_ranges_log = [], memory_usage_log = [],
     search_count = 0, may_deleted_count = 0, search_count_kmd = 0, flag_may_deleted = False\<rparr>"

text \<open>\<open>std::priority_queue<pll>\<close>: \<open>top\<close> is the head, \<open>pop\<close> the tail.\<close>

fun pq_push :: "int \<times> int \<Rightarrow> (int \<times> int) list \<Rightarrow> (int \<times> int) list" where
  "pq_push p [] = [p]"
| "pq_push p (q # pq) = (if p \<ge> q then p # q # pq else q # pq_push p pq)"

text \<open>The inner \<open>while\<close> loop, for the start of the next tombstone: the segments it pushes to
  \<open>out_v\<close>, the new \<open>t_cur\<close> and the queue.\<close>

fun pop_loop :: "int \<Rightarrow> int \<Rightarrow> (int \<times> int) list \<Rightarrow> tombstone list \<times> int \<times> (int \<times> int) list" where
  "pop_loop start t_cur [] = ([], t_cur, [])"
| "pop_loop start t_cur ((seq2, end2) # pq) =
     (if end2 \<le> start then
        if end2 \<le> t_cur then pop_loop start t_cur pq
        else let (out_v, t, q) = pop_loop start end2 pq in ((t_cur, end2, seq2) # out_v, t, q)
      else ([], t_cur, (seq2, end2) # pq))"

fun drain_loop :: "int \<Rightarrow> (int \<times> int) list \<Rightarrow> tombstone list" where
  "drain_loop t_cur [] = []"
| "drain_loop t_cur ((seq2, end2) # pq) =
     (if end2 \<le> t_cur then drain_loop t_cur pq
      else (t_cur, end2, seq2) # drain_loop end2 pq)"

fun sweep_loop :: "tombstone list \<Rightarrow> int \<Rightarrow> (int \<times> int) list \<Rightarrow> tombstone list" where
  "sweep_loop [] t_cur pq = drain_loop t_cur pq"
| "sweep_loop ((start, stop, seq) # tmp_v) t_cur pq =
     (let (out_v, t, q) = pop_loop start t_cur pq
      in out_v @ (if q = [] then [] else [(t, start, fst (hd q))]) @
         sweep_loop tmp_v start (pq_push (seq, stop) q))"

text \<open>The loop that joins neighbours of the same sequence number; \<open>prev\<close> is \<open>out_v[i - 1]\<close>.\<close>

fun join_loop :: "tombstone \<Rightarrow> tombstone \<Rightarrow> tombstone list \<Rightarrow> tombstone list" where
  "join_loop (start, stop, seq) prev [] = [(start, stop, seq)]"
| "join_loop (start, stop, seq) prev (x # out_v) =
     (if fst (snd prev) = fst x \<and> snd (snd prev) = snd (snd x)
      then join_loop (start, fst (snd x), seq) x out_v
      else (start, stop, seq) # join_loop x x out_v)"

definition addRangeTombstones :: "tombstone list \<Rightarrow> skyline \<Rightarrow> skyline result" where
  "addRangeTombstones ranges s =
     (if ranges = [] then Inr s
      else let tmp_v = sort (ranges @ rd_list s);
               out_v = sweep_loop tmp_v (fst (hd tmp_v)) []
           in if out_v = [] then Inl Undefined_behaviour
              else Inr (s\<lparr>rd_list := join_loop (hd out_v) (hd out_v) (tl out_v)\<rparr>))"

definition getMaxSeq :: "int \<Rightarrow> skyline \<Rightarrow> int" where
  "getMaxSeq key s =
     (let it = lower_bound (\<lambda>a. fst (snd a) \<le> key) (rd_list s)
      in if it = length (rd_list s) then 0
         else let a = rd_list s ! it
              in if fst a \<le> key \<and> key < fst (snd a) then snd (snd a) else 0)"

definition skyline_clearFlagKeyMayDeleted :: "skyline \<Rightarrow> skyline" where
  "skyline_clearFlagKeyMayDeleted s = s\<lparr>flag_may_deleted := False, search_count_kmd := 0\<rparr>"

definition skyline_incKeySearchCountKMD :: "skyline \<Rightarrow> skyline" where
  "skyline_incKeySearchCountKMD s = s\<lparr>search_count_kmd := search_count_kmd s + 1\<rparr>"

definition skyline_incKeySearchCount :: "skyline \<Rightarrow> skyline" where
  "skyline_incKeySearchCount s = s\<lparr>search_count := search_count s + 1\<rparr>"

definition skyline_setFlagKeyMayDeleted :: "skyline \<Rightarrow> skyline" where
  "skyline_setFlagKeyMayDeleted s =
     s\<lparr>may_deleted_count := may_deleted_count s + 1, flag_may_deleted := True\<rparr>"

definition skyline_clearFilterFalsePositiveRate :: "skyline \<Rightarrow> skyline" where
  "skyline_clearFilterFalsePositiveRate s = s\<lparr>search_count := 0, may_deleted_count := 0\<rparr>"

definition skyline_checkProperUsage :: "skyline \<Rightarrow> unit result" where
  "skyline_checkProperUsage s = (if search_count_kmd s > 1 then Inl (Exit (-1)) else Inr ())"

definition skyline_getFlagKeyMayDeleted :: "skyline \<Rightarrow> bool result" where
  "skyline_getFlagKeyMayDeleted s = bind_res (skyline_checkProperUsage s) (\<lambda>_. Inr (flag_may_deleted s))"

definition skyline_isEntryAlive :: "int \<Rightarrow> int \<Rightarrow> skyline \<Rightarrow> bool \<times> skyline" where
  "skyline_isEntryAlive key seq s0 =
     (let s = skyline_incKeySearchCount (skyline_incKeySearchCountKMD (skyline_clearFlagKeyMayDeleted s0));
          skyline__max_seq = getMaxSeq key s
      in (seq \<ge> skyline__max_seq, s))"

text \<open>\<open>sizeof(t3ll)\<close> is 24.\<close>

definition skyline_getNumberOfTotalRanges :: "skyline \<Rightarrow> int" where
  "skyline_getNumberOfTotalRanges s = wrap32 (int (length (rd_list s)))"

definition skyline_getNumberOfTotalMemoryUsage :: "skyline \<Rightarrow> int" where
  "skyline_getNumberOfTotalMemoryUsage s = wrap32 (int (length (rd_list s)) * 24)"

definition skyline_logCurrentTotalNumbersOfRanges :: "skyline \<Rightarrow> skyline" where
  "skyline_logCurrentTotalNumbersOfRanges s =
     s\<lparr>numbers_of_ranges_log := numbers_of_ranges_log s @ [skyline_getNumberOfTotalRanges s]\<rparr>"

definition skyline_logCurrentTotalMemoryUsage :: "skyline \<Rightarrow> skyline" where
  "skyline_logCurrentTotalMemoryUsage s =
     s\<lparr>memory_usage_log := memory_usage_log s @ [skyline_getNumberOfTotalMemoryUsage s]\<rparr>"

section \<open>The reference and the form of the list\<close>

fun max_seq :: "tombstone list \<Rightarrow> int \<Rightarrow> int" where
  "max_seq [] k = 0"
| "max_seq ((s, e, q) # rs) k = (if s \<le> k \<and> k < e then max q (max_seq rs k) else max_seq rs k)"

fun queue_max :: "(int \<times> int) list \<Rightarrow> int \<Rightarrow> int" where
  "queue_max [] k = 0"
| "queue_max ((q, e) # pq) k = (if k < e then max q (queue_max pq k) else queue_max pq k)"

fun seg_ok :: "int \<Rightarrow> tombstone list \<Rightarrow> bool" where
  "seg_ok lo [] = True"
| "seg_ok lo ((s, e, q) # rs) = (lo \<le> s \<and> s \<le> e \<and> seg_ok e rs)"

definition seqs_ok :: "tombstone list \<Rightarrow> bool" where
  "seqs_ok rs \<longleftrightarrow> (\<forall>r \<in> set rs. 0 \<le> snd (snd r))"

definition queue_ok :: "(int \<times> int) list \<Rightarrow> bool" where
  "queue_ok pq \<longleftrightarrow> sorted_wrt (\<ge>) pq \<and> (\<forall>p \<in> set pq. 0 \<le> fst p)"

lemma max_seq_nonneg: "0 \<le> max_seq rs k"
  by (induction rs k rule: max_seq.induct) auto

lemma max_seq_append: "max_seq (xs @ ys) k = max (max_seq xs k) (max_seq ys k)"
  by (induction xs k rule: max_seq.induct) (auto simp: max_seq_nonneg max.absorb2)

lemma max_seq_le_iff:
  "max_seq rs k \<le> b \<longleftrightarrow> 0 \<le> b \<and> (\<forall>(s, e, q) \<in> set rs. s \<le> k \<and> k < e \<longrightarrow> q \<le> b)"
  by (induction rs k rule: max_seq.induct) auto

lemma max_seq_set: "set xs = set ys \<Longrightarrow> max_seq xs k = max_seq ys k"
  by (rule antisym) (simp_all add: max_seq_le_iff max_seq_nonneg, (use max_seq_le_iff max_seq_nonneg in \<open>metis order.refl\<close>)+)

lemma max_seq_below: "(\<And>r. r \<in> set rs \<Longrightarrow> k < fst r) \<Longrightarrow> max_seq rs k = 0"
  by (induction rs k rule: max_seq.induct) force+

lemma seg_ok_mono: "seg_ok lo rs \<Longrightarrow> lo' \<le> lo \<Longrightarrow> seg_ok lo' rs"
  by (cases rs) auto

lemma seg_ok_start: "seg_ok lo rs \<Longrightarrow> r \<in> set rs \<Longrightarrow> lo \<le> fst r"
  by (induction lo rs rule: seg_ok.induct) auto

lemma seg_ok_below: "seg_ok lo rs \<Longrightarrow> k < lo \<Longrightarrow> max_seq rs k = 0"
  by (rule max_seq_below) (auto dest: seg_ok_start)

lemma queue_max_nonneg: "0 \<le> queue_max pq k"
  by (induction pq k rule: queue_max.induct) auto

lemma queue_max_le: "\<forall>p \<in> set pq. fst p \<le> b \<Longrightarrow> 0 \<le> b \<Longrightarrow> queue_max pq k \<le> b"
  by (induction pq k rule: queue_max.induct) auto

lemma queue_ok_Cons: "queue_ok (p # pq) \<longleftrightarrow> 0 \<le> fst p \<and> (\<forall>q \<in> set pq. q \<le> p) \<and> queue_ok pq"
  by (auto simp: queue_ok_def)

text \<open>While the top of the queue has not ended it is the maximum.\<close>

lemma queue_max_top: "queue_ok ((q, e) # pq) \<Longrightarrow> k < e \<Longrightarrow> queue_max ((q, e) # pq) k = q"
proof -
  assume ok: "queue_ok ((q, e) # pq)" and "k < e"
  have "\<forall>p \<in> set pq. fst p \<le> q" using ok by (auto simp: queue_ok_Cons less_eq_prod_def)
  then have "queue_max pq k \<le> q" using queue_max_le ok by (simp add: queue_ok_Cons)
  then show ?thesis using \<open>k < e\<close> by simp
qed

lemma set_pq_push [simp]: "set (pq_push p pq) = insert p (set pq)"
  by (induction p pq rule: pq_push.induct) auto

lemma queue_ok_push: "queue_ok pq \<Longrightarrow> 0 \<le> fst p \<Longrightarrow> queue_ok (pq_push p pq)"
proof (induction p pq rule: pq_push.induct)
  case (2 p q pq)
  show ?case
  proof (cases "p \<ge> q")
    case True
    then have "\<forall>r \<in> set (q # pq). r \<le> p" using "2.prems"(1) order.trans[OF _ True] by (simp add: queue_ok_Cons)
    then show ?thesis using True "2.prems" by (simp add: queue_ok_Cons[of p])
  next
    case False
    then have "p \<le> q" using linear[of p q] by blast
    then show ?thesis using False 2 by (simp add: queue_ok_Cons[of q])
  qed
qed (simp add: queue_ok_def)

lemma queue_max_push: "queue_max (pq_push (q, e) pq) k = (if k < e then max q (queue_max pq k) else queue_max pq k)"
  by (induction "(q, e)" pq rule: pq_push.induct) auto

section \<open>The sweep\<close>

lemma drain_loop_ok:
  "queue_ok pq \<Longrightarrow> seg_ok t (drain_loop t pq) \<and> (\<forall>k \<ge> t. max_seq (drain_loop t pq) k = queue_max pq k)"
proof (induction t pq rule: drain_loop.induct)
  case (2 t q e pq)
  have pq: "queue_ok pq" using "2.prems" by (simp add: queue_ok_Cons)
  show ?case
  proof (cases "e \<le> t")
    case True
    then show ?thesis using "2.IH"(1)[OF True pq] by auto
  next
    case False
    then have IH: "seg_ok e (drain_loop e pq)" "\<forall>k \<ge> e. max_seq (drain_loop e pq) k = queue_max pq k"
      using "2.IH"(2)[OF False pq] by auto
    have "max_seq (drain_loop t ((q, e) # pq)) k = queue_max ((q, e) # pq) k" if "t \<le> k" for k
    proof (cases "k < e")
      case T: True
      have "0 \<le> q" using "2.prems" by (simp add: queue_ok_Cons)
      then show ?thesis using False T that seg_ok_below[OF IH(1) T] queue_max_top[OF "2.prems" T] by simp
    next
      case F: False
      then show ?thesis using False IH(2) by simp
    qed
    then show ?thesis using False IH(1) by simp
  qed
qed simp

lemma pop_loop_ok:
  assumes "queue_ok pq" "t \<le> start" "pop_loop start t pq = (o1, t1, pq1)"
  shows "t \<le> t1 \<and> t1 \<le> start \<and> queue_ok pq1 \<and> (pq1 \<noteq> [] \<longrightarrow> start < snd (hd pq1)) \<and>
    (\<forall>k. t \<le> k \<and> k < t1 \<longrightarrow> max_seq o1 k = queue_max pq k) \<and>
    (\<forall>k \<ge> t1. queue_max pq1 k = queue_max pq k \<and> max_seq o1 k = 0) \<and>
    (\<forall>rest. seg_ok t1 rest \<longrightarrow> seg_ok t (o1 @ rest))"
  using assms
proof (induction start t pq arbitrary: o1 rule: pop_loop.induct)
  case (2 start t q e pq)
  have pq: "queue_ok pq" and q: "0 \<le> q" using "2.prems"(1) by (auto simp: queue_ok_Cons)
  consider (stay) "start < e" | (skip) "e \<le> start" "e \<le> t" | (emit) "e \<le> start" "t < e" by linarith
  then show ?case
  proof cases
    case stay
    then show ?thesis using "2.prems" by auto
  next
    case skip
    then show ?thesis using "2.IH"(1)[OF skip pq "2.prems"(2)] "2.prems"(3) by auto
  next
    case emit
    obtain o2 where o2: "pop_loop start e pq = (o2, t1, pq1)" "o1 = (t, e, q) # o2"
      using emit "2.prems"(3) by (auto split: prod.splits)
    have IH: "e \<le> t1 \<and> t1 \<le> start \<and> queue_ok pq1 \<and> (pq1 \<noteq> [] \<longrightarrow> start < snd (hd pq1)) \<and>
        (\<forall>k. e \<le> k \<and> k < t1 \<longrightarrow> max_seq o2 k = queue_max pq k) \<and>
        (\<forall>k \<ge> t1. queue_max pq1 k = queue_max pq k \<and> max_seq o2 k = 0) \<and>
        (\<forall>rest. seg_ok t1 rest \<longrightarrow> seg_ok e (o2 @ rest))"
      using "2.IH"(2)[OF emit(1) _ pq emit(1) o2(1)] emit by simp
    then have "seg_ok e o2" by (metis append_Nil2 seg_ok.simps(1))
    then have "max_seq o1 k = queue_max ((q, e) # pq) k" if "t \<le> k" "k < e" for k
      using that o2(2) seg_ok_below[of e o2 k] queue_max_top[OF "2.prems"(1), of k] q by simp
    then show ?thesis using IH o2(2) emit by (auto simp: not_less)
  qed
qed simp

lemma sweep_loop_ok:
  "sorted (map fst xs) \<Longrightarrow> (\<forall>x \<in> set xs. t \<le> fst x) \<Longrightarrow> seqs_ok xs \<Longrightarrow> queue_ok pq \<Longrightarrow>
   seg_ok t (sweep_loop xs t pq) \<and>
   (\<forall>k \<ge> t. max_seq (sweep_loop xs t pq) k = max (queue_max pq k) (max_seq xs k))"
proof (induction xs t pq rule: sweep_loop.induct)
  case (1 t pq)
  then show ?case using drain_loop_ok[of pq t] by (simp add: max.absorb1 queue_max_nonneg)
next
  case (2 s e q xs t pq)
  obtain o1 t1 pq1 where pop: "pop_loop s t pq = (o1, t1, pq1)" by (metis prod_cases3)
  have pop_ok: "t \<le> t1 \<and> t1 \<le> s \<and> queue_ok pq1 \<and> (pq1 \<noteq> [] \<longrightarrow> s < snd (hd pq1)) \<and>
    (\<forall>k. t \<le> k \<and> k < t1 \<longrightarrow> max_seq o1 k = queue_max pq k) \<and>
    (\<forall>k \<ge> t1. queue_max pq1 k = queue_max pq k \<and> max_seq o1 k = 0) \<and>
    (\<forall>rest. seg_ok t1 rest \<longrightarrow> seg_ok t (o1 @ rest))"
    using pop_loop_ok[OF "2.prems"(4) _ pop] "2.prems"(2) by simp
  let ?mid = "if pq1 = [] then [] else [(t1, s, fst (hd pq1))]"
  let ?rest = "sweep_loop xs s (pq_push (q, e) pq1)"
  have IH: "seg_ok s ?rest" "\<forall>k \<ge> s. max_seq ?rest k = max (queue_max (pq_push (q, e) pq1) k) (max_seq xs k)"
    using "2.IH"[OF pop[symmetric] refl refl] "2.prems" pop_ok queue_ok_push[of pq1 "(q, e)"]
    by (auto simp: seqs_ok_def)
  have out: "sweep_loop ((s, e, q) # xs) t pq = o1 @ ?mid @ ?rest" by (simp add: pop)
  have "seg_ok t1 (?mid @ ?rest)" using IH(1) pop_ok seg_ok_mono[OF IH(1), of t1] by (cases "pq1 = []") simp_all
  then have seg: "seg_ok t (o1 @ ?mid @ ?rest)" using pop_ok by blast
  have "max_seq (o1 @ ?mid @ ?rest) k = max (queue_max pq k) (max_seq ((s, e, q) # xs) k)" if k: "t \<le> k" for k
  proof -
    consider (a) "k < t1" | (b) "t1 \<le> k" "k < s" | (c) "s \<le> k" by linarith
    then show ?thesis
    proof cases
      case a
      have "max_seq (?mid @ ?rest) k = 0" using seg_ok_below[OF \<open>seg_ok t1 (?mid @ ?rest)\<close> a] .
      moreover have "max_seq ((s, e, q) # xs) k = 0"
        by (rule max_seq_below) (use a pop_ok "2.prems"(1) in auto)
      ultimately show ?thesis using a k pop_ok by (simp add: max_seq_append[of o1] queue_max_nonneg max_seq_nonneg)
    next
      case b
      have "max_seq ?rest k = 0" using seg_ok_below[OF IH(1) b(2)] .
      moreover have "max_seq ((s, e, q) # xs) k = 0"
        by (rule max_seq_below) (use b "2.prems"(1) in auto)
      moreover have "max_seq ?mid k = queue_max pq1 k"
        using pop_ok b queue_max_top[of "fst (hd pq1)" "snd (hd pq1)" "tl pq1" k] queue_max_nonneg[of pq1 k]
        by (cases pq1) auto
      ultimately show ?thesis using b pop_ok by (simp add: max_seq_append queue_max_nonneg)
    next
      case c
      then have "max_seq ?mid k = 0" by simp
      then have "max_seq (o1 @ ?mid @ ?rest) k = max (queue_max (pq_push (q, e) pq1) k) (max_seq xs k)"
        using c pop_ok IH(2) max_seq_nonneg[of ?rest k] by (simp add: max_seq_append max.absorb2)
      moreover have "queue_max pq1 k = queue_max pq k" using c pop_ok by simp
      ultimately show ?thesis using c by (simp add: queue_max_push ac_simps)
    qed
  qed
  then show ?case using seg out by simp
qed

text \<open>A tombstone that is not empty leaves a segment.\<close>

lemma drain_loop_nonempty: "(q, e) \<in> set pq \<Longrightarrow> t < e \<Longrightarrow> drain_loop t pq \<noteq> []"
  by (induction t pq rule: drain_loop.induct) auto

lemma pop_loop_nonempty:
  "pop_loop s t pq = ([], t1, pq1) \<Longrightarrow> (q, e) \<in> set pq \<Longrightarrow> t < e \<Longrightarrow> pq1 \<noteq> []"
  by (induction s t pq rule: pop_loop.induct) (auto split: if_splits prod.splits)

lemma sweep_loop_nonempty:
  "(\<exists>p \<in> set pq. t < snd p) \<or> (\<exists>x \<in> set xs. fst x < fst (snd x)) \<Longrightarrow> sweep_loop xs t pq \<noteq> []"
proof (induction xs t pq rule: sweep_loop.induct)
  case (1 t pq)
  then show ?case using drain_loop_nonempty by fastforce
next
  case (2 s e q xs t pq)
  obtain o1 t1 pq1 where pop: "pop_loop s t pq = (o1, t1, pq1)" by (metis prod_cases3)
  show ?case
  proof (cases "o1 = [] \<and> pq1 = []")
    case True
    then have "\<not> (\<exists>p \<in> set pq. t < snd p)" using pop_loop_nonempty pop by fastforce
    then have "(\<exists>p \<in> set (pq_push (q, e) pq1). s < snd p) \<or> (\<exists>x \<in> set xs. fst x < fst (snd x))"
      using "2.prems" by auto
    then show ?thesis using "2.IH"[OF pop[symmetric] refl refl] pop by simp
  qed (use pop in auto)
qed

section \<open>Joining and looking up\<close>

lemma join_loop_ok:
  "seg_ok lo ((s, e, q) # out) \<Longrightarrow> fst (snd prev) = e \<Longrightarrow> snd (snd prev) = q \<Longrightarrow> seqs_ok ((s, e, q) # out) \<Longrightarrow>
   seg_ok lo (join_loop (s, e, q) prev out) \<and> seqs_ok (join_loop (s, e, q) prev out) \<and>
   (\<forall>k. max_seq (join_loop (s, e, q) prev out) k = max_seq ((s, e, q) # out) k)"
proof (induction out arbitrary: lo s e q prev)
  case (Cons x out)
  obtain s' e' q' where x: "x = (s', e', q')" by (metis prod_cases3)
  show ?case
  proof (cases "e = s' \<and> q = q'")
    case True
    have IH: "seg_ok lo (join_loop (s, e', q) x out) \<and> seqs_ok (join_loop (s, e', q) x out) \<and>
        (\<forall>k. max_seq (join_loop (s, e', q) x out) k = max_seq ((s, e', q) # out) k)"
      by (rule Cons.IH) (use Cons.prems True x in \<open>auto simp: seqs_ok_def\<close>)
    have "max_seq ((s, e', q) # out) k = max_seq ((s, e, q) # x # out) k" for k
    proof (cases "e' \<le> k")
      case False
      have "seg_ok e' out" "s \<le> e" "e \<le> e'" using Cons.prems(1) x True by auto
      then show ?thesis using False x True seg_ok_below[of e' out k] by auto
    qed (use Cons.prems(1) x True in auto)
    then show ?thesis using IH True x Cons.prems(2,3) by simp
  next
    case False
    have "seg_ok e (join_loop x x out) \<and> seqs_ok (join_loop x x out) \<and>
        (\<forall>k. max_seq (join_loop x x out) k = max_seq (x # out) k)"
      unfolding x by (rule Cons.IH) (use Cons.prems x in \<open>auto simp: seqs_ok_def\<close>)
    then show ?thesis using False x Cons.prems by (auto simp: seqs_ok_def)
  qed
qed simp

lemma join_loop_hd: "join_loop (s, e, q) prev out \<noteq> [] \<and> fst (hd (join_loop (s, e, q) prev out)) = s"
  by (induction out arbitrary: e q prev) auto

lemma drain_loop_seqs: "\<forall>p \<in> set pq. 0 \<le> fst p \<Longrightarrow> seqs_ok (drain_loop t pq)"
  by (induction t pq rule: drain_loop.induct) (auto simp: seqs_ok_def)

lemma pop_loop_seqs:
  "\<forall>p \<in> set pq. 0 \<le> fst p \<Longrightarrow> pop_loop s t pq = (o1, t1, pq1) \<Longrightarrow> seqs_ok o1 \<and> set pq1 \<subseteq> set pq"
  by (induction s t pq arbitrary: o1 rule: pop_loop.induct) (fastforce simp: seqs_ok_def split: if_splits prod.splits)+

lemma sweep_loop_seqs: "seqs_ok xs \<Longrightarrow> \<forall>p \<in> set pq. 0 \<le> fst p \<Longrightarrow> seqs_ok (sweep_loop xs t pq)"
proof (induction xs t pq rule: sweep_loop.induct)
  case (2 s e q xs t pq)
  obtain o1 t1 pq1 where pop: "pop_loop s t pq = (o1, t1, pq1)" by (metis prod_cases3)
  have o1: "seqs_ok o1" "\<forall>p \<in> set pq1. 0 \<le> fst p" using pop_loop_seqs[OF "2.prems"(2) pop] "2.prems"(2) by auto
  then have "pq1 \<noteq> [] \<Longrightarrow> 0 \<le> fst (hd pq1)" by (cases pq1) auto
  moreover have "seqs_ok (sweep_loop xs s (pq_push (q, e) pq1))"
    using "2.IH"[OF pop[symmetric] refl refl] "2.prems"(1) o1(2) by (simp add: seqs_ok_def)
  ultimately show ?case using o1(1) pop by (auto simp: seqs_ok_def)
qed (simp add: drain_loop_seqs)

lemma seg_ok_partitioned: "seg_ok lo rs \<Longrightarrow> partitioned (\<lambda>a. fst (snd a) \<le> k) rs"
proof (induction lo rs rule: seg_ok.induct)
  case (2 lo s e q rs)
  have "e \<le> fst (snd r)" if "r \<in> set rs" for r
    using that "2.prems" by (induction e rs rule: seg_ok.induct) auto
  then show ?case using 2 by (force simp: partitioned_def)
qed (simp add: partitioned_def)

definition sky_look :: "tombstone list \<Rightarrow> int \<Rightarrow> nat \<Rightarrow> int" where
  "sky_look rs k it =
     (if it = length rs then 0
      else if fst (rs ! it) \<le> k \<and> k < fst (snd (rs ! it)) then snd (snd (rs ! it)) else 0)"

lemma sky_look_Cons [simp]: "sky_look (x # rs) k (Suc i) = sky_look rs k i"
  by (simp add: sky_look_def)

lemma sky_look_ok:
  "seg_ok lo rs \<Longrightarrow> seqs_ok rs \<Longrightarrow> sky_look rs k (length (takeWhile (\<lambda>a. fst (snd a) \<le> k) rs)) = max_seq rs k"
proof (induction lo rs rule: seg_ok.induct)
  case (2 lo s e q rs)
  then have rs: "seg_ok e rs" "seqs_ok rs" "0 \<le> q" by (auto simp: seqs_ok_def)
  show ?case
  proof (cases "e \<le> k")
    case True
    then show ?thesis using "2.IH"[OF rs(1,2)] by simp
  next
    case False
    then show ?thesis using seg_ok_below[OF rs(1), of k] rs(3) by (simp add: sky_look_def)
  qed
qed (simp add: sky_look_def)

lemma getMaxSeq_ok:
  assumes "seg_ok lo (rd_list s)" "seqs_ok (rd_list s)"
  shows "getMaxSeq k s = max_seq (rd_list s) k"
proof -
  have "getMaxSeq k s = sky_look (rd_list s) k (lower_bound (\<lambda>a. fst (snd a) \<le> k) (rd_list s))"
    unfolding getMaxSeq_def sky_look_def Let_def ..
  also have "\<dots> = max_seq (rd_list s) k"
    unfolding lower_bound_takeWhile[OF seg_ok_partitioned[OF assms(1), of k]] by (rule sky_look_ok[OF assms])
  finally show ?thesis .
qed

section \<open>The filter keeps the largest sequence number over every key\<close>

definition skyline_inv :: "skyline \<Rightarrow> bool" where
  "skyline_inv s \<longleftrightarrow> (rd_list s \<noteq> [] \<longrightarrow> seg_ok (fst (hd (rd_list s))) (rd_list s)) \<and> seqs_ok (rd_list s)"

lemma skyline_inv_empty: "skyline_inv skyline_empty"
  by (simp add: skyline_inv_def skyline_empty_def seqs_ok_def)

lemma skyline_getMaxSeq: "skyline_inv s \<Longrightarrow> getMaxSeq k s = max_seq (rd_list s) k"
proof (cases "rd_list s = []")
  case True
  then show ?thesis by (simp add: getMaxSeq_def lower_bound_def lb_loop.simps[of _ _ _ 0])
qed (auto simp: skyline_inv_def intro: getMaxSeq_ok)

lemma sorted_starts: "sorted xs \<Longrightarrow> sorted (map fst xs)" for xs :: "('a::linorder \<times> 'b::linorder) list"
  unfolding sorted_map by (erule sorted_wrt_mono_rel[rotated]) (auto simp: less_eq_prod_def)

lemma addRangeTombstones_ok:
  assumes "skyline_inv s" "seqs_ok rs" "\<exists>r \<in> set rs. fst r < fst (snd r)"
  shows "\<exists>s'. addRangeTombstones rs s = Inr s' \<and> skyline_inv s' \<and>
    (\<forall>k. max_seq (rd_list s') k = max (max_seq (rd_list s) k) (max_seq rs k))"
proof -
  let ?tmp = "sort (rs @ rd_list s)"
  let ?t = "fst (hd ?tmp)"
  let ?out = "sweep_loop ?tmp ?t []"
  have sorted: "sorted (map fst ?tmp)" by (rule sorted_starts) simp
  have ne: "?tmp \<noteq> []" using assms(3) by (metis append_is_Nil_conv emptyE set_empty set_sort)
  then have lo: "\<forall>x \<in> set ?tmp. ?t \<le> fst x" using sorted by (cases ?tmp) auto
  have seqs: "seqs_ok ?tmp" using assms(1,2) by (auto simp: seqs_ok_def skyline_inv_def)
  have q: "queue_ok []" by (simp add: queue_ok_def)
  have out: "seg_ok ?t ?out" "\<forall>k \<ge> ?t. max_seq ?out k = max_seq ?tmp k"
    using sweep_loop_ok[OF sorted lo seqs q] max_seq_nonneg by (auto simp: max.absorb2)
  have "\<exists>x \<in> set ?tmp. fst x < fst (snd x)" using assms(3) by auto
  then have "?out \<noteq> []" using sweep_loop_nonempty by blast
  then obtain st en sq rest where o: "?out = (st, en, sq) # rest" by (metis neq_Nil_conv prod_cases3)
  have oseqs: "seqs_ok ?out" using sweep_loop_seqs[OF seqs] by simp
  have j: "seg_ok st (join_loop (st, en, sq) (st, en, sq) rest) \<and>
      seqs_ok (join_loop (st, en, sq) (st, en, sq) rest) \<and>
      (\<forall>k. max_seq (join_loop (st, en, sq) (st, en, sq) rest) k = max_seq ?out k)"
    using join_loop_ok[of st st en sq rest] out(1) oseqs o by auto
  have eq: "max_seq ?out k = max (max_seq (rd_list s) k) (max_seq rs k)" for k
  proof -
    have "max_seq ?out k = max_seq ?tmp k"
    proof (cases "?t \<le> k")
      case False
      then show ?thesis using seg_ok_below[OF out(1)] max_seq_below[of ?tmp k] lo by fastforce
    qed (use out(2) in simp)
    also have "\<dots> = max_seq (rs @ rd_list s) k" by (rule max_seq_set) simp
    finally show ?thesis by (simp add: max_seq_append max.commute)
  qed
  have "rs \<noteq> []" using assms(3) by auto
  then show ?thesis
    using j eq o join_loop_hd[of st en sq "(st, en, sq)" rest]
    by (auto simp: addRangeTombstones_def Let_def skyline_inv_def)
qed

text \<open>A batch of empty tombstones added to an empty filter leaves no segment, and
  \<open>out_v[0]\<close> is read all the same.\<close>

lemma pop_loop_ended: "\<forall>p \<in> set pq. snd p \<le> t \<Longrightarrow> t \<le> s \<Longrightarrow> pop_loop s t pq = ([], t, [])"
  by (induction s t pq rule: pop_loop.induct) auto

lemma drain_loop_ended: "\<forall>p \<in> set pq. snd p \<le> t \<Longrightarrow> drain_loop t pq = []"
  by (induction t pq rule: drain_loop.induct) auto

lemma sweep_loop_ended:
  "sorted (map fst xs) \<Longrightarrow> \<forall>x \<in> set xs. t \<le> fst x \<and> fst (snd x) \<le> fst x \<Longrightarrow> \<forall>p \<in> set pq. snd p \<le> t \<Longrightarrow>
   sweep_loop xs t pq = []"
proof (induction xs t pq rule: sweep_loop.induct)
  case (2 s e q xs t pq)
  have pop: "pop_loop s t pq = ([], t, [])" using pop_loop_ended "2.prems"(2,3) by simp
  show ?case using "2.IH"[OF pop[symmetric] refl refl] "2.prems"(1,2) pop by simp
qed (simp add: drain_loop_ended)

lemma addRangeTombstones_empty_batch:
  assumes "rd_list s = []" "rs \<noteq> []" "\<forall>r \<in> set rs. fst (snd r) \<le> fst r"
  shows "addRangeTombstones rs s = Inl Undefined_behaviour"
proof -
  have s: "sorted (map fst (sort rs))" by (rule sorted_starts) simp
  have "sort rs \<noteq> []" using assms(2) by (metis set_empty set_sort)
  then have "\<forall>x \<in> set (sort rs). fst (hd (sort rs)) \<le> fst x" using s by (cases "sort rs") auto
  then have "sweep_loop (sort rs) (fst (hd (sort rs))) [] = []"
    using sweep_loop_ended[OF s] assms(3) by simp
  then show ?thesis using assms(1,2) by (simp add: addRangeTombstones_def)
qed

section \<open>The interface\<close>

locale tombstone_filter =
  fixes inv :: "'s \<Rightarrow> bool"
    and height :: "'s \<Rightarrow> int \<Rightarrow> int"
    and add :: "tombstone list \<Rightarrow> 's \<Rightarrow> 's result"
    and query :: "int \<Rightarrow> int \<Rightarrow> 's \<Rightarrow> bool \<times> 's"
  assumes add_law: "inv s \<Longrightarrow> seqs_ok rs \<Longrightarrow> \<exists>r \<in> set rs. fst r < fst (snd r) \<Longrightarrow>
      \<exists>s'. add rs s = Inr s' \<and> inv s' \<and> (\<forall>k. height s' k = max (height s k) (max_seq rs k))"
    and query_law: "inv s \<Longrightarrow> \<exists>s'. query k q s = (height s k \<le> q, s') \<and> inv s' \<and> height s' = height s"
    and height_nonneg: "inv s \<Longrightarrow> 0 \<le> height s k"
begin

lemma add_batches:
  assumes "inv s" "\<forall>rs \<in> set batches. seqs_ok rs \<and> (\<exists>r \<in> set rs. fst r < fst (snd r))"
  shows "\<exists>s'. fold_res add batches s = Inr s' \<and> inv s' \<and>
    (\<forall>k. height s' k = max (height s k) (max_seq (concat batches) k))"
  using assms
proof (induction batches arbitrary: s)
  case Nil
  then show ?case using height_nonneg by (simp add: max.absorb1)
next
  case (Cons rs batches)
  obtain s1 where s1: "add rs s = Inr s1" "inv s1" "\<forall>k. height s1 k = max (height s k) (max_seq rs k)"
    using add_law[of s rs] Cons.prems by auto
  obtain s2 where "fold_res add batches s1 = Inr s2" "inv s2"
    "\<forall>k. height s2 k = max (height s1 k) (max_seq (concat batches) k)"
    using Cons.IH[OF s1(2)] Cons.prems(2) by auto
  then show ?case using s1 by (auto simp: max_seq_append max.assoc)
qed

text \<open>An entry is alive exactly when no tombstone over its key is newer.\<close>

lemma alive_iff_not_shadowed:
  assumes "inv s" "\<forall>k. height s k = 0" "\<forall>rs \<in> set batches. seqs_ok rs \<and> (\<exists>r \<in> set rs. fst r < fst (snd r))" "0 \<le> q"
  shows "\<exists>s' s''. fold_res add batches s = Inr s' \<and>
    query k q s' = ((\<forall>(b, e, q') \<in> set (concat batches). b \<le> k \<and> k < e \<longrightarrow> q' \<le> q), s'')"
proof -
  obtain s' where s': "fold_res add batches s = Inr s'" "inv s'" "height s' k = max_seq (concat batches) k"
    using add_batches[OF assms(1,3)] assms(2) max_seq_nonneg by (auto simp: max.absorb2)
  then show ?thesis using query_law[OF s'(2), of k q] assms(4) by (auto simp: max_seq_le_iff)
qed

end

lemma skyline_isEntryAlive_ok:
  assumes "skyline_inv s"
  shows "\<exists>s'. skyline_isEntryAlive k q s = (max_seq (rd_list s) k \<le> q, s') \<and> rd_list s' = rd_list s"
proof -
  let ?s = "skyline_incKeySearchCount (skyline_incKeySearchCountKMD (skyline_clearFlagKeyMayDeleted s))"
  have rd: "rd_list ?s = rd_list s"
    by (simp add: skyline_incKeySearchCount_def skyline_incKeySearchCountKMD_def skyline_clearFlagKeyMayDeleted_def)
  then have "skyline_inv ?s" using assms by (simp add: skyline_inv_def)
  then show ?thesis using skyline_getMaxSeq rd by (simp add: skyline_isEntryAlive_def Let_def)
qed

interpretation sky: tombstone_filter skyline_inv "\<lambda>s. max_seq (rd_list s)" addRangeTombstones skyline_isEntryAlive
proof (unfold_locales, goal_cases)
  case (1 s rs)
  then show ?case by (rule addRangeTombstones_ok)
next
  case (2 s k q)
  then show ?case using skyline_isEntryAlive_ok[of s k q] by (auto simp: skyline_inv_def)
next
  case (3 s k)
  then show ?case by (simp add: max_seq_nonneg)
qed

section \<open>Properties\<close>

text \<open>C10: After any sequence of batches of range tombstones an entry is reported alive exactly when no
  tombstone over its key is newer than it.\<close>

theorem skyline_alive_iff:
  assumes "\<forall>rs \<in> set batches. seqs_ok rs \<and> (\<exists>r \<in> set rs. fst r < fst (snd r))" "0 \<le> q"
  shows "\<exists>s s'. fold_res addRangeTombstones batches skyline_empty = Inr s \<and>
    skyline_isEntryAlive k q s = ((\<forall>(b, e, q') \<in> set (concat batches). b \<le> k \<and> k < e \<longrightarrow> q' \<le> q), s')"
  using sky.alive_iff_not_shadowed[OF skyline_inv_empty _ assms, of k] by (simp add: skyline_empty_def)

theorem skyline_alive_iff_witness:
  "\<exists>s s'. fold_res addRangeTombstones [[(1, 5, 7), (3, 9, 4)], [(2, 4, 6)]] skyline_empty = Inr s \<and>
    skyline_isEntryAlive 5 4 s = (True, s')"
  using skyline_alive_iff[of "[[(1, 5, 7), (3, 9, 4)], [(2, 4, 6)]]" 4 5] by (simp add: seqs_ok_def)

text \<open>C20: Adding a batch keeps the list in the form the binary search needs and gives every key the
  larger of its old sequence number and the largest of the batch over it.\<close>

theorem addRangeTombstones_max:
  assumes "skyline_inv s" "seqs_ok rs" "\<exists>r \<in> set rs. fst r < fst (snd r)"
  shows "\<exists>s'. addRangeTombstones rs s = Inr s' \<and> skyline_inv s' \<and>
    (\<forall>k. getMaxSeq k s' = max (getMaxSeq k s) (max_seq rs k))"
  using addRangeTombstones_ok[OF assms] skyline_getMaxSeq assms(1) by auto

theorem addRangeTombstones_max_witness:
  "\<exists>s'. addRangeTombstones [(1, 5, 7), (3, 9, 4)] skyline_empty = Inr s' \<and> getMaxSeq 6 s' = 4 \<and> getMaxSeq 4 s' = 7"
  using addRangeTombstones_max[OF skyline_inv_empty, of "[(1, 5, 7), (3, 9, 4)]"] skyline_getMaxSeq[OF skyline_inv_empty]
  by (auto simp: seqs_ok_def skyline_empty_def)

text \<open>A batch of empty ranges added to an empty skyline reads \<open>out_v[0]\<close> of an empty vector.\<close>

theorem addRangeTombstones_empty_ranges:
  assumes "rd_list s = []" "rs \<noteq> []" "\<forall>r \<in> set rs. fst (snd r) \<le> fst r"
  shows "addRangeTombstones rs s = Inl Undefined_behaviour"
  using addRangeTombstones_empty_batch[OF assms] .

theorem addRangeTombstones_empty_ranges_witness:
  "addRangeTombstones [(4, 4, 1)] skyline_empty = Inl Undefined_behaviour"
  by (rule addRangeTombstones_empty_ranges) (simp_all add: skyline_empty_def)

end
