(* ===== verification/SuRF_Utils.thy ===== *)
theory SuRF_Utils
  imports Cxx_Prelude "HOL-Library.Sublist"
begin

text \<open>
  The class \<open>SuRF_Utils\<close> of SuRF/include/surf.hpp: the conversion between decimal key strings
  and byte strings that the SuRF filters store (\<open>encode_digit_string_to_byte_string\<close>,
  \<open>decode_byte_string_to_digit_string\<close>, \<open>extend_string_to_length\<close>) and the truncation of keys
  to their first differing characters. Both conversions are repeated long division of a number kept
  in \<open>uint64_t\<close> limbs: base \<open>10^15\<close> to base 256 and base \<open>256^7\<close> to base 10. \<open>uint64_t\<close> is
  \<open>nat\<close> with the wrap-around written out (\<open>u64\<close>); the multiplications with \<open>pow\<close> are exact in
  \<open>double\<close> because their left operand is below 256 (below 10).

  The lemmas show that the number is preserved, that decoding undoes encoding, and that encoded
  keys of one length compare like the numbers.
\<close>

section \<open>Parsing numbers\<close>

definition is_space :: "char \<Rightarrow> bool" where
  "is_space c \<longleftrightarrow> c = CHR '' '' \<or> c = CHR 0x09 \<or> c = CHR 0x0A \<or> c = CHR 0x0B \<or> c = CHR 0x0C \<or> c = CHR 0x0D"

definition is_digit :: "char \<Rightarrow> bool" where
  "is_digit c \<longleftrightarrow> CHR ''0'' \<le> c \<and> c \<le> CHR ''9''"

definition digit_of :: "char \<Rightarrow> nat" where
  "digit_of c = of_char c - 48"

definition value_of :: "nat \<Rightarrow> nat list \<Rightarrow> nat" where
  "value_of R ds = foldl (\<lambda>v d. v * R + d) 0 ds"

definition split_sign :: "string \<Rightarrow> bool \<times> string" where
  "split_sign s =
     (case s of [] \<Rightarrow> (False, [])
      | c # r \<Rightarrow> if c = CHR ''-'' then (True, r) else if c = CHR ''+'' then (False, r) else (False, s))"

definition stoull :: "string \<Rightarrow> nat result" where
  "stoull s =
     (let (neg, t) = split_sign (dropWhile is_space s);
          ds = takeWhile is_digit t;
          n = value_of 10 (map digit_of ds)
      in if ds = [] then Inl Invalid_argument
         else if n \<ge> 2 ^ 64 then Inl Out_of_range
         else Inr (if neg then (2 ^ 64 - n) mod 2 ^ 64 else n))"

definition stoll :: "string \<Rightarrow> int result" where
  "stoll s =
     (let (neg, t) = split_sign (dropWhile is_space s);
          ds = takeWhile is_digit t;
          n = int (value_of 10 (map digit_of ds));
          v = (if neg then - n else n)
      in if ds = [] then Inl Invalid_argument
         else if v < - (2 ^ 63) \<or> v \<ge> 2 ^ 63 then Inl Out_of_range
         else Inr v)"

section \<open>Changing the base\<close>

definition u64 :: "nat \<Rightarrow> nat" where
  "u64 x = x mod 2 ^ 64"

definition u64_of :: "int \<Rightarrow> nat" where
  "u64_of x = nat (x mod 2 ^ 64)"

text \<open>The substrings of \<open>spacing\<close> characters, counted from the end.\<close>

function chunks_from_end :: "nat \<Rightarrow> 'a list \<Rightarrow> 'a list list" where
  "chunks_from_end spacing s =
     (if s = [] \<or> spacing = 0 then []
      else drop (length s - spacing) s # chunks_from_end spacing (take (length s - spacing) s))"
  by pat_completeness auto
termination by (relation "measure (\<lambda>(n, s). length s)") auto

declare chunks_from_end.simps [simp del]

text \<open>One pass of the inner \<open>for\<close> loop: the quotient in the limbs, the remainder as carry.\<close>

fun div_pass :: "nat \<Rightarrow> nat \<Rightarrow> nat \<Rightarrow> nat list \<Rightarrow> nat \<times> nat list" where
  "div_pass R B tmp [] = (tmp, [])"
| "div_pass R B tmp (d # digits) =
     (let t = u64 (u64 (tmp * R) + d);
          (carry_on, q) = div_pass R B (t mod B) digits
      in (carry_on, t div B # q))"

text \<open>The outer loop, least significant digit first. The bases are 256 and 10.\<close>

function convert_loop :: "nat \<Rightarrow> nat \<Rightarrow> nat list \<Rightarrow> nat list" where
  "convert_loop R B digits =
     (if digits = [] \<or> B < 2 then []
      else let (carry_on, q) = div_pass R B 0 digits
           in carry_on # convert_loop R B (dropWhile (\<lambda>d. d = 0) q))"
  by pat_completeness auto
termination
proof (relation "measures [\<lambda>(R, B, ds). length ds, \<lambda>(R, B, ds). hd ds]", goal_cases)
  case (2 R B digits z carry_on q)
  obtain d ds where ds: "digits = d # ds" using 2(1) by (cases digits) auto
  have len: "length q = length digits" if "div_pass R B t digits = (c, q)" for t c q digits
    using that by (induction R B t digits arbitrary: c q rule: div_pass.induct) (auto simp: Let_def split: prod.splits)
  have q: "length q = length digits" using len 2(2,3) by metis
  have hd: "hd q = u64 (u64 0 + d) div B" using 2(2,3) ds by (auto simp: Let_def split: prod.splits)
  show ?case
  proof (cases "hd q = 0")
    case True
    obtain x qs where x: "q = x # qs" using q ds by (cases q) auto
    then have "length (dropWhile (\<lambda>d. d = 0) q) \<le> length qs" using True length_dropWhile_le by simp
    then show ?thesis using q x by simp
  next
    case False
    then have "dropWhile (\<lambda>d. d = 0) q = q" using q ds by (cases q) auto
    moreover have "hd q < d"
    proof -
      have "hd q \<le> d div B" unfolding hd u64_def by (simp add: div_le_mono)
      moreover have "0 < d" using False hd by (cases "d = 0") (auto simp: u64_def)
      ultimately show ?thesis using 2(1) div_less_dividend[of B d] by linarith
    qed
    ultimately show ?thesis using q ds by simp
  qed
qed simp

declare convert_loop.simps [simp del]

definition encode_digit_string_to_byte_string :: "string \<Rightarrow> string result" where
  "encode_digit_string_to_byte_string digit_string =
     bind_res (map_res stoull (chunks_from_end 15 digit_string)) (\<lambda>digits.
       Inr (map char_of (rev (convert_loop (10 ^ 15) 256 (rev digits)))))"

definition bytes_limb :: "string \<Rightarrow> nat" where
  "bytes_limb s = foldl (\<lambda>tmp c. u64 (u64 (tmp * 2 ^ 8) + of_char c)) 0 s"

definition decode_byte_string_to_digit_string :: "string \<Rightarrow> string" where
  "decode_byte_string_to_digit_string byte_string =
     map (\<lambda>d. char_of (d + 48))
       (rev (convert_loop (256 ^ 7) 10 (rev (map bytes_limb (chunks_from_end 7 byte_string)))))"

definition extend_string_to_length :: "string \<Rightarrow> nat \<Rightarrow> char \<Rightarrow> string" where
  "extend_string_to_length str len c = replicate (len - length str) c @ str"

section \<open>Truncating keys\<close>

fun truncate_loop :: "int \<Rightarrow> nat \<Rightarrow> int \<Rightarrow> string \<Rightarrow> string \<Rightarrow> int + nat" where
  "truncate_loop k_diff i diff_count (a # str1) (b # str2) =
     (let diff_count = (if a \<noteq> b then diff_count + 1 else diff_count)
      in if diff_count = k_diff then Inr (Suc i)
         else truncate_loop k_diff (Suc i) diff_count str1 str2)"
| "truncate_loop k_diff i diff_count str1 str2 = Inl diff_count"

definition truncateToFirstKDifference :: "build \<Rightarrow> string \<Rightarrow> string \<Rightarrow> int \<Rightarrow> string result" where
  "truncateToFirstKDifference b str1 str2 k_diff =
     cxx_assert b (k_diff > 0)
       (let minLen = min (length str1) (length str2)
        in case truncate_loop k_diff 0 0 str1 str2 of
             Inr n \<Rightarrow> Inr (take n str1)
           | Inl diff_count \<Rightarrow>
               (let parse_len = min (length str1) (u64_of (int minLen + k_diff - diff_count))
                in Inr (take parse_len str1)))"

definition processStringsToFirstKDifference :: "build \<Rightarrow> string list \<Rightarrow> int \<Rightarrow> string list result" where
  "processStringsToFirstKDifference b vec k_diff =
     (case sort vec of
        [] \<Rightarrow> Inl Undefined_behaviour
      | [x] \<Rightarrow> bind_res (truncateToFirstKDifference b x '' '' k_diff) (\<lambda>r. Inr [r])
      | x # y # r \<Rightarrow>
          bind_res (truncateToFirstKDifference b x y k_diff) (\<lambda>r0.
            bind_res (map_res (\<lambda>(prev, cur). truncateToFirstKDifference b cur prev k_diff)
                        (zip (x # y # r) (y # r))) (\<lambda>rs. Inr (r0 # rs))))"

section \<open>Numbers in a base\<close>

lemma value_of_Nil [simp]: "value_of R [] = 0"
  by (simp add: value_of_def)

lemma value_of_snoc [simp]: "value_of R (ds @ [d]) = value_of R ds * R + d"
  by (simp add: value_of_def)

lemma value_of_append: "value_of R (xs @ ys) = value_of R xs * R ^ length ys + value_of R ys"
proof (induction ys rule: rev_induct)
  case (snoc y ys)
  then show ?case
    unfolding append_assoc[symmetric] value_of_snoc by (simp add: algebra_simps)
qed simp

lemma value_of_Cons: "value_of R (d # ds) = d * R ^ length ds + value_of R ds"
  using value_of_append[of R "[d]" ds] value_of_snoc[of R "[]" d] by simp

lemma value_of_less: "list_all (\<lambda>d. d < R) ds \<Longrightarrow> value_of R ds < R ^ length ds"
proof (induction ds rule: rev_induct)
  case (snoc d ds)
  then have "Suc (value_of R ds) * R \<le> R ^ length ds * R" by (intro mult_le_mono1) simp
  then show ?case using snoc.prems by (simp add: mult.commute)
qed simp

lemma value_of_less_le:
  assumes "list_all (\<lambda>d. d < R) ds" "length ds \<le> n" "0 < R"
  shows "value_of R ds < R ^ n"
  using value_of_less[OF assms(1)] power_increasing[OF assms(2), of R] assms(3) by linarith

lemma value_of_dropWhile_0: "value_of R (dropWhile (\<lambda>d. d = 0) ds) = value_of R ds"
  by (induction ds) (simp_all add: value_of_Cons)

lemma value_of_replicate_0: "value_of R (replicate n 0 @ ds) = value_of R ds"
  by (induction n) (simp_all add: value_of_Cons)

lemma value_of_inject:
  assumes "length xs = length ys" "list_all (\<lambda>d. d < R) xs" "list_all (\<lambda>d. d < R) ys"
    and "value_of R xs = value_of R ys"
  shows "xs = ys"
  using assms
proof (induction xs arbitrary: ys rule: rev_induct)
  case (snoc x xs)
  obtain zs z where ys: "ys = zs @ [z]" using snoc.prems(1) by (cases ys rule: rev_cases) auto
  have eq: "value_of R xs * R + x = value_of R zs * R + z" "x < R" "z < R"
    using snoc.prems ys by auto
  have "x = z" using eq by (metis mod_less mod_mult_self3)
  then show ?case using snoc ys eq by auto
qed simp

lemma value_of_Cons_less:
  assumes "u < v" "length us = length vs" "list_all (\<lambda>d. d < R) us"
  shows "value_of R (u # us) < value_of R (v # vs)"
proof -
  have "Suc u * R ^ length us \<le> v * R ^ length us" using assms by (intro mult_le_mono1) simp
  then show ?thesis using value_of_less[OF assms(3)] assms(2) by (simp add: value_of_Cons)
qed

lemma value_of_less_iff:
  assumes "length xs = length ys" "list_all (\<lambda>d. d < R) xs" "list_all (\<lambda>d. d < R) ys"
  shows "value_of R xs < value_of R ys \<longleftrightarrow> xs < ys"
  using assms
proof (induction xs ys rule: list_induct2)
  case (Cons x xs y ys)
  show ?case
  proof (cases x y rule: linorder_cases)
    case equal
    then show ?thesis using Cons by (simp add: value_of_Cons)
  next
    case less
    then show ?thesis using Cons value_of_Cons_less[of x y xs ys R] by simp
  next
    case greater
    then show ?thesis using Cons value_of_Cons_less[of y x ys xs R] by simp
  qed
qed simp

text \<open>A representation without leading zeros; 0 is written with one digit.\<close>

definition canonical_digits :: "nat \<Rightarrow> nat list \<Rightarrow> bool" where
  "canonical_digits B ds \<longleftrightarrow>
     list_all (\<lambda>d. d < B) ds \<and> ds \<noteq> [] \<and> (hd ds \<noteq> 0 \<or> ds = [0])"

lemma canonical_digits_unique:
  assumes "canonical_digits B xs" "canonical_digits B ys" "value_of B xs = value_of B ys"
  shows "xs = ys"
proof -
  have lead: "B ^ (length zs - 1) \<le> value_of B zs \<or> zs = [0]" if "canonical_digits B zs" for zs
    using that by (cases zs) (auto simp: canonical_digits_def value_of_Cons intro: trans_le_add1)
  have zero: "zs = [0]" if "canonical_digits B zs" "value_of B zs = 0" for zs
    using lead[OF that(1)] that by (cases zs) (auto simp: canonical_digits_def)
  have len: "length us \<le> length vs"
    if "canonical_digits B us" "canonical_digits B vs" "value_of B us = value_of B vs" "us \<noteq> [0]" for us vs
  proof -
    have "B ^ (length us - 1) < B ^ length vs"
      using lead[OF that(1)] that value_of_less[of B vs] by (auto simp: canonical_digits_def)
    moreover have "0 < B" using that(1) by (cases us) (auto simp: canonical_digits_def)
    ultimately have "length us - 1 < length vs"
      using power_increasing[of "length vs" "length us - 1" B] by fastforce
    then show ?thesis by simp
  qed
  show ?thesis
  proof (cases "value_of B xs = 0")
    case True
    then show ?thesis using zero assms by metis
  next
    case False
    then have "xs \<noteq> [0]" "ys \<noteq> [0]" using assms(3) by (auto simp: value_of_Cons)
    then have "length xs = length ys" using len assms by (metis order_antisym)
    then show ?thesis using value_of_inject assms unfolding canonical_digits_def by blast
  qed
qed

section \<open>Long division\<close>

lemma div_pass_correct:
  assumes "R * B \<le> 2 ^ 64" "tmp < B" "list_all (\<lambda>d. d < R) ds" "div_pass R B tmp ds = (c, q)"
  shows "length q = length ds \<and> list_all (\<lambda>d. d < R) q \<and> c < B \<and>
         tmp * R ^ length ds + value_of R ds = value_of R q * B + c"
  using assms
proof (induction ds arbitrary: tmp q)
  case (Cons d ds)
  define t where "t = tmp * R + d"
  have "Suc tmp * R \<le> B * R" using Cons.prems by (intro mult_le_mono1) simp
  then have tR: "t < R * B" using Cons.prems by (simp add: t_def mult.commute)
  then have u: "u64 (u64 (tmp * R) + d) = t"
    using Cons.prems(1) by (simp add: t_def u64_def mod_simps)
  obtain q' where q': "div_pass R B (t mod B) ds = (c, q')" "q = t div B # q'"
    using Cons.prems(4) u by (auto simp: Let_def split: prod.splits)
  have IH: "length q' = length ds" "list_all (\<lambda>d. d < R) q'" "c < B"
    "(t mod B) * R ^ length ds + value_of R ds = value_of R q' * B + c"
    using Cons.IH[OF Cons.prems(1) _ _ q'(1)] Cons.prems(2,3) by auto
  have "tmp * R ^ length (d # ds) + value_of R (d # ds) = t * R ^ length ds + value_of R ds"
    by (simp add: t_def value_of_Cons algebra_simps)
  also have "\<dots> = (t div B * B) * R ^ length ds + ((t mod B) * R ^ length ds + value_of R ds)"
    using div_mult_mod_eq[of t B] by (metis add.assoc distrib_right)
  also have "\<dots> = value_of R q * B + c"
    using IH q'(2) by (simp add: value_of_Cons algebra_simps)
  finally have "tmp * R ^ length (d # ds) + value_of R (d # ds) = value_of R q * B + c" .
  moreover have "t div B < R" using tR by (simp add: less_mult_imp_div_less)
  ultimately show ?case using IH q'(2) by simp
qed simp

lemma convert_loop_value:
  assumes "2 \<le> B" "R * B \<le> 2 ^ 64" "list_all (\<lambda>d. d < R) ds"
  shows "list_all (\<lambda>d. d < B) (convert_loop R B ds) \<and>
         value_of B (rev (convert_loop R B ds)) = value_of R ds"
  using assms
proof (induction R B ds rule: convert_loop.induct)
  case (1 R B ds)
  show ?case
  proof (cases "ds = []")
    case False
    obtain c q where cq: "div_pass R B 0 ds = (c, q)" by fastforce
    have pass: "list_all (\<lambda>d. d < R) q" "c < B" "value_of R ds = value_of R q * B + c"
      using div_pass_correct[OF 1(3) _ 1(4) cq] 1(2) by auto
    let ?q = "dropWhile (\<lambda>d. d = 0) q"
    have "list_all (\<lambda>d. d < R) ?q" using pass(1) by (auto simp: list_all_iff dest: set_dropWhileD)
    then have "list_all (\<lambda>d. d < B) (convert_loop R B ?q) \<and>
        value_of B (rev (convert_loop R B ?q)) = value_of R q"
      using "1.IH"[of "(c, q)" c q] 1(2,3) False cq by (simp add: value_of_dropWhile_0)
    then show ?thesis using False 1(2) cq pass by (subst (1 2) convert_loop.simps) simp
  qed (simp add: convert_loop.simps)
qed

lemma convert_loop_canonical:
  assumes "2 \<le> B" "R * B \<le> 2 ^ 64" "list_all (\<lambda>d. d < R) ds" "ds \<noteq> []"
  shows "canonical_digits B (rev (convert_loop R B ds))"
  using assms
proof (induction R B ds rule: convert_loop.induct)
  case (1 R B ds)
  obtain c q where cq: "div_pass R B 0 ds = (c, q)" by fastforce
  have pass: "list_all (\<lambda>d. d < R) q" "c < B"
    using div_pass_correct[OF 1(3) _ 1(4) cq] 1(2) by auto
  let ?q = "dropWhile (\<lambda>d. d = 0) q"
  have step: "convert_loop R B ds = c # convert_loop R B ?q"
    using 1(2,5) cq by (subst convert_loop.simps) simp
  show ?case
  proof (cases "?q = []")
    case True
    then show ?thesis
      using pass(2) unfolding step True by (auto simp: convert_loop.simps[of R B "[]"] canonical_digits_def)
  next
    case False
    have q: "list_all (\<lambda>d. d < R) ?q" using pass(1) by (auto simp: list_all_iff dest: set_dropWhileD)
    have hd: "hd ?q \<noteq> 0" using False by (metis (mono_tags) hd_dropWhile)
    then have "0 < value_of R ?q"
      using False q by (cases ?q) (auto simp: value_of_Cons simp del: dropWhile_eq_Nil_conv)
    moreover have "canonical_digits B (rev (convert_loop R B ?q))"
      using "1.IH"[of "(c, q)" c q] 1(2,3,5) cq q False by simp
    ultimately have "rev (convert_loop R B ?q) \<noteq> [0]" "canonical_digits B (rev (convert_loop R B ?q))"
      using convert_loop_value[OF 1(2,3) q] by (auto simp: value_of_Cons)
    then show ?thesis using pass(2) unfolding step by (auto simp: canonical_digits_def)
  qed
qed

lemma chunks_from_end_value:
  assumes "0 < n"
  shows "value_of (B ^ n) (rev (map (value_of B) (chunks_from_end n ds))) = value_of B ds"
  using assms
proof (induction n ds rule: chunks_from_end.induct)
  case (1 n ds)
  let ?m = "length ds - n"
  have split: "value_of B ds = value_of B (take ?m ds) * B ^ (length ds - ?m) + value_of B (drop ?m ds)"
    using value_of_append[of B "take ?m ds" "drop ?m ds"] by simp
  show ?case
  proof (cases "ds = []")
    case False
    have "value_of B (take ?m ds) * B ^ (length ds - ?m) = value_of B (take ?m ds) * B ^ n"
      by (cases "length ds \<le> n") auto
    then show ?thesis using 1 False split by (subst chunks_from_end.simps) auto
  qed (simp add: chunks_from_end.simps)
qed

lemma chunks_from_end_elems:
  "0 < n \<Longrightarrow> c \<in> set (chunks_from_end n xs) \<Longrightarrow> c \<noteq> [] \<and> length c \<le> n \<and> set c \<subseteq> set xs"
proof (induction n xs rule: chunks_from_end.induct)
  case (1 n xs)
  show ?case
  proof (cases "xs = []")
    case False
    then consider "c = drop (length xs - n) xs" | "c \<in> set (chunks_from_end n (take (length xs - n) xs))"
      using 1 by (subst (asm) chunks_from_end.simps) (auto split: if_splits)
    then show ?thesis
    proof cases
      case 1
      moreover have "length xs - n < length xs" using False \<open>0 < n\<close> by simp
      ultimately show ?thesis by (auto dest: in_set_dropD)
    next
      case 2
      then show ?thesis using "1.IH" False \<open>0 < n\<close> by (auto dest: in_set_takeD)
    qed
  qed (use 1 in \<open>simp add: chunks_from_end.simps\<close>)
qed

lemma chunks_from_end_map: "chunks_from_end n (map f xs) = map (map f) (chunks_from_end n xs)"
proof (induction n xs rule: chunks_from_end.induct)
  case (1 n xs)
  then show ?case
    by (subst (1 2) chunks_from_end.simps) (simp add: take_map drop_map)
qed

lemma chunks_from_end_Nil_iff: "0 < n \<Longrightarrow> chunks_from_end n xs = [] \<longleftrightarrow> xs = []"
  by (subst chunks_from_end.simps) simp

section \<open>Encoding and decoding\<close>

definition number :: "string \<Rightarrow> nat" where
  "number s = value_of 10 (map digit_of s)"

definition bytes_value :: "string \<Rightarrow> nat" where
  "bytes_value s = value_of 256 (map of_char s)"

text \<open>A decimal string without leading zeros.\<close>

definition normal_decimal :: "string \<Rightarrow> string" where
  "normal_decimal s = (case dropWhile (\<lambda>c. c = CHR ''0'') s of [] \<Rightarrow> ''0'' | t \<Rightarrow> t)"

lemma is_digit_iff: "is_digit c \<longleftrightarrow> 48 \<le> (of_char c :: nat) \<and> (of_char c :: nat) \<le> 57"
  by (simp add: is_digit_def less_eq_char_def)

lemma digit_of_less: "is_digit c \<Longrightarrow> digit_of c < 10"
  unfolding is_digit_iff digit_of_def by linarith

lemma char_of_digit_of [simp]: "is_digit c \<Longrightarrow> char_of (digit_of c + 48) = c"
  by (simp add: is_digit_iff digit_of_def)

lemma digit_of_char_of: "d < 10 \<Longrightarrow> digit_of (char_of (d + 48)) = d \<and> is_digit (char_of (d + 48))"
  by (simp add: is_digit_iff digit_of_def)

lemma digit_not_special:
  "is_digit c \<Longrightarrow> \<not> is_space c \<and> c \<noteq> CHR ''-'' \<and> c \<noteq> CHR ''+''"
  by (auto simp: is_digit_iff is_space_def)

lemma digits_less: "list_all is_digit s \<Longrightarrow> list_all (\<lambda>d. d < 10) (map digit_of s)"
  by (auto simp: list_all_iff digit_of_less)

lemma bytes_less: "list_all (\<lambda>d. d < 256) (map (of_char :: char \<Rightarrow> nat) s)"
  by (simp add: list_all_iff)

lemma number_bound: "list_all is_digit s \<Longrightarrow> length s \<le> n \<Longrightarrow> number s < 10 ^ n"
  using value_of_less_le[OF digits_less] by (simp add: number_def)

lemma bytes_value_bound: "length s \<le> n \<Longrightarrow> bytes_value s < 256 ^ n"
  using value_of_less_le[OF bytes_less] by (simp add: bytes_value_def)

lemma parse_digits:
  assumes "list_all is_digit s" "s \<noteq> []"
  shows "split_sign (dropWhile is_space s) = (False, s)" and "takeWhile is_digit s = s"
proof -
  obtain c t where s: "s = c # t" using assms(2) by (cases s) auto
  then have "\<not> is_space c" "c \<noteq> CHR ''-''" "c \<noteq> CHR ''+''"
    using assms(1) digit_not_special by auto
  then show "split_sign (dropWhile is_space s) = (False, s)" using s by (simp add: split_sign_def)
  show "takeWhile is_digit s = s" using assms(1) by (simp add: list_all_iff takeWhile_eq_all_conv)
qed

lemma stoull_digits:
  assumes "list_all is_digit s" "s \<noteq> []" "number s < 2 ^ 64"
  shows "stoull s = Inr (number s)"
  using assms by (simp add: stoull_def number_def parse_digits del: takeWhile_eq_all_conv)

lemma stoll_digits:
  assumes "list_all is_digit s" "s \<noteq> []" "number s < 2 ^ 63"
  shows "stoll s = Inr (int (number s))"
  using assms by (simp add: stoll_def number_def parse_digits Let_def del: takeWhile_eq_all_conv)

lemma bytes_limb_value: "length s \<le> 7 \<Longrightarrow> bytes_limb s = bytes_value s"
proof (induction s rule: rev_induct)
  case (snoc c s)
  have "bytes_value s < 281474976710656" using bytes_value_bound[of s 6] snoc.prems by simp
  moreover have "of_char c < (256 :: nat)" by simp
  ultimately have "bytes_value s * 256 + of_char c < 18446744073709551616" by linarith
  then show ?case using snoc by (simp add: bytes_limb_def bytes_value_def u64_def mod_simps)
qed (simp add: bytes_limb_def bytes_value_def)

lemma encode_limbs:
  assumes "list_all is_digit s"
  shows "map_res stoull (chunks_from_end 15 s) = Inr (map number (chunks_from_end 15 s))"
proof (rule map_res_Inr)
  fix c assume c: "c \<in> set (chunks_from_end 15 s)"
  then have c': "c \<noteq> []" "length c \<le> 15" "list_all is_digit c"
    using chunks_from_end_elems[of 15 c s] assms by (auto simp: list_all_iff)
  then show "stoull c = Inr (number c)" using stoull_digits number_bound[of c 15] by simp
qed

lemma decimal_limbs:
  assumes "list_all is_digit s"
  shows "list_all (\<lambda>d. d < 10 ^ 15) (rev (map number (chunks_from_end 15 s)))"
    and "value_of (10 ^ 15) (rev (map number (chunks_from_end 15 s))) = number s"
proof -
  have "number c < 10 ^ 15" if "c \<in> set (chunks_from_end 15 s)" for c
    using that chunks_from_end_elems[of 15 c s] assms number_bound[of c 15]
    by (auto simp: list_all_iff subset_iff)
  then show "list_all (\<lambda>d. d < 10 ^ 15) (rev (map number (chunks_from_end 15 s)))"
    by (simp add: list_all_iff)
  have "map number (chunks_from_end 15 s) = map (value_of 10) (chunks_from_end 15 (map digit_of s))"
    by (simp add: chunks_from_end_map number_def)
  then show "value_of (10 ^ 15) (rev (map number (chunks_from_end 15 s))) = number s"
    using chunks_from_end_value[of 15 10 "map digit_of s"] by (simp add: number_def)
qed

lemma bytes_limbs:
  shows "list_all (\<lambda>d. d < 256 ^ 7) (rev (map bytes_limb (chunks_from_end 7 s)))"
    and "value_of (256 ^ 7) (rev (map bytes_limb (chunks_from_end 7 s))) = bytes_value s"
proof -
  have limb: "bytes_limb c = bytes_value c" "bytes_value c < 256 ^ 7"
    if "c \<in> set (chunks_from_end 7 s)" for c
    using that chunks_from_end_elems[of 7 c s] bytes_limb_value[of c] bytes_value_bound[of c 7] by auto
  then show "list_all (\<lambda>d. d < 256 ^ 7) (rev (map bytes_limb (chunks_from_end 7 s)))"
    by (simp add: list_all_iff)
  have "map bytes_limb (chunks_from_end 7 s) = map (value_of 256) (chunks_from_end 7 (map of_char s))"
    using limb by (simp add: chunks_from_end_map bytes_value_def)
  then show "value_of (256 ^ 7) (rev (map bytes_limb (chunks_from_end 7 s))) = bytes_value s"
    using chunks_from_end_value[of 7 256 "map of_char s"] by (simp add: bytes_value_def)
qed

lemma map_of_char_char_of:
  "list_all (\<lambda>d. d < 256) ds \<Longrightarrow> map (of_char \<circ> char_of) ds = (ds :: nat list)"
  by (induction ds) auto

lemma encode_ok:
  assumes "list_all is_digit s"
  shows "\<exists>out. encode_digit_string_to_byte_string s = Inr out \<and> bytes_value out = number s \<and>
           (s = [] \<longleftrightarrow> out = []) \<and> (s \<noteq> [] \<longrightarrow> canonical_digits 256 (map of_char out))"
proof -
  let ?limbs = "rev (map number (chunks_from_end 15 s))"
  let ?ds = "rev (convert_loop (10 ^ 15) 256 ?limbs)"
  have conv: "list_all (\<lambda>d. d < 256) ?ds" "value_of 256 ?ds = number s"
    using convert_loop_value[of 256 "10 ^ 15" ?limbs] decimal_limbs[OF assms] by auto
  have "?limbs = [] \<longleftrightarrow> s = []" by (simp add: chunks_from_end_Nil_iff)
  then have "canonical_digits 256 ?ds" if "s \<noteq> []"
    using that convert_loop_canonical[of 256 "10 ^ 15" ?limbs] decimal_limbs(1)[OF assms] by simp
  moreover have "?ds = []" if "s = []"
    using that by (simp add: chunks_from_end.simps convert_loop.simps)
  ultimately show ?thesis
    using conv encode_limbs[OF assms] map_of_char_char_of[OF conv(1)]
    by (auto simp: encode_digit_string_to_byte_string_def bytes_value_def canonical_digits_def)
qed

lemma decode_ok:
  assumes "s \<noteq> []"
  shows "list_all is_digit (decode_byte_string_to_digit_string s)"
    and "canonical_digits 10 (map digit_of (decode_byte_string_to_digit_string s))"
    and "number (decode_byte_string_to_digit_string s) = bytes_value s"
proof -
  let ?limbs = "rev (map bytes_limb (chunks_from_end 7 s))"
  let ?ds = "rev (convert_loop (256 ^ 7) 10 ?limbs)"
  have conv: "list_all (\<lambda>d. d < 10) ?ds" "value_of 10 ?ds = bytes_value s"
    using convert_loop_value[of 10 "256 ^ 7" ?limbs] bytes_limbs[of s] by auto
  have can: "canonical_digits 10 ?ds"
    using convert_loop_canonical[of 10 "256 ^ 7" ?limbs] bytes_limbs(1)[of s] assms
    by (simp add: chunks_from_end_Nil_iff)
  have dec: "decode_byte_string_to_digit_string s = map (\<lambda>d. char_of (d + 48)) ?ds"
    by (simp add: decode_byte_string_to_digit_string_def)
  have id: "map digit_of (map (\<lambda>d. char_of (d + 48)) ds) = ds" if "list_all (\<lambda>d. d < 10) ds" for ds
    using that by (induction ds) (auto simp: digit_of_char_of)
  show "list_all is_digit (decode_byte_string_to_digit_string s)"
    unfolding dec using conv(1) digit_of_char_of by (auto simp: list_all_iff)
  show "canonical_digits 10 (map digit_of (decode_byte_string_to_digit_string s))"
    unfolding dec id[OF conv(1)] by (rule can)
  show "number (decode_byte_string_to_digit_string s) = bytes_value s"
    unfolding dec number_def id[OF conv(1)] by (rule conv(2))
qed

lemma number_normal_decimal: "number (normal_decimal s) = number s"
proof -
  have 0: "number (dropWhile (\<lambda>c. c = CHR ''0'') t) = number t" for t
    by (induction t) (simp_all add: number_def value_of_Cons digit_of_def)
  have "number (case t of [] \<Rightarrow> ''0'' | x # xs \<Rightarrow> x # xs) = number t" for t
    by (cases t) (simp_all add: number_def value_of_Cons digit_of_def)
  then show ?thesis using 0[of s] by (simp add: normal_decimal_def)
qed

lemma digit_of_eq_0_iff: "is_digit c \<Longrightarrow> digit_of c = 0 \<longleftrightarrow> c = CHR ''0''"
proof -
  assume "is_digit c"
  then have "digit_of c = 0 \<longleftrightarrow> of_char c = (of_char (CHR ''0'') :: nat)"
    by (auto simp: is_digit_iff digit_of_def)
  then show ?thesis by (simp only: of_char_eq_iff)
qed

lemma normal_decimal_cases:
  "normal_decimal s = ''0'' \<or>
   (normal_decimal s = dropWhile (\<lambda>c. c = CHR ''0'') s \<and> normal_decimal s \<noteq> [] \<and>
    hd (normal_decimal s) \<noteq> CHR ''0'')"
proof (cases "dropWhile (\<lambda>c. c = CHR ''0'') s")
  case (Cons c t)
  then have "normal_decimal s = c # t" by (simp add: normal_decimal_def)
  moreover have "c \<noteq> CHR ''0''" using Cons by (simp add: dropWhile_eq_Cons_conv)
  ultimately show ?thesis using Cons by simp
next
  case Nil
  show ?thesis unfolding normal_decimal_def Nil by simp
qed

lemma normal_decimal_canonical:
  assumes "list_all is_digit s"
  shows "list_all is_digit (normal_decimal s)" "canonical_digits 10 (map digit_of (normal_decimal s))"
proof -
  have "list_all is_digit (dropWhile (\<lambda>c. c = CHR ''0'') s)"
    using assms by (auto simp: list_all_iff dest: set_dropWhileD)
  moreover have "is_digit (CHR ''0'')" by (simp add: is_digit_def)
  ultimately show digits: "list_all is_digit (normal_decimal s)"
    using normal_decimal_cases[of s] by auto
  have "map digit_of (normal_decimal s) = [0] \<or> digit_of (hd (normal_decimal s)) \<noteq> 0"
    using normal_decimal_cases[of s] digits digit_of_eq_0_iff[of "hd (normal_decimal s)"]
    by (cases "normal_decimal s") (auto simp: digit_of_def)
  moreover have "normal_decimal s \<noteq> []" using normal_decimal_cases[of s] by auto
  ultimately show "canonical_digits 10 (map digit_of (normal_decimal s))"
    using digits_less[OF digits] by (auto simp: canonical_digits_def hd_map)
qed

lemma map_digit_of_inject:
  assumes "list_all is_digit s" "list_all is_digit t" "map digit_of s = map digit_of t"
  shows "s = t"
proof -
  have "map (\<lambda>d. char_of (d + 48)) (map digit_of u) = u" if "list_all is_digit u" for u
    using that by (induction u) auto
  then show ?thesis using assms by metis
qed

lemma decode_unique:
  assumes "b \<noteq> []" "list_all is_digit s" "bytes_value b = number s"
  shows "decode_byte_string_to_digit_string b = normal_decimal s"
proof (rule map_digit_of_inject)
  show "map digit_of (decode_byte_string_to_digit_string b) = map digit_of (normal_decimal s)"
    using canonical_digits_unique[OF decode_ok(2)[OF assms(1)] normal_decimal_canonical(2)[OF assms(2)]]
      decode_ok(3)[OF assms(1)] number_normal_decimal[of s] assms(3)
    by (simp add: number_def)
qed (use assms decode_ok(1) normal_decimal_canonical(1) in auto)

lemma bytes_value_extend: "bytes_value (extend_string_to_length s len (CHR 0x00)) = bytes_value s"
  by (simp add: bytes_value_def extend_string_to_length_def value_of_replicate_0)

lemma length_extend: "length (extend_string_to_length s len c) = max len (length s)"
  by (simp add: extend_string_to_length_def)

lemma string_less_iff_of_char:
  "s < t \<longleftrightarrow> map (of_char :: char \<Rightarrow> nat) s < map of_char t"
proof (induction s arbitrary: t)
  case Nil
  then show ?case by (cases t) auto
next
  case (Cons c s)
  then show ?case by (cases t) (auto simp: less_char_def)
qed

lemma bytes_value_less_iff:
  assumes "length s = length t"
  shows "bytes_value s < bytes_value t \<longleftrightarrow> s < t"
  using value_of_less_iff[OF _ bytes_less bytes_less, of s t] assms
  by (simp add: bytes_value_def string_less_iff_of_char)

lemma encode_extend_value:
  assumes "list_all is_digit s" "encode_digit_string_to_byte_string s = Inr out"
  shows "bytes_value (extend_string_to_length out len (CHR 0x00)) = number s"
  using encode_ok[OF assms(1)] assms(2) by (simp add: bytes_value_extend)

lemma encode_length:
  assumes "list_all is_digit s" "encode_digit_string_to_byte_string s = Inr out"
    and "number s < 256 ^ len" "0 < len"
  shows "length out \<le> len"
proof (rule ccontr)
  assume long: "\<not> length out \<le> len"
  then have ne: "out \<noteq> []" and "s \<noteq> []" using encode_ok[OF assms(1)] assms(2) by auto
  then have can: "canonical_digits 256 (map of_char out)"
    using encode_ok[OF assms(1)] assms(2) by auto
  obtain c t where out: "out = c # t" using ne by (cases out) auto
  have "of_char c \<noteq> (0 :: nat)" "len \<le> length t" using can out long assms(4) by (auto simp: canonical_digits_def)
  then have "256 ^ length t \<le> bytes_value out"
    by (auto simp: out bytes_value_def value_of_Cons intro!: trans_le_add1)
  moreover have "(256 :: nat) ^ len \<le> 256 ^ length t" using \<open>len \<le> length t\<close> by (intro power_increasing) auto
  moreover have "bytes_value out = number s" using encode_ok[OF assms(1)] assms(2) by auto
  ultimately show False using assms(3) by linarith
qed

section \<open>Truncation\<close>

lemma truncate_loop_Inr:
  "truncate_loop k i d s t = Inr n \<Longrightarrow> i < n \<and> (d < k \<longrightarrow> \<not> prefix (take (n - i) s) t)"
proof (induction k i d s t rule: truncate_loop.induct)
  case (1 k i d a s b t)
  let ?d = "if a \<noteq> b then d + 1 else d"
  show ?case
  proof (cases "?d = k")
    case True
    then show ?thesis using 1 by (auto split: if_splits)
  next
    case False
    then have IH: "Suc i < n \<and> (?d < k \<longrightarrow> \<not> prefix (take (n - Suc i) s) t)"
      using 1 by (simp only: truncate_loop.simps Let_def if_False) blast
    then obtain m where n: "n - i = Suc m" "n - Suc i = m" by (cases "n - i") auto
    show ?thesis using IH False n by auto
  qed
qed simp_all

lemma truncate_loop_Inl:
  assumes "truncate_loop k i d s t = Inl e" "d < k"
  shows "d \<le> e \<and> e < k \<and> (e = d \<longrightarrow> take (min (length s) (length t)) s = take (min (length s) (length t)) t)
     \<and> (e \<noteq> d \<longrightarrow> \<not> prefix (take (min (length s) (length t)) s) t)"
  using assms
proof (induction k i d s t rule: truncate_loop.induct)
  case (1 k i d a s b t)
  let ?d = "if a \<noteq> b then d + 1 else d"
  have "?d \<noteq> k" "truncate_loop k (Suc i) ?d s t = Inl e" "?d < k"
    using 1(2,3) by (auto simp: Let_def split: if_splits)
  then show ?case using "1.IH"[of ?d] by (auto split: if_splits)
qed (auto)

lemma truncate_ok:
  assumes "0 < k" "k < 2 ^ 31" "length s < 2 ^ 31" "length t < 2 ^ 31"
  shows "\<exists>r. truncateToFirstKDifference b s t k = Inr r \<and> prefix r s \<and>
           (\<not> prefix s t \<longrightarrow> \<not> prefix r t)"
proof (cases "truncate_loop k 0 0 s t")
  case (Inr n)
  then show ?thesis using truncate_loop_Inr[OF Inr] assms
    by (auto simp: truncateToFirstKDifference_def take_is_prefix)
next
  case (Inl e)
  let ?m = "min (length s) (length t)"
  have e: "0 \<le> e" "e < k" using truncate_loop_Inl[OF Inl] assms by auto
  have "0 \<le> int ?m + k - e" "int ?m + k - e < 2 ^ 64" using e assms by auto
  then have n: "u64_of (int ?m + k - e) = nat (int ?m + k - e)" by (simp add: u64_of_def)
  define r where "r = take (min (length s) (nat (int ?m + k - e))) s"
  have "\<not> prefix r t" if np: "\<not> prefix s t"
  proof (cases "e = 0")
    case True
    then have "take ?m s = take ?m t" using truncate_loop_Inl[OF Inl] assms by auto
    then have "length t < length s" using np take_is_prefix[of "length s" t] by (cases "length t < length s") auto
    then have "length t < length r" using True e by (simp add: r_def)
    then show ?thesis using prefix_length_le by fastforce
  next
    case False
    then have "\<not> prefix (take ?m s) t" using truncate_loop_Inl[OF Inl] assms by auto
    moreover have "?m \<le> min (length s) (nat (int ?m + k - e))" using e by linarith
    then have "prefix (take ?m s) r" unfolding r_def by (metis min.absorb1 take_is_prefix take_take)
    ultimately show ?thesis by (meson prefix_order.trans)
  qed
  then show ?thesis
    using Inl n assms by (simp add: truncateToFirstKDifference_def r_def Let_def take_is_prefix)
qed

lemma prefix_le: "prefix s t \<Longrightarrow> s \<le> (t :: string)"
proof (induction s arbitrary: t)
  case (Cons c s)
  then show ?case by (cases t) auto
qed simp

text \<open>What the truncation of one key promises relative to its predecessor.\<close>

definition cut_apart :: "string \<times> string \<Rightarrow> string \<Rightarrow> bool" where
  "cut_apart p r \<longleftrightarrow> prefix r (snd p) \<and> (\<not> prefix (snd p) (fst p) \<longrightarrow> \<not> prefix r (fst p))"

lemma process_ok:
  assumes "sort vec = x # y # xs" "0 < k" "k < 2 ^ 31" "\<forall>x \<in> set vec. length x < 2 ^ 31"
  shows "\<exists>r0 rs. processStringsToFirstKDifference b vec k = Inr (r0 # rs) \<and> prefix r0 x \<and>
           list_all2 cut_apart (zip (x # y # xs) (y # xs)) rs"
proof -
  have len: "length z < 2 ^ 31" if "z \<in> set (x # y # xs)" for z
    using that assms(4) set_sort[of "\<lambda>x. x" vec] unfolding assms(1) by blast
  obtain r0 where r0: "truncateToFirstKDifference b x y k = Inr r0" "prefix r0 x"
    using truncate_ok[OF assms(2,3), of x y b] len by auto
  define f where "f = (\<lambda>(prev, cur). truncateToFirstKDifference b cur prev k)"
  have "\<exists>r. f p = Inr r \<and> cut_apart p r"
    if "p \<in> set (zip (x # y # xs) (y # xs))" for p
  proof -
    obtain u v where p: "p = (u, v)" by fastforce
    then have "u \<in> set (x # y # xs)" "v \<in> set (y # xs)"
      using that set_zip_leftD[of u v] set_zip_rightD[of u v] by blast+
    then have "length u < 2 ^ 31" "length v < 2 ^ 31" using len by auto
    then show ?thesis using truncate_ok[OF assms(2,3), of v u b] p by (auto simp: cut_apart_def f_def)
  qed
  then obtain rs where "map_res f (zip (x # y # xs) (y # xs)) = Inr rs"
    "list_all2 cut_apart (zip (x # y # xs) (y # xs)) rs"
    using map_res_Ex[of "zip (x # y # xs) (y # xs)" f cut_apart] by blast
  then show ?thesis
    using r0 assms(1) by (simp add: processStringsToFirstKDifference_def f_def del: zip_Cons_Cons)
qed

section \<open>Properties\<close>

text \<open>C14: Encoding a decimal key into bytes and padding it with zero bytes to any length keeps
  the number, and decoding the result gives the key back without its leading zeros (one digit for
  zero).\<close>

theorem encode_decode_roundtrip:
  assumes "list_all is_digit s" "s \<noteq> []"
  shows "\<exists>out. encode_digit_string_to_byte_string s = Inr out \<and> bytes_value out = number s \<and>
           decode_byte_string_to_digit_string (extend_string_to_length out len (CHR 0x00)) = normal_decimal s"
proof -
  obtain out where out: "encode_digit_string_to_byte_string s = Inr out" "bytes_value out = number s" "out \<noteq> []"
    using encode_ok[OF assms(1)] assms(2) by blast
  have "extend_string_to_length out len (CHR 0x00) \<noteq> []" using out(3) by (simp add: extend_string_to_length_def)
  then show ?thesis using out decode_unique assms(1) bytes_value_extend by metis
qed

theorem encode_decode_roundtrip_witness:
  "\<exists>out. encode_digit_string_to_byte_string ''0042'' = Inr out \<and> bytes_value out = 42 \<and>
     decode_byte_string_to_digit_string (extend_string_to_length out 5 (CHR 0x00)) = ''42''"
  using encode_decode_roundtrip[of "''0042''" 5]
  by (simp add: is_digit_def number_def value_of_def digit_of_def normal_decimal_def)

text \<open>C15: Condensed keys compare like the numbers they stand for: two decimal keys whose numbers
  fit into \<open>len\<close> bytes are encoded and padded to exactly \<open>len\<close> bytes, and the lexicographic
  order of the byte strings is the order of the numbers.\<close>

theorem condensed_keys_ordered:
  assumes "list_all is_digit s" "list_all is_digit t" "0 < len"
    and "number s < 256 ^ len" "number t < 256 ^ len"
    and "encode_digit_string_to_byte_string s = Inr x" "encode_digit_string_to_byte_string t = Inr y"
  shows "length (extend_string_to_length x len (CHR 0x00)) = len \<and>
         (extend_string_to_length x len (CHR 0x00) < extend_string_to_length y len (CHR 0x00) \<longleftrightarrow> number s < number t)"
proof -
  have "length x \<le> len" "length y \<le> len" using encode_length assms by auto
  then have len: "length (extend_string_to_length x len (CHR 0x00)) = len"
    "length (extend_string_to_length y len (CHR 0x00)) = len" by (simp_all add: length_extend)
  then show ?thesis
    using bytes_value_less_iff[of "extend_string_to_length x len (CHR 0x00)" "extend_string_to_length y len (CHR 0x00)"]
      encode_extend_value[OF assms(1,6)] encode_extend_value[OF assms(2,7)] by simp
qed

lemmas encode_eval =
  encode_digit_string_to_byte_string_def chunks_from_end.simps convert_loop.simps stoull_def
  split_sign_def is_space_def is_digit_def digit_of_def value_of_def u64_def char_of_def bit_0

lemma encode_9: "encode_digit_string_to_byte_string ''9'' = Inr [CHR 0x09]"
  by (simp add: encode_eval)

lemma encode_0300: "encode_digit_string_to_byte_string ''0300'' = Inr [CHR 0x01, CHR 0x2C]"
  by (simp add: encode_eval)

theorem condensed_keys_ordered_witness:
  "extend_string_to_length [CHR 0x09] 5 (CHR 0x00) < extend_string_to_length [CHR 0x01, CHR 0x2C] 5 (CHR 0x00)"
  using condensed_keys_ordered[OF _ _ _ _ _ encode_9 encode_0300, of 5]
  by (simp add: is_digit_def number_def value_of_def digit_of_def)

text \<open>Truncating a set of distinct keys keeps them apart: the keys are sorted, every truncated
  key is a prefix of its key, and from the second on none is a prefix of the key before it.\<close>

theorem truncation_distinguishes:
  assumes "distinct vec" "vec \<noteq> []" "0 < k" "k < 2 ^ 31" "\<forall>x \<in> set vec. length x < 2 ^ 31"
  shows "\<exists>rs. processStringsToFirstKDifference b vec k = Inr rs \<and> list_all2 prefix rs (sort vec) \<and>
           (\<forall>i. Suc i < length vec \<longrightarrow> \<not> prefix (rs ! Suc i) (sort vec ! i))"
proof -
  have len: "length (sort vec) = length vec" by simp
  consider x where "sort vec = [x]" | x y xs where "sort vec = x # y # xs"
    using assms(2) len by (metis length_0_conv neq_Nil_conv)
  then show ?thesis
  proof cases
    case 1
    then have "x \<in> set vec" "length vec = 1" using set_sort[of "\<lambda>x. x" vec] len by auto
    then obtain r where "truncateToFirstKDifference b x '' '' k = Inr r" "prefix r x"
      using truncate_ok[OF assms(3,4), of x "'' ''" b] assms(5) by auto
    then show ?thesis using 1 \<open>length vec = 1\<close> by (simp add: processStringsToFirstKDifference_def)
  next
    case 2
    obtain r0 rs where rs: "processStringsToFirstKDifference b vec k = Inr (r0 # rs)" "prefix r0 x"
      "list_all2 cut_apart (zip (x # y # xs) (y # xs)) rs"
      using process_ok[OF 2 assms(3,4,5)] by blast
    have cut: "cut_apart ((x # y # xs) ! i, (y # xs) ! i) (rs ! i)" if "i < length (y # xs)" for i
      using list_all2_nthD[OF rs(3), of i] that nth_zip[of i "x # y # xs" "y # xs"] by simp
    have "\<not> prefix ((r0 # rs) ! Suc i) (sort vec ! i)" if i: "Suc i < length vec" for i
    proof -
      have "sort vec ! i < sort vec ! Suc i"
        using i assms(1) sorted_nth_mono[of "sort vec" i "Suc i"] nth_eq_iff_index_eq[of "sort vec" i "Suc i"]
        by (simp add: order_less_le)
      then have "\<not> prefix (sort vec ! Suc i) (sort vec ! i)" using prefix_le by (meson not_le)
      then show ?thesis using cut[of i] i len 2 by (simp add: cut_apart_def)
    qed
    moreover have "list_all2 prefix rs (y # xs)"
      using rs(3) cut by (auto simp: list_all2_conv_all_nth cut_apart_def)
    ultimately show ?thesis using rs(1,2) 2 by auto
  qed
qed

theorem truncation_distinguishes_witness:
  "\<exists>rs. processStringsToFirstKDifference Debug [''bcd'', ''abc'', ''abd''] 1 = Inr rs \<and>
     list_all2 prefix rs (sort [''bcd'', ''abc'', ''abd''])"
  using truncation_distinguishes[of "[''bcd'', ''abc'', ''abd'']" 1 Debug] by auto

text \<open>Truncating an empty list of keys reads the first element of an empty vector.\<close>

theorem truncation_of_nothing:
  "processStringsToFirstKDifference b [] k = Inl Undefined_behaviour"
  by (simp add: processStringsToFirstKDifference_def)

end
