(* ===== verification/SuRF_Ranges.thy ===== *)
theory SuRF_Ranges
  imports SuRF_Utils PLRDF_Lists
begin

text \<open>
  How the class \<open>SuRF\<close> (SuRF/include/surf.cc) stores ranges: \<open>rangesToSurf\<close> and
  \<open>rangesWithPointKeysToSurf\<close> turn them into a sorted sequence of keys, each with a left and a
  right parenthesis bit, \<open>surfToRanges\<close> reads the sequence back, and
  \<open>SuRF_RDF::isEntryAliveAtLevelOfFd\<close> decides from the first stored key that is not below the
  searched one. An \<open>entry\<close> is such a key with its two bits.

  The trie that holds the sequence is the record \<open>surf_ops\<close> of the operations the filter calls:
  \<open>surf_create\<close> the constructor, \<open>surf_entries\<close> the iteration from \<open>moveToFirst\<close>,
  \<open>surf_seek\<close> the entry \<open>moveToNextCommonPrefixKey\<close> stops at, \<open>surf_bits\<close> its size in bits.
  \<open>trie_ok\<close> says what the filter relies on: a trie built from keys of one length gives them back
  in order and finds the first key not below the searched one.
\<close>

section \<open>Environment and trie\<close>

record surf_env =
  key_len_in_bytes :: int
  flag_bypass_if_same_key :: bool
  flag_allow_range_boundary_overlapped :: bool
  flag_use_condensed_digit_key :: bool
  length_of_condensed_digit_key :: nat
  use_surf_base :: bool
  surf_base_store_key_to_k_diff :: nat

definition surf_env_default :: surf_env where
  "surf_env_default = \<lparr>key_len_in_bytes = 12, flag_bypass_if_same_key = True,
     flag_allow_range_boundary_overlapped = False, flag_use_condensed_digit_key = True,
     length_of_condensed_digit_key = 5, use_surf_base = False, surf_base_store_key_to_k_diff = 1\<rparr>"

definition getFlagBypassIfSameKey :: "build \<Rightarrow> surf_env \<Rightarrow> bool result" where
  "getFlagBypassIfSameKey b env =
     cxx_assert b (flag_bypass_if_same_key env = flag_allow_range_boundary_overlapped env)
       (Inr (flag_bypass_if_same_key env))"

definition getFlagAllowRangeBoundaryOverlapped :: "build \<Rightarrow> surf_env \<Rightarrow> bool result" where
  "getFlagAllowRangeBoundaryOverlapped b env =
     cxx_assert b (flag_bypass_if_same_key env = flag_allow_range_boundary_overlapped env)
       (Inr (flag_allow_range_boundary_overlapped env))"

type_synonym 'k entry = "'k \<times> bool \<times> bool"

record 's surf_ops =
  surf_create :: "string entry list \<Rightarrow> nat \<Rightarrow> 's"
  surf_entries :: "'s \<Rightarrow> string entry list"
  surf_seek :: "'s \<Rightarrow> string \<Rightarrow> bool \<Rightarrow> string entry option"
  surf_bits :: "'s \<Rightarrow> nat"

section \<open>From ranges to keys\<close>

definition shall_be_merged :: "bool \<Rightarrow> 'k::linorder \<Rightarrow> 'k \<Rightarrow> bool" where
  "shall_be_merged allow stop start = (if allow then stop > start else stop \<ge> start)"

fun flag_merge :: "bool \<Rightarrow> 'k::linorder range list \<Rightarrow> bool" where
  "flag_merge allow (r # s # rs) = (shall_be_merged allow (snd r) (fst s) \<or> flag_merge allow (s # rs))"
| "flag_merge allow rs = False"

fun surf_merge_loop :: "bool \<Rightarrow> 'k::linorder range \<Rightarrow> 'k range list \<Rightarrow> 'k range list" where
  "surf_merge_loop allow rd_last [] = [rd_last]"
| "surf_merge_loop allow rd_last (r # rs) =
     (if shall_be_merged allow (snd rd_last) (fst r)
      then surf_merge_loop allow (fst rd_last, max (snd rd_last) (snd r)) rs
      else rd_last # surf_merge_loop allow r rs)"

definition surf_merge :: "bool \<Rightarrow> 'k::linorder range list \<Rightarrow> 'k range list" where
  "surf_merge allow ranges =
     (let ranges = sort ranges
      in case ranges of [] \<Rightarrow> []
         | r # rs \<Rightarrow> if flag_merge allow ranges then surf_merge_loop allow r rs else ranges)"

fun not_overlapped :: "'k::linorder range list \<Rightarrow> bool" where
  "not_overlapped (r # s # rs) = (snd r \<le> fst s \<and> not_overlapped (s # rs))"
| "not_overlapped rs = True"

definition push_start :: "'k \<Rightarrow> 'k entry list \<Rightarrow> 'k entry list" where
  "push_start key_start keys =
     (if keys \<noteq> [] \<and> fst (last keys) = key_start
      then butlast keys @ [(key_start, True, snd (snd (last keys)))]
      else keys @ [(key_start, True, False)])"

definition push_range :: "nat \<Rightarrow> string range \<Rightarrow> string entry list \<Rightarrow> string entry list" where
  "push_range surf_key_length r keys =
     (let key_start = take surf_key_length (fst r);
          key_end = take surf_key_length (snd r);
          keys = push_start key_start keys
      in if key_start = key_end then keys else keys @ [(key_end, False, True)])"

definition store_keys :: "build \<Rightarrow> surf_env \<Rightarrow> 's surf_ops \<Rightarrow> string entry list \<Rightarrow> 's result" where
  "store_keys b env ops keys =
     bind_res (if use_surf_base env
               then processStringsToFirstKDifference b (map fst keys)
                      (wrap32 (int (surf_base_store_key_to_k_diff env)))
               else Inr (map fst keys))
       (\<lambda>ks. let string_len = fold (\<lambda>k m. max m (length k)) ks 0
             in Inr (surf_create ops (zip ks (map snd keys)) (string_len mod 2 ^ 16)))"

definition rangesToSurf ::
  "build \<Rightarrow> surf_env \<Rightarrow> 's surf_ops \<Rightarrow> string range list \<Rightarrow> bool \<Rightarrow> 's result" where
  "rangesToSurf b env ops ranges allow =
     cxx_assert b (ranges \<noteq> [])
       (let ranges = surf_merge allow ranges
        in cxx_assert b (ranges \<noteq> []) (cxx_assert b (not_overlapped ranges)
             (store_keys b env ops
                (fold (push_range (u64_of (key_len_in_bytes env))) ranges []))))"

section \<open>Ranges split by point keys\<close>

text \<open>\<open>prev\<close> is \<open>point_keys[j_point_keys - 1]\<close>, the list the rest of the vector.\<close>

fun skip_points :: "string \<Rightarrow> string option \<Rightarrow> string list \<Rightarrow> string option \<times> string list" where
  "skip_points key_start prev [] = (prev, [])"
| "skip_points key_start prev (p # ps) =
     (if p < key_start then skip_points key_start (Some p) ps else (prev, p # ps))"

definition split_start :: "bool \<Rightarrow> 'k entry list \<Rightarrow> 'k entry list" where
  "split_start allow keys =
     (if keys = [] then [] else
      case last keys of (k, l, r) \<Rightarrow>
        butlast keys @ [if allow \<and> l \<and> r then (k, True, True) else (k, False, False)])"

fun split_points_loop ::
  "nat \<Rightarrow> bool \<Rightarrow> string \<Rightarrow> string \<Rightarrow> string option \<Rightarrow> string list \<Rightarrow> string entry list \<Rightarrow> nat \<Rightarrow>
   string option \<times> string list \<times> string entry list \<times> nat" where
  "split_points_loop n allow key_start key_end prev [] keys split_count = (prev, [], keys, split_count)"
| "split_points_loop n allow key_start key_end prev (p # ps) keys split_count =
     (let point_key = take n p
      in if point_key \<ge> key_end then (prev, p # ps, keys, split_count)
         else if (case prev of Some q \<Rightarrow> point_key = take n q | None \<Rightarrow> False)
         then split_points_loop n allow key_start key_end (Some p) ps keys split_count
         else if point_key = key_start
         then split_points_loop n allow key_start key_end (Some p) ps (split_start allow keys) split_count
         else split_points_loop n allow key_start key_end (Some p) ps
                (keys @ [(point_key, False, True)]) (split_count + 1))"

type_synonym split_state = "string option \<times> string list \<times> string entry list \<times> nat"

definition push_range_split :: "nat \<Rightarrow> bool \<Rightarrow> string range \<Rightarrow> split_state \<Rightarrow> split_state" where
  "push_range_split n allow r st =
     (case st of (prev, ps, keys, split_count) \<Rightarrow>
        case skip_points (fst r) prev ps of (prev, ps) \<Rightarrow>
          let key_start = take n (fst r);
              key_end = take n (snd r);
              keys = push_start key_start keys
          in if key_start = key_end then (prev, ps, keys, split_count)
             else case split_points_loop n allow key_start key_end prev ps keys split_count of
               (prev, ps, keys, split_count) \<Rightarrow>
                 (prev, ps, keys @ [(key_end, False, True)], split_count))"

definition rangesWithPointKeysToSurf ::
  "build \<Rightarrow> surf_env \<Rightarrow> 's surf_ops \<Rightarrow> string range list \<Rightarrow> string list \<Rightarrow> bool \<Rightarrow> ('s \<times> nat) result" where
  "rangesWithPointKeysToSurf b env ops ranges point_keys allow =
     cxx_assert b (ranges \<noteq> [])
       (let ranges = surf_merge allow ranges
        in cxx_assert b (ranges \<noteq> []) (cxx_assert b (not_overlapped ranges)
             (case fold (push_range_split (u64_of (key_len_in_bytes env)) allow) ranges
                     (None, point_keys, [], 0) of
                (prev, ps, keys, split_count) \<Rightarrow>
                  bind_res (store_keys b env ops keys) (\<lambda>s. Inr (s, split_count)))))"

section \<open>From keys to ranges\<close>

text \<open>Both branches of \<open>surfToRanges\<close> on \<open>flag_allow_boundary_overlapped\<close> build the same
  list. \<open>first\<close> is \<open>flag_first_key\<close>.\<close>

fun to_ranges_loop :: "'k::linorder entry list \<Rightarrow> 'k \<Rightarrow> 'k \<Rightarrow> bool \<Rightarrow> 'k range list" where
  "to_ranges_loop [] start stop first = [(start, stop)]"
| "to_ranges_loop ((key, left, right) # keys) start stop first =
     (if left then
        (let stop = (if right then key else stop)
         in (if first then [] else [(start, stop)]) @ to_ranges_loop keys key key False)
      else if \<not> right then (if first then [] else [(start, stop)]) @ to_ranges_loop keys key key False
      else to_ranges_loop keys start key False)"

definition surfToRanges :: "'s surf_ops \<Rightarrow> 's \<Rightarrow> string range list" where
  "surfToRanges ops surf =
     (let keys = surf_entries ops surf
      in if keys = [] then [] else to_ranges_loop keys [] [] True)"

section \<open>The decision for a key\<close>

text \<open>The answer and whether \<open>setFlagKeyMayDeleted\<close> is called.\<close>

definition entry_alive :: "build \<Rightarrow> bool \<Rightarrow> 'k::linorder \<Rightarrow> 'k entry option \<Rightarrow> (bool \<times> bool) result" where
  "entry_alive b bypass key found =
     (case found of None \<Rightarrow> Inr (True, False)
      | Some (key_found, left, right) \<Rightarrow>
          if key_found < key then cxx_assert b False (Inr (False, False))
          else if key_found = key then
            (if bypass then Inr (True, True)
             else if left \<and> right then Inr (False, False)
             else if \<not> left \<and> right then Inr (True, False)
             else if \<not> left \<and> \<not> right then Inr (True, False)
             else Inr (False, False))
          else
            (if bypass then Inr (\<not> right, False)
             else if left \<and> right then Inr (False, False)
             else Inr (\<not> right, False)))"

section \<open>Merging before storing\<close>

definition range_order :: "bool \<Rightarrow> 'k::linorder range list \<Rightarrow> bool" where
  "range_order allow rs = (if allow then ordered_ranges rs else canonical rs)"

lemma range_order_ordered: "range_order allow rs \<Longrightarrow> ordered_ranges rs"
  by (auto simp: range_order_def canonical_ordered split: if_splits)

lemma range_order_Nil [simp]: "range_order allow []"
  by (simp add: range_order_def ordered_ranges_def)

lemma range_order_Cons:
  "range_order allow (r # rs) \<longleftrightarrow>
     fst r < snd r \<and> (\<forall>s \<in> set rs. \<not> shall_be_merged allow (snd r) (fst s)) \<and> range_order allow rs"
  by (auto simp: range_order_def shall_be_merged_def ordered_ranges_Cons canonical_Cons not_less not_le)

lemma surf_merge_loop_cover:
  "by_start (t # xs) \<Longrightarrow> cover (surf_merge_loop allow t xs) = cover (t # xs)"
proof (induction allow t xs rule: surf_merge_loop.induct)
  case (2 allow t r rs)
  show ?case
  proof (cases "shall_be_merged allow (snd t) (fst r)")
    case True
    then have "fst r \<le> snd t" by (auto simp: shall_be_merged_def split: if_splits)
    moreover have "cover (surf_merge_loop allow t (r # rs)) = cover ((fst t, max (snd t) (snd r)) # rs)"
      using 2 True by (auto simp: by_start_Cons)
    ultimately show ?thesis
      using "2.prems" range_join[of "fst t" "fst r" "snd t" "snd r"] by (auto simp: cover_Cons by_start_Cons)
  next
    case False
    then show ?thesis using 2 by (auto simp: cover_Cons by_start_Cons)
  qed
qed simp

lemma surf_merge_loop_start:
  "by_start (t # xs) \<Longrightarrow> r \<in> set (surf_merge_loop allow t xs) \<Longrightarrow> fst t \<le> fst r"
proof (induction allow t xs rule: surf_merge_loop.induct)
  case (2 allow t a xs)
  then show ?case by (fastforce simp: by_start_Cons split: if_splits)
qed simp

lemma surf_merge_loop_order:
  "by_start (t # xs) \<Longrightarrow> nonempty_ranges (t # xs) \<Longrightarrow> range_order allow (surf_merge_loop allow t xs)"
proof (induction allow t xs rule: surf_merge_loop.induct)
  case (2 allow t r rs)
  show ?case
  proof (cases "shall_be_merged allow (snd t) (fst r)")
    case True
    then show ?thesis using 2 by (auto simp: by_start_Cons nonempty_ranges_Cons max_def)
  next
    case False
    have "by_start (r # rs)" using "2.prems" by (simp add: by_start_Cons)
    then have "fst r \<le> fst s" if "s \<in> set (surf_merge_loop allow r rs)" for s
      using surf_merge_loop_start[OF _ that] by blast
    then have "\<not> shall_be_merged allow (snd t) (fst s)" if "s \<in> set (surf_merge_loop allow r rs)" for s
      using that False by (fastforce simp: shall_be_merged_def split: if_splits)
    then show ?thesis using 2 False by (auto simp: by_start_Cons nonempty_ranges_Cons range_order_Cons)
  qed
qed (simp add: nonempty_ranges_Cons range_order_Cons)

lemma not_flag_merge_order:
  "\<not> flag_merge allow rs \<Longrightarrow> by_start rs \<Longrightarrow> nonempty_ranges rs \<Longrightarrow> range_order allow rs"
proof (induction allow rs rule: flag_merge.induct)
  case (1 allow r s rs)
  have "\<not> shall_be_merged allow (snd r) (fst t)" if "t \<in> set (s # rs)" for t
    using that "1.prems" by (fastforce simp: shall_be_merged_def by_start_Cons split: if_splits)
  then show ?case using 1 by (auto simp: range_order_Cons nonempty_ranges_Cons by_start_Cons)
qed (auto simp: range_order_Cons nonempty_ranges_Cons)

lemma sort_by_start: "by_start (sort rs)"
proof -
  have "sorted_wrt (\<le>) (sort rs)" by simp
  then have "sorted_wrt (\<lambda>r s. fst r \<le> fst s) (sort rs)"
    by (rule sorted_wrt_mono_rel[rotated]) (auto simp: less_eq_prod_def)
  then show ?thesis by (simp add: by_start_def sorted_map)
qed

lemma surf_merge_ok:
  shows "cover (surf_merge allow rs) = cover rs"
    and "nonempty_ranges rs \<Longrightarrow> range_order allow (surf_merge allow rs)"
    and "surf_merge allow rs = [] \<longleftrightarrow> rs = []"
proof -
  have set: "set (sort rs) = set rs" by simp
  have start: "by_start (sort rs)" by (rule sort_by_start)
  have c: "cover (sort rs) = cover rs" using set by (rule cover_set_cong)
  have ne: "nonempty_ranges (sort rs) \<longleftrightarrow> nonempty_ranges rs" using set by (rule nonempty_ranges_set)
  show "cover (surf_merge allow rs) = cover rs"
    using c start by (cases "sort rs") (simp_all add: surf_merge_def surf_merge_loop_cover Let_def)
  show "range_order allow (surf_merge allow rs)" if "nonempty_ranges rs"
    using that ne start
    by (cases "sort rs") (simp_all add: surf_merge_def surf_merge_loop_order not_flag_merge_order Let_def)
  have "surf_merge_loop allow t xs \<noteq> []" for t :: "'a range" and xs
    by (induction allow t xs rule: surf_merge_loop.induct) auto
  then show "surf_merge allow rs = [] \<longleftrightarrow> rs = []"
    using set by (cases "sort rs") (auto simp: surf_merge_def Let_def)
qed

lemma surf_merge_canonical: "nonempty_ranges rs \<Longrightarrow> surf_merge False rs = sortAndMerge rs"
  using surf_merge_ok(1,2)[where allow = False and rs = rs] canonical_sortAndMerge[of rs]
  by (intro canonical_unique) (auto simp: cover_simps range_order_def)

lemma not_overlapped_ordered: "ordered_ranges rs \<Longrightarrow> not_overlapped rs"
  by (induction rs rule: not_overlapped.induct) (auto simp: ordered_ranges_Cons)

section \<open>The stored keys of a list of ranges\<close>

text \<open>\<open>P\<close> are the point keys, \<open>e\<close> says that the first start is also the end of a range.\<close>

fun brackets :: "'k::linorder list \<Rightarrow> bool \<Rightarrow> 'k range list \<Rightarrow> 'k entry list" where
  "brackets P e [] = []"
| "brackets P e (r # rs) =
     (if fst r \<in> set P \<and> \<not> e then (fst r, False, False) else (fst r, True, e)) #
     map (\<lambda>p. (p, False, True)) (filter (\<lambda>p. fst r < p \<and> p < snd r) P) @
     (if rs \<noteq> [] \<and> fst (hd rs) = snd r then brackets P True rs
      else (snd r, False, True) # brackets P False rs)"

definition split_points :: "'k::linorder list \<Rightarrow> 'k range list \<Rightarrow> nat" where
  "split_points P rs = sum_list (map (\<lambda>r. length (filter (\<lambda>p. fst r < p \<and> p < snd r) P)) rs)"

definition fresh :: "'k::linorder option \<Rightarrow> 'k list \<Rightarrow> bool" where
  "fresh prev ps \<longleftrightarrow> sorted_wrt (<) ps \<and> (\<forall>q. prev = Some q \<longrightarrow> (\<forall>p \<in> set ps. q < p))"

definition fits :: "nat \<Rightarrow> string range list \<Rightarrow> bool" where
  "fits n rs \<longleftrightarrow> (\<forall>r \<in> set rs. length (fst r) \<le> n \<and> length (snd r) \<le> n)"

lemma brackets_drop:
  assumes "ordered_ranges rs" "sorted_wrt (<) P" "rs \<noteq> [] \<Longrightarrow> x \<le> fst (hd rs)"
  shows "brackets (dropWhile (\<lambda>p. p < x) P) e rs = brackets P e rs"
    and "split_points (dropWhile (\<lambda>p. p < x) P) rs = split_points P rs"
proof -
  have drop: "filter Q (dropWhile (\<lambda>p. p < x) P) = filter Q P" if "\<And>p. Q p \<Longrightarrow> x \<le> p" for Q
    using that by (induction P) (auto simp: not_le[symmetric])
  have mem: "a \<in> set (dropWhile (\<lambda>p. p < x) P) \<longleftrightarrow> a \<in> set P" if "x \<le> a" for a
    using that by (induction P) auto
  have ge: "x \<le> fst r" if "r \<in> set rs" for r
    using assms(1,3) that by (cases rs) (fastforce simp: ordered_ranges_Cons)+
  show "brackets (dropWhile (\<lambda>p. p < x) P) e rs = brackets P e rs"
    using ge
  proof (induction rs arbitrary: e)
    case (Cons r rs)
    have "x \<le> fst r" using Cons.prems by simp
    then have "filter (\<lambda>p. fst r < p \<and> p < snd r) (dropWhile (\<lambda>p. p < x) P) =
        filter (\<lambda>p. fst r < p \<and> p < snd r) P" by (intro drop) auto
    then show ?case using Cons mem by simp
  qed simp
  show "split_points (dropWhile (\<lambda>p. p < x) P) rs = split_points P rs"
    unfolding split_points_def using ge by (intro arg_cong[of _ _ sum_list] map_cong refl arg_cong[of _ _ length] drop) force
qed

lemma fresh_None [simp]: "fresh None ps \<longleftrightarrow> sorted_wrt (<) ps"
  by (simp add: fresh_def)

lemma skip_points_eq:
  "fresh prev ps \<Longrightarrow> \<exists>prev'. skip_points a prev ps = (prev', dropWhile (\<lambda>p. p < a) ps) \<and>
     fresh prev' (dropWhile (\<lambda>p. p < a) ps)"
proof (induction a prev ps rule: skip_points.induct)
  case (2 a prev p ps)
  then show ?case by (cases "p < a") (auto simp: fresh_def)
qed (simp add: fresh_def)

lemma split_points_loop_inner:
  assumes "fresh prev ps" "\<forall>p \<in> set ps. a < p \<and> length p \<le> n" "length a \<le> n"
  shows "\<exists>prev'. split_points_loop n allow a z prev ps keys c =
           (prev', dropWhile (\<lambda>p. p < z) ps,
            keys @ map (\<lambda>p. (p, False, True)) (takeWhile (\<lambda>p. p < z) ps),
            c + length (takeWhile (\<lambda>p. p < z) ps)) \<and> fresh prev' (dropWhile (\<lambda>p. p < z) ps)"
  using assms
proof (induction ps arbitrary: prev keys c)
  case (Cons p ps)
  have p: "take n p = p" "p \<noteq> a" using Cons.prems by auto
  have prev: "\<not> (case prev of Some q \<Rightarrow> p = take n q | None \<Rightarrow> False)"
  proof (cases prev)
    case (Some q)
    then have "q < p" using Cons.prems(1) by (simp add: fresh_def)
    moreover have "take n q \<le> q" by (rule prefix_le) (rule take_is_prefix)
    ultimately show ?thesis using Some by auto
  qed simp
  have "fresh (Some p) ps" using Cons.prems(1) by (simp add: fresh_def)
  then show ?case
    using Cons.IH[of "Some p" "keys @ [(p, False, True)]" "c + 1"] Cons.prems p prev
    by (cases "p < z") (auto simp: Let_def not_le)
qed (simp add: fresh_def)

lemma strict_sorted_takeWhile:
  "sorted_wrt (<) ps \<Longrightarrow> takeWhile (\<lambda>p. p < z) ps = filter (\<lambda>p. p < (z :: 'k::linorder)) ps"
  by (induction ps) (auto intro!: filter_False[symmetric] dest: order.strict_trans)

lemma split_points_loop_eq:
  assumes "fresh prev ps" "\<forall>p \<in> set ps. a \<le> p \<and> length p \<le> n" "length a \<le> n" "a < z"
    and keys: "keys = base @ [(a, True, e)]" and "e \<longrightarrow> allow"
  shows "\<exists>prev'. split_points_loop n allow a z prev ps keys c =
           (prev', dropWhile (\<lambda>p. p < z) ps,
            base @ (if a \<in> set ps \<and> \<not> e then (a, False, False) else (a, True, e)) #
              map (\<lambda>p. (p, False, True)) (filter (\<lambda>p. a < p \<and> p < z) ps),
            c + length (filter (\<lambda>p. a < p \<and> p < z) ps)) \<and> fresh prev' (dropWhile (\<lambda>p. p < z) ps)"
proof -
  have sorted: "sorted_wrt (<) ps" using assms(1) by (simp add: fresh_def)
  show ?thesis
  proof (cases "a \<in> set ps")
    case False
    then have gt: "\<forall>p \<in> set ps. a < p \<and> length p \<le> n" using assms(2) by (force simp: order_le_less)
    then have "filter (\<lambda>p. a < p \<and> p < z) ps = takeWhile (\<lambda>p. p < z) ps"
      using strict_sorted_takeWhile[OF sorted] by (auto intro!: filter_cong)
    then show ?thesis
      using split_points_loop_inner[OF assms(1) gt assms(3), of allow z keys c] False keys by simp
  next
    case True
    then obtain qs where ps: "ps = a # qs" and gt: "\<forall>p \<in> set qs. a < p"
      using sorted assms(2) by (cases ps) (auto simp: order_le_less)
    have prev: "\<not> (case prev of Some q \<Rightarrow> a = take n q | None \<Rightarrow> False)"
    proof (cases prev)
      case (Some q)
      then have "q < a" using assms(1) ps by (simp add: fresh_def)
      moreover have "take n q \<le> q" by (rule prefix_le) (rule take_is_prefix)
      ultimately show ?thesis using Some by auto
    qed simp
    have "fresh (Some a) qs" using assms(1) ps by (simp add: fresh_def)
    moreover have "filter (\<lambda>p. a < p \<and> p < z) ps = takeWhile (\<lambda>p. p < z) qs"
      using gt sorted ps strict_sorted_takeWhile[of qs z] by (auto intro!: filter_cong)
    moreover have "split_start allow keys = base @ [if \<not> e then (a, False, False) else (a, True, e)]"
      using keys assms(6) by (auto simp: split_start_def)
    ultimately show ?thesis
      using split_points_loop_inner[of "Some a" qs a n allow z "split_start allow keys" c]
        assms(2-4) ps gt prev by (auto simp: Let_def)
  qed
qed

lemma fold_push_range_split:
  assumes "range_order allow rs" "fits n rs" "fresh prev ps" "\<forall>p \<in> set ps. length p \<le> n"
    and "acc = [] \<or> snd (last acc) = (False, True)"
    and "rs \<noteq> [] \<and> acc \<noteq> [] \<longrightarrow> \<not> shall_be_merged allow (fst (last acc)) (fst (hd rs))"
  shows "\<exists>prev' ps'. fold (push_range_split n allow) rs (prev, ps, acc, c) =
    (prev', ps', (if rs \<noteq> [] \<and> acc \<noteq> [] \<and> fst (last acc) = fst (hd rs)
                  then butlast acc @ brackets ps True rs else acc @ brackets ps False rs),
     c + split_points ps rs)"
  using assms
proof (induction rs arbitrary: prev ps acc c)
  case (Cons r rs)
  let ?a = "fst r" and ?z = "snd r"
  let ?ps = "dropWhile (\<lambda>p. p < ?a) ps"
  let ?join = "acc \<noteq> [] \<and> fst (last acc) = ?a"
  let ?base = "if ?join then butlast acc else acc"
  have sorted: "sorted_wrt (<) ps" using Cons.prems(3) by (simp add: fresh_def)
  have r: "?a < ?z" "length ?a \<le> n" "length ?z \<le> n" and ro: "range_order allow rs" and ft: "fits n rs"
    and sep: "\<forall>s \<in> set rs. \<not> shall_be_merged allow ?z (fst s)"
    using Cons.prems(1,2) by (auto simp: range_order_Cons fits_def)
  have join: "?join \<longrightarrow> allow" using Cons.prems(6) by (auto simp: shall_be_merged_def split: if_splits)
  obtain prev1 where p1: "skip_points ?a prev ps = (prev1, ?ps)" "fresh prev1 ?ps"
    using skip_points_eq[OF Cons.prems(3)] by blast
  have lens: "\<forall>p \<in> set ?ps. length p \<le> n" using Cons.prems(4) by (auto dest: set_dropWhileD)
  have ge: "\<forall>p \<in> set ?ps. ?a \<le> p"
    using sorted by (induction ps) (auto dest: order.strict_trans)
  have start: "push_start ?a acc = ?base @ [(?a, True, ?join)]"
    using Cons.prems(5) by (auto simp: push_start_def)
  obtain prev2 where p2: "split_points_loop n allow ?a ?z prev1 ?ps (push_start ?a acc) c =
      (prev2, dropWhile (\<lambda>p. p < ?z) ?ps,
       ?base @ (if ?a \<in> set ?ps \<and> \<not> ?join then (?a, False, False) else (?a, True, ?join)) #
         map (\<lambda>p. (p, False, True)) (filter (\<lambda>p. ?a < p \<and> p < ?z) ?ps),
       c + length (filter (\<lambda>p. ?a < p \<and> p < ?z) ?ps))"
    "fresh prev2 (dropWhile (\<lambda>p. p < ?z) ?ps)"
    using split_points_loop_eq[OF p1(2) _ r(2,1) start, of allow c] ge lens join by blast
  let ?q = "dropWhile (\<lambda>p. p < ?z) ?ps"
  let ?inner = "filter (\<lambda>p. ?a < p \<and> p < ?z) ?ps"
  define body where "body = ?base @ (if ?a \<in> set ?ps \<and> \<not> ?join then (?a, False, False) else (?a, True, ?join)) #
    map (\<lambda>p. (p, False, True)) ?inner"
  have step: "push_range_split n allow r (prev, ps, acc, c) =
      (prev2, ?q, body @ [(?z, False, True)], c + length ?inner)"
    using p1(1) p2(1) r by (auto simp: push_range_split_def body_def Let_def)
  have "\<forall>p \<in> set ?q. length p \<le> n" using lens by (meson set_dropWhileD)
  moreover have "rs \<noteq> [] \<longrightarrow> \<not> shall_be_merged allow ?z (fst (hd rs))" using sep by simp
  ultimately obtain prev3 ps3 where IH: "fold (push_range_split n allow) rs (prev2, ?q, body @ [(?z, False, True)], c + length ?inner) =
      (prev3, ps3, (if rs \<noteq> [] \<and> ?z = fst (hd rs) then body @ brackets ?q True rs
                    else body @ (?z, False, True) # brackets ?q False rs),
       c + length ?inner + split_points ?q rs)"
    using Cons.IH[OF ro ft p2(2), of "body @ [(?z, False, True)]" "c + length ?inner"] by auto
  have sorted': "sorted_wrt (<) ?ps" using p1(2) by (simp add: fresh_def)
  have rest: "brackets ?q e rs = brackets ?ps e rs" "split_points ?q rs = split_points ?ps rs" for e
    using brackets_drop[OF range_order_ordered[OF ro] sorted', of ?z] range_order_ordered[OF Cons.prems(1)]
    by (auto simp: ordered_ranges_Cons)
  have all: "brackets ?ps e (r # rs) = brackets ps e (r # rs)" "split_points ?ps (r # rs) = split_points ps (r # rs)" for e
    using brackets_drop[OF range_order_ordered[OF Cons.prems(1)] sorted, of ?a] by auto
  have "c + length ?inner + split_points ?q rs = c + split_points ps (r # rs)"
    unfolding all(2)[symmetric] rest by (simp add: split_points_def)
  moreover have "(if rs \<noteq> [] \<and> ?z = fst (hd rs) then body @ brackets ?q True rs
      else body @ (?z, False, True) # brackets ?q False rs) = ?base @ brackets ps ?join (r # rs)"
    unfolding all(1)[symmetric] rest body_def by auto
  ultimately show ?case using IH step by (cases ?join) auto
qed (simp add: split_points_def)

lemma fold_push_range:
  "fold (push_range_split n allow) rs (prev, [], acc, c) = (prev, [], fold (push_range n) rs acc, c)"
  by (induction rs arbitrary: acc) (simp_all add: push_range_split_def push_range_def Let_def)

lemma stored_keys_split:
  assumes "range_order allow rs" "fits n rs" "sorted_wrt (<) ps" "\<forall>p \<in> set ps. length p \<le> n"
  shows "\<exists>prev' ps'. fold (push_range_split n allow) rs (None, ps, [], 0) =
           (prev', ps', brackets ps False rs, split_points ps rs)"
  using fold_push_range_split[of allow rs n None ps "[]" 0] assms by simp

lemma stored_keys:
  assumes "range_order allow rs" "fits n rs"
  shows "fold (push_range n) rs [] = brackets [] False rs"
  using stored_keys_split[OF assms, of "[]"] by (auto simp: fold_push_range)

section \<open>Reading the stored keys\<close>

definition open_cover :: "'k::linorder range list \<Rightarrow> 'k set" where
  "open_cover rs = (\<Union>r \<in> set rs. {fst r<..<snd r})"

definition find_entry :: "'k::linorder \<Rightarrow> 'k entry list \<Rightarrow> 'k entry option" where
  "find_entry k es = find (\<lambda>e. k \<le> fst e) es"

lemma find_entry_Cons: "find_entry k (e # es) = (if k \<le> fst e then Some e else find_entry k es)"
  by (simp add: find_entry_def)

lemma find_append: "find Q (xs @ ys) = (case find Q xs of None \<Rightarrow> find Q ys | Some x \<Rightarrow> Some x)"
  by (induction xs) auto

lemma find_entry_inner:
  fixes k :: "'k::linorder"
  assumes "sorted_wrt (<) P" "a < k"
  shows "find_entry k (map (\<lambda>p. (p, False, True)) (filter (\<lambda>p. a < p \<and> p < z) P)) =
     (case find (\<lambda>p. k \<le> p) P of None \<Rightarrow> None
      | Some p \<Rightarrow> if p < z then Some (p, False, True) else None)"
  using assms
proof (induction P)
  case (Cons p P)
  have "filter (\<lambda>p. a < p \<and> p < z) P = []" if "\<not> p < z"
    using that Cons.prems(1) by (auto simp: filter_empty_conv dest: order.strict_trans)
  then show ?case using Cons by (auto simp: find_entry_def split: option.splits)
qed (simp add: find_entry_def)

lemma find_point:
  fixes k :: "'k::linorder"
  assumes "sorted_wrt (<) P"
  shows "find (\<lambda>p. k \<le> p) P = Some k \<longleftrightarrow> k \<in> set P"
    and "find (\<lambda>p. k \<le> p) P = Some p \<Longrightarrow> k \<le> p"
proof -
  show "find (\<lambda>p. k \<le> p) P = Some k \<longleftrightarrow> k \<in> set P"
    using assms by (induction P) (auto simp: find_Some_iff)
  show "find (\<lambda>p. k \<le> p) P = Some p \<Longrightarrow> k \<le> p" by (auto simp: find_Some_iff)
qed

text \<open>The entry the search stops at, for a key in the first range, at its end, or behind it.\<close>

lemma find_entry_brackets:
  fixes k :: "'k::linorder"
  assumes "sorted_wrt (<) P" "fst r < snd r"
  shows "find_entry k (brackets P e (r # rs)) =
    (if k \<le> fst r then Some (if fst r \<in> set P \<and> \<not> e then (fst r, False, False) else (fst r, True, e))
     else case find (\<lambda>p. k \<le> p) P of
       Some p \<Rightarrow> if p < snd r then Some (p, False, True)
                 else find_entry k (if rs \<noteq> [] \<and> fst (hd rs) = snd r then brackets P True rs
                                    else (snd r, False, True) # brackets P False rs)
     | None \<Rightarrow> find_entry k (if rs \<noteq> [] \<and> fst (hd rs) = snd r then brackets P True rs
                              else (snd r, False, True) # brackets P False rs))"
  using find_entry_inner[OF assms(1), of "fst r" k "snd r"]
  by (auto simp: find_entry_def find_append split: option.split)

lemma closed_query:
  fixes k :: "'k::linorder"
  assumes "canonical rs" "sorted_wrt (<) P"
  shows "entry_alive b False k (find_entry k (brackets P False rs)) = Inr (k \<notin> cover rs - set P, False)"
  using assms
proof (induction rs)
  case Nil
  then show ?case by (simp add: find_entry_def entry_alive_def)
next
  case (Cons r rs)
  have r: "fst r < snd r" and can: "canonical rs" and gap: "\<forall>s \<in> set rs. snd r < fst s"
    using Cons.prems(1) by (auto simp: canonical_Cons)
  have nojoin: "\<not> (rs \<noteq> [] \<and> fst (hd rs) = snd r)" using gap by (metis hd_in_set order_less_irrefl)
  have behind: "k \<notin> cover rs" if "k \<le> snd r"
    using that canonical_Cons_cover_ge[OF Cons.prems(1)] by (meson not_le)
  note find = find_entry_brackets[OF assms(2) r, of k False rs]
  consider "k \<le> fst r" | "fst r < k" "k < snd r" | "snd r \<le> k" by force
  then show ?case
  proof cases
    case 1
    then have "k \<notin> cover rs" using behind r by simp
    then show ?thesis using 1 r unfolding find by (auto simp: entry_alive_def cover_Cons)
  next
    case 2
    then have "k \<in> cover (r # rs)" by (auto simp: cover_Cons)
    then show ?thesis
      using 2 nojoin find_point[OF assms(2), of k] unfolding find
      by (cases "find (\<lambda>p. k \<le> p) P") (auto simp: entry_alive_def find_entry_def)
  next
    case 3
    then have cov: "k \<in> cover (r # rs) \<longleftrightarrow> k \<in> cover rs" by (auto simp: cover_Cons)
    have "find_entry k (brackets P False (r # rs)) = find_entry k ((snd r, False, True) # brackets P False rs)"
      using 3 r nojoin find_point(2)[OF assms(2), of k] unfolding find
      by (cases "find (\<lambda>p. k \<le> p) P") auto
    then show ?thesis
      using 3 cov Cons.IH[OF can assms(2)] behind by (cases "k = snd r") (auto simp: find_entry_def entry_alive_def)
  qed
qed

definition stored :: "'k::linorder list \<Rightarrow> 'k range list \<Rightarrow> 'k set" where
  "stored P rs = fst ` set rs \<union> snd ` set rs \<union> (set P \<inter> cover rs)"

lemma stored_Cons:
  "stored P (r # rs) = {fst r, snd r} \<union> (set P \<inter> {fst r..<snd r}) \<union> stored P rs"
  by (auto simp: stored_def cover_Cons)

lemma stored_hd: "rs \<noteq> [] \<Longrightarrow> fst (hd rs) \<in> stored P rs"
  by (cases rs) (auto simp: stored_def)

lemma fst_brackets:
  assumes "ordered_ranges rs"
  shows "fst ` set (brackets P e rs) = stored P rs"
  using assms
proof (induction rs arbitrary: e)
  case (Cons r rs)
  have r: "fst r < snd r" and o: "ordered_ranges rs" using Cons.prems by (auto simp: ordered_ranges_Cons)
  let ?inner = "filter (\<lambda>p. fst r < p \<and> p < snd r) P"
  let ?next = "if rs \<noteq> [] \<and> fst (hd rs) = snd r then brackets P True rs else (snd r, False, True) # brackets P False rs"
  have "fst ` set (brackets P e (r # rs)) = {fst r} \<union> set ?inner \<union> fst ` set ?next"
    by (simp add: image_Un image_image)
  moreover have "fst ` set ?next = {snd r} \<union> stored P rs"
    using Cons.IH[OF o] stored_hd[of rs P] by auto
  moreover have "{fst r} \<union> set ?inner = {fst r} \<union> (set P \<inter> {fst r..<snd r})" using r by auto
  ultimately show ?case unfolding stored_Cons by auto
qed (simp add: stored_def)

lemma brackets_sorted:
  assumes "ordered_ranges rs" "sorted_wrt (<) P"
  shows "sorted_wrt (<) (map fst (brackets P e rs)) \<and>
         (\<forall>k \<in> set (map fst (brackets P e rs)). rs \<noteq> [] \<and> fst (hd rs) \<le> k)"
  using assms(1)
proof (induction rs arbitrary: e)
  case (Cons r rs)
  have r: "fst r < snd r" "ordered_ranges rs" and ge: "\<forall>s \<in> set rs. snd r \<le> fst s"
    using Cons.prems by (auto simp: ordered_ranges_Cons)
  let ?inner = "filter (\<lambda>p. fst r < p \<and> p < snd r) P"
  define next_keys where "next_keys = map fst
    (if rs \<noteq> [] \<and> fst (hd rs) = snd r then brackets P True rs else (snd r, False, True) # brackets P False rs)"
  have hd: "rs \<noteq> [] \<Longrightarrow> snd r \<le> fst (hd rs)" using ge by simp
  have low: "rs \<noteq> [] \<and> fst (hd rs) \<le> k" if "k \<in> set (map fst (brackets P e rs))" for k e
    using Cons.IH[OF r(2), of e] that by blast
  have "sorted_wrt (<) next_keys \<and> (\<forall>k \<in> set next_keys. snd r \<le> k)"
  proof (cases "rs \<noteq> [] \<and> fst (hd rs) = snd r")
    case True
    have "next_keys = map fst (brackets P True rs)" unfolding next_keys_def if_P[OF True] ..
    then show ?thesis using Cons.IH[OF r(2), of True] True by simp
  next
    case False
    have "snd r < k" if "k \<in> set (map fst (brackets P False rs))" for k
    proof -
      have "fst (hd rs) \<le> k" "rs \<noteq> []" using low[OF that] by auto
      moreover have "snd r < fst (hd rs)" using hd False \<open>rs \<noteq> []\<close> by (simp add: order_less_le)
      ultimately show ?thesis by order
    qed
    moreover have "next_keys = snd r # map fst (brackets P False rs)" unfolding next_keys_def if_not_P[OF False] by simp
    ultimately show ?thesis using Cons.IH[OF r(2), of False] by (simp add: order_less_imp_le)
  qed
  moreover have "sorted_wrt (<) ?inner" using assms(2) by (rule sorted_wrt_filter)
  ultimately have s: "sorted_wrt (<) (fst r # ?inner @ next_keys)"
    "\<forall>k \<in> set (fst r # ?inner @ next_keys). r # rs \<noteq> [] \<and> fst (hd (r # rs)) \<le> k"
    using r(1) by (auto simp: sorted_wrt_append)
  have eq: "map fst (brackets P e (r # rs)) = fst r # ?inner @ next_keys"
    by (simp add: next_keys_def comp_def)
  show ?case unfolding eq using s by (rule conjI)
qed simp

lemma stored_ge:
  assumes "ordered_ranges (r # rs)" "q \<in> stored P rs"
  shows "snd r \<le> q"
proof -
  have ge: "\<And>s. s \<in> set rs \<Longrightarrow> snd r \<le> fst s \<and> fst s < snd s"
    using assms(1) by (auto simp: ordered_ranges_Cons ordered_ranges_def)
  consider s where "s \<in> set rs" "q = fst s" | s where "s \<in> set rs" "q = snd s" | "q \<in> cover rs"
    using assms(2) by (auto simp: stored_def)
  then show ?thesis
  proof cases
    case 2
    then show ?thesis using ge[of s] by auto
  qed (use ge ordered_Cons_cover_ge[OF assms(1)] in auto)
qed

lemma open_cover_Cons: "open_cover (r # rs) = {fst r<..<snd r} \<union> open_cover rs"
  by (simp add: open_cover_def)

lemma open_cover_gt: "ordered_ranges (r # rs) \<Longrightarrow> q \<in> open_cover rs \<Longrightarrow> snd r < q"
  by (auto simp: open_cover_def ordered_ranges_Cons)

text \<open>With open boundaries: every stored key is alive, and so is everything outside the interiors.
  A key below the first start is dead only when that start closes a range (\<open>e\<close>).\<close>

definition open_answer :: "'k::linorder list \<Rightarrow> bool \<Rightarrow> 'k range list \<Rightarrow> 'k \<Rightarrow> bool \<times> bool" where
  "open_answer P e rs k =
     (k \<notin> open_cover rs - set P \<and> \<not> (e \<and> rs \<noteq> [] \<and> k < fst (hd rs)), k \<in> stored P rs)"

lemma open_query_next:
  fixes k :: "'k::linorder"
  assumes o: "ordered_ranges (r # rs)"
    and IH: "\<And>e. entry_alive b True k (find_entry k (brackets P e rs)) = Inr (open_answer P e rs k)"
  shows "entry_alive b True k (find_entry k
      (if rs \<noteq> [] \<and> fst (hd rs) = snd r then brackets P True rs else (snd r, False, True) # brackets P False rs)) =
    Inr (k \<notin> open_cover rs - set P \<and> \<not> k < snd r, k = snd r \<or> k \<in> stored P rs)"
proof (cases "rs \<noteq> [] \<and> fst (hd rs) = snd r")
  case True
  then have "snd r \<in> stored P rs" using stored_hd[of rs P] by auto
  then show ?thesis using True IH[of True] by (auto simp: open_answer_def)
next
  case False
  have gt: "k \<notin> stored P rs \<and> k \<notin> open_cover rs" if "k < snd r"
    using that stored_ge[OF o, of k P] open_cover_gt[OF o, of k] by (meson not_le order.asym)
  show ?thesis
  proof (cases k "snd r" rule: linorder_cases)
    case less
    then have "k \<le> snd r" "\<not> snd r < k" "snd r \<noteq> k" by auto
    then show ?thesis using less gt unfolding if_not_P[OF False] find_entry_Cons by (simp add: entry_alive_def)
  next
    case equal
    then have "k \<notin> open_cover rs" using open_cover_gt[OF o, of k] by auto
    then show ?thesis using equal unfolding if_not_P[OF False] find_entry_Cons by (simp add: entry_alive_def)
  next
    case greater
    then have "\<not> k \<le> snd r" "\<not> k < snd r" "k \<noteq> snd r" by auto
    then show ?thesis using IH[of False] unfolding if_not_P[OF False] find_entry_Cons by (simp add: open_answer_def)
  qed
qed

lemma open_query:
  fixes k :: "'k::linorder"
  assumes "ordered_ranges rs" "sorted_wrt (<) P"
  shows "entry_alive b True k (find_entry k (brackets P e rs)) = Inr (open_answer P e rs k)"
  using assms(1)
proof (induction rs arbitrary: e)
  case Nil
  then show ?case by (simp add: find_entry_def entry_alive_def open_cover_def stored_def open_answer_def)
next
  case (Cons r rs)
  have r: "fst r < snd r" and o: "ordered_ranges rs" using Cons.prems by (auto simp: ordered_ranges_Cons)
  note next_ok = open_query_next[OF Cons.prems Cons.IH[OF o]]
  note find = find_entry_brackets[OF assms(2) r, of k e rs]
  have gt: "k \<notin> stored P rs \<and> k \<notin> open_cover rs" if "k < snd r"
    using that stored_ge[OF Cons.prems, of k P] open_cover_gt[OF Cons.prems, of k] by (meson not_le order.asym)
  show ?case
  proof (cases "k \<le> fst r")
    case True
    then have "k < snd r" using r by order
    then show ?thesis
      using True gt r unfolding find open_answer_def open_cover_Cons stored_Cons
      by (cases "k = fst r") (auto simp: entry_alive_def)
  next
    case False
    show ?thesis
    proof (cases "\<exists>p. find (\<lambda>p. k \<le> p) P = Some p \<and> p < snd r")
      case True
      then obtain p where p: "find (\<lambda>p. k \<le> p) P = Some p" "p < snd r" by blast
      then have "k \<le> p" "k \<in> set P \<longleftrightarrow> k = p" using find_point[OF assms(2), of k] by auto
      moreover have "k < snd r" using \<open>k \<le> p\<close> p(2) by order
      ultimately show ?thesis
        using False gt p unfolding find open_answer_def open_cover_Cons stored_Cons
        by (cases "k = p") (auto simp: entry_alive_def)
    next
      case F: False
      then have eq: "find_entry k (brackets P e (r # rs)) = find_entry k
          (if rs \<noteq> [] \<and> fst (hd rs) = snd r then brackets P True rs else (snd r, False, True) # brackets P False rs)"
        using False unfolding find by (simp split: option.split)
      have "k \<notin> set P" if "k < snd r" using F that find_point(1)[OF assms(2), of k] by auto
      then show ?thesis
        using False unfolding eq next_ok open_answer_def open_cover_Cons stored_Cons by auto
    qed
  qed
qed

lemma to_ranges_inner:
  "to_ranges_loop (map (\<lambda>p. (p, False, True)) ps @ es) start stop False =
   to_ranges_loop es start (last (stop # ps)) False"
  by (induction ps arbitrary: stop) auto

lemma to_ranges_brackets:
  assumes "rs \<noteq> []"
  shows "to_ranges_loop (brackets P e rs) start stop first =
    (if first then [] else [(start, if e then fst (hd rs) else stop)]) @ rs"
  using assms
proof (induction rs arbitrary: e start stop first)
  case (Cons r rs)
  define inner where "inner = filter (\<lambda>p. fst r < p \<and> p < snd r) P"
  define after where "after = (if rs \<noteq> [] \<and> fst (hd rs) = snd r then brackets P True rs
    else (snd r, False, True) # brackets P False rs)"
  have rest: "to_ranges_loop after (fst r) x False = r # rs" for x
    using Cons.IH by (cases "rs = []") (auto simp: after_def)
  have eq: "brackets P e (r # rs) = (if fst r \<in> set P \<and> \<not> e then (fst r, False, False) else (fst r, True, e)) #
      map (\<lambda>p. (p, False, True)) inner @ after"
    by (simp add: inner_def after_def)
  show ?case unfolding eq by (cases e) (simp_all add: to_ranges_inner rest)
qed simp

section \<open>Storing ranges in a trie\<close>

definition trie_ok :: "'s surf_ops \<Rightarrow> nat \<Rightarrow> bool" where
  "trie_ok ops L \<longleftrightarrow>
     (\<forall>es. es \<noteq> [] \<and> sorted_wrt (<) (map fst es) \<and> (\<forall>e \<in> set es. length (fst e) = L) \<longrightarrow>
        surf_entries ops (surf_create ops es L) = es \<and>
        (\<forall>k d. length k = L \<longrightarrow> surf_seek ops (surf_create ops es L) k d = find_entry k es))"

definition fixed_len :: "nat \<Rightarrow> string range list \<Rightarrow> bool" where
  "fixed_len L rs \<longleftrightarrow> (\<forall>r \<in> set rs. length (fst r) = L \<and> length (snd r) = L)"

text \<open>An environment in which keys of length \<open>L\<close> are stored whole.\<close>

definition whole_keys :: "surf_env \<Rightarrow> nat \<Rightarrow> bool" where
  "whole_keys env L \<longleftrightarrow> \<not> use_surf_base env \<and> 0 < L \<and> L < 2 ^ 16 \<and>
     int L \<le> key_len_in_bytes env \<and> key_len_in_bytes env < 2 ^ 31"

lemma surf_merge_loop_ends:
  "r \<in> set (surf_merge_loop allow t xs) \<Longrightarrow>
     fst r \<in> fst ` set (t # xs) \<and> snd r \<in> snd ` set (t # xs)"
proof (induction allow t xs rule: surf_merge_loop.induct)
  case (2 allow t a xs)
  show ?case
  proof (cases "shall_be_merged allow (snd t) (fst a)")
    case True
    then show ?thesis using 2 by (auto simp: max_def split: if_splits)
  next
    case False
    then show ?thesis using 2 by auto
  qed
qed simp

lemma surf_merge_ends:
  "r \<in> set (surf_merge allow rs) \<Longrightarrow> fst r \<in> fst ` set rs \<and> snd r \<in> snd ` set rs"
proof -
  assume r: "r \<in> set (surf_merge allow rs)"
  have set: "set (sort rs) = set rs" by simp
  show ?thesis
  proof (cases "sort rs")
    case Nil
    then show ?thesis using r by (simp add: surf_merge_def Let_def)
  next
    case (Cons t xs)
    then have "r \<in> set (surf_merge_loop allow t xs) \<or> r \<in> set (t # xs)"
      using r by (auto simp: surf_merge_def Let_def split: if_splits)
    then show ?thesis using surf_merge_loop_ends[of r allow t xs] Cons set by (metis image_eqI)
  qed
qed

lemma fixed_len_merge: "fixed_len L rs \<Longrightarrow> fixed_len L (surf_merge allow rs)"
  unfolding fixed_len_def using surf_merge_ends by fastforce

lemma brackets_len:
  assumes "ordered_ranges rs" "fixed_len L rs" "\<forall>p \<in> set P. length p = L" "x \<in> set (brackets P e rs)"
  shows "length (fst x) = L"
proof -
  have "fst x \<in> stored P rs" using fst_brackets[OF assms(1), of P e] assms(4) by blast
  then show ?thesis using assms(2,3) by (auto simp: stored_def fixed_len_def)
qed

lemma fold_max_length:
  assumes "\<forall>k \<in> set ks. length k = L" "m \<le> L"
  shows "fold (\<lambda>k m. max m (length k)) ks m = (if ks = [] then m else L)"
  using assms by (induction ks arbitrary: m) auto

lemma store_keys_ok:
  assumes "whole_keys env L" "es \<noteq> []" "\<forall>e \<in> set es. length (fst e) = L"
  shows "store_keys b env ops es = Inr (surf_create ops es L)"
  using assms fold_max_length[of "map fst es" L 0]
  by (auto simp: store_keys_def whole_keys_def zip_map_fst_snd Let_def)

lemma brackets_Nil_iff: "brackets P e rs = [] \<longleftrightarrow> rs = []"
  by (cases rs) auto

text \<open>The keys a list of ranges is stored as.\<close>

definition surf_keys :: "bool \<Rightarrow> string list \<Rightarrow> string range list \<Rightarrow> string entry list" where
  "surf_keys allow P rs = brackets P False (surf_merge allow rs)"

lemma surf_keys_ok:
  assumes "nonempty_ranges rs" "rs \<noteq> []" "fixed_len L rs" "sorted_wrt (<) P" "\<forall>p \<in> set P. length p = L"
  shows "surf_keys allow P rs \<noteq> []" "sorted_wrt (<) (map fst (surf_keys allow P rs))"
    "\<forall>e \<in> set (surf_keys allow P rs). length (fst e) = L"
proof -
  have o: "ordered_ranges (surf_merge allow rs)"
    using surf_merge_ok(2)[OF assms(1)] range_order_ordered by blast
  show "surf_keys allow P rs \<noteq> []"
    using surf_merge_ok(3)[of allow rs] assms(2) by (simp add: surf_keys_def brackets_Nil_iff)
  show "sorted_wrt (<) (map fst (surf_keys allow P rs))"
    using brackets_sorted[OF o assms(4)] by (simp add: surf_keys_def)
  show "\<forall>e \<in> set (surf_keys allow P rs). length (fst e) = L"
    using brackets_len[OF o fixed_len_merge[OF assms(3)] assms(5)] by (simp add: surf_keys_def)
qed

lemma whole_keys_len: "whole_keys env L \<Longrightarrow> L \<le> u64_of (key_len_in_bytes env)"
  by (auto simp: whole_keys_def u64_of_def)

lemma rangesWithPointKeysToSurf_ok:
  assumes env: "whole_keys env L" and rs: "nonempty_ranges rs" "rs \<noteq> []" "fixed_len L rs"
    and P: "sorted_wrt (<) P" "\<forall>p \<in> set P. length p = L"
  shows "rangesWithPointKeysToSurf b env ops rs P allow =
     Inr (surf_create ops (surf_keys allow P rs) L, split_points P (surf_merge allow rs))"
proof -
  let ?n = "u64_of (key_len_in_bytes env)" and ?M = "surf_merge allow rs"
  have M: "range_order allow ?M" "?M \<noteq> []" using surf_merge_ok(2,3) rs by auto
  have fits: "fits ?n ?M" "\<forall>p \<in> set P. length p \<le> ?n"
    using fixed_len_merge[OF rs(3), of allow] whole_keys_len[OF env] P(2)
    by (auto simp: fits_def fixed_len_def)
  obtain prev' ps' where "fold (push_range_split ?n allow) ?M (None, P, [], 0) =
      (prev', ps', surf_keys allow P rs, split_points P ?M)"
    using stored_keys_split[OF M(1) fits(1) P(1) fits(2)] by (auto simp: surf_keys_def)
  then show ?thesis
    using M rs(2) not_overlapped_ordered[OF range_order_ordered[OF M(1)]]
      store_keys_ok[OF env, of "surf_keys allow P rs" b ops] surf_keys_ok[OF rs P, of allow]
    by (simp add: rangesWithPointKeysToSurf_def)
qed

lemma rangesToSurf_ok:
  assumes env: "whole_keys env L" and rs: "nonempty_ranges rs" "rs \<noteq> []" "fixed_len L rs"
  shows "rangesToSurf b env ops rs allow = Inr (surf_create ops (surf_keys allow [] rs) L)"
proof -
  let ?n = "u64_of (key_len_in_bytes env)" and ?M = "surf_merge allow rs"
  have M: "range_order allow ?M" "?M \<noteq> []" using surf_merge_ok(2,3) rs by auto
  have fits: "fits ?n ?M"
    using fixed_len_merge[OF rs(3), of allow] whole_keys_len[OF env] by (auto simp: fits_def fixed_len_def)
  show ?thesis
    using M rs(2) not_overlapped_ordered[OF range_order_ordered[OF M(1)]] stored_keys[OF M(1) fits]
      store_keys_ok[OF env, of "surf_keys allow [] rs" b ops] surf_keys_ok[OF rs, of "[]" allow]
    by (simp add: rangesToSurf_def surf_keys_def)
qed

lemma stored_trie:
  assumes "trie_ok ops L" "nonempty_ranges rs" "rs \<noteq> []" "fixed_len L rs"
    and "sorted_wrt (<) P" "\<forall>p \<in> set P. length p = L"
  shows "surf_entries ops (surf_create ops (surf_keys allow P rs) L) = surf_keys allow P rs"
    and "length k = L \<Longrightarrow> surf_seek ops (surf_create ops (surf_keys allow P rs) L) k d = find_entry k (surf_keys allow P rs)"
  using assms(1) surf_keys_ok[OF assms(2-6), of allow] by (auto simp: trie_ok_def)

lemma surf_keys_closed:
  assumes "nonempty_ranges rs" "sorted_wrt (<) P"
  shows "entry_alive b False k (find_entry k (surf_keys False P rs)) = Inr (k \<notin> cover rs - set P, False)"
  using closed_query[OF _ assms(2), of "surf_merge False rs" b k] surf_merge_ok(1,2)[where allow = False and rs = rs] assms(1)
  by (simp add: surf_keys_def range_order_def)

lemma surf_keys_open:
  assumes "nonempty_ranges rs" "sorted_wrt (<) P"
  shows "entry_alive b True k (find_entry k (surf_keys True P rs)) =
    Inr (k \<notin> open_cover (surf_merge True rs) - set P, k \<in> stored P (surf_merge True rs))"
  using open_query[OF _ assms(2), of "surf_merge True rs" b k False] surf_merge_ok(2)[where allow = True and rs = rs] assms(1)
  by (simp add: surf_keys_def range_order_def open_answer_def)

lemma surf_keys_ranges:
  assumes "rs \<noteq> []"
  shows "to_ranges_loop (surf_keys allow P rs) [] [] True = surf_merge allow rs"
  using to_ranges_brackets[of "surf_merge allow rs" P False "[]" "[]" True] surf_merge_ok(3)[of allow rs] assms
  by (simp add: surf_keys_def)

text \<open>A trie for witnesses: the list of its entries.\<close>

definition list_trie :: "string entry list surf_ops" where
  "list_trie = \<lparr>surf_create = (\<lambda>es n. es), surf_entries = (\<lambda>es. es),
     surf_seek = (\<lambda>es k d. find_entry k es), surf_bits = (\<lambda>es. 20 * length es)\<rparr>"

lemma trie_ok_list_trie: "trie_ok list_trie L"
  by (simp add: trie_ok_def list_trie_def)

definition plain_env :: surf_env where
  "plain_env = surf_env_default\<lparr>flag_bypass_if_same_key := False, flag_use_condensed_digit_key := False\<rparr>"

lemma whole_keys_plain: "0 < L \<Longrightarrow> L \<le> 12 \<Longrightarrow> whole_keys plain_env L"
  by (simp add: whole_keys_def plain_env_def surf_env_default_def)

section \<open>Properties\<close>


lemma sample_surf:
  "rangesWithPointKeysToSurf Debug plain_env list_trie [(''b'', ''f''), (''k'', ''m'')] [''c'', ''k''] False =
     Inr ([(''b'', True, False), (''c'', False, True), (''f'', False, True), (''k'', False, False), (''m'', False, True)], 1)"
  using rangesWithPointKeysToSurf_ok[OF whole_keys_plain[of 1], of "[(''b'', ''f''), (''k'', ''m'')]" "[''c'', ''k'']" Debug list_trie False]
  by (simp add: nonempty_ranges_def fixed_len_def surf_keys_def surf_merge_def split_points_def list_trie_def
      shall_be_merged_def)



lemma sample_surf_open:
  "rangesWithPointKeysToSurf Debug plain_env list_trie [(''b'', ''f''), (''f'', ''m'')] [''f''] True =
     Inr ([(''b'', True, False), (''f'', True, True), (''m'', False, True)], 0)"
  using rangesWithPointKeysToSurf_ok[OF whole_keys_plain[of 1], of "[(''b'', ''f''), (''f'', ''m'')]" "[''f'']" Debug list_trie True]
  by (simp add: nonempty_ranges_def fixed_len_def surf_keys_def surf_merge_def split_points_def list_trie_def
      shall_be_merged_def)






text \<open>The defaults of the two flags differ, which their accessors assert they do not.\<close>

lemma default_flags_inconsistent:
  "getFlagAllowRangeBoundaryOverlapped Debug surf_env_default = Inl Assert_failed"
  by (simp add: getFlagAllowRangeBoundaryOverlapped_def surf_env_default_def cxx_assert_def)

end
