(* ===== verification/SuRF_Filter.thy ===== *)
theory SuRF_Filter
  imports SuRF_Ranges
begin

text \<open>
  The class \<open>SuRF_RDF\<close> of SuRF/include/surf.cc: a range delete filter that keeps one SuRF per
  file of every level (\<open>PER_FILE\<close>) or one per level (\<open>PER_LEVEL\<close>). A \<open>SuRF*\<close> is a value of the
  trie type \<open>'s\<close> (a SuRF is never changed after it is built; \<open>None\<close> is the null pointer of
  \<open>PER_LEVEL\<close>), the \<open>unordered_map\<close> of a level a list of files in key order: the code only looks
  files up, stores, erases and sums over them.

  \<open>file_ranges\<close> and \<open>file_dead\<close> are the abstraction: the ranges stored for a file and the keys
  its filter reports as deleted.
\<close>

section \<open>State\<close>

datatype rdf_mode = PER_LEVEL | PER_FILE

record 's surf_rdf =
  surf_mode :: rdf_mode
  level_surf_rdf :: "(int \<times> 's option) list"
  level_file_surf_rdf :: "(fd \<times> int \<times> 's) list list"
  surf_numbers_log :: "int list"
  surf_memory_log :: "int list"
  surf_flag_key_may_deleted :: bool
  surf_search_count_kmd :: u32
  surf_search_count :: u32
  surf_may_deleted_count :: u32

definition surf_rdf_empty :: "rdf_mode \<Rightarrow> 's surf_rdf" where
  "surf_rdf_empty mode = \<lparr>surf_mode = mode, level_surf_rdf = [], level_file_surf_rdf = [],
     surf_numbers_log = [], surf_memory_log = [], surf_flag_key_may_deleted = False,
     surf_search_count_kmd = 0, surf_search_count = 0, surf_may_deleted_count = 0\<rparr>"

text \<open>The copy constructor: the counters start afresh, the tables of the other mode are not copied.\<close>

definition surf_rdf_copy :: "'s surf_rdf \<Rightarrow> 's surf_rdf" where
  "surf_rdf_copy s = (surf_rdf_empty (surf_mode s))\<lparr>
     level_surf_rdf := (if surf_mode s = PER_LEVEL then level_surf_rdf s else []),
     level_file_surf_rdf := (if surf_mode s = PER_FILE then level_file_surf_rdf s else []),
     surf_numbers_log := surf_numbers_log s, surf_memory_log := surf_memory_log s\<rparr>"

section \<open>Operations\<close>

text \<open>\<open>mergeRanges\<close>: after the first range, the smaller of the two next ones is merged into the
  last range of the output or appended.\<close>

fun merge_ranges_loop :: "bool \<Rightarrow> 'k::linorder range \<Rightarrow> 'k range list \<Rightarrow> 'k range list \<Rightarrow> 'k range list" where
  "merge_ranges_loop allow rd_last [] [] = [rd_last]"
| "merge_ranges_loop allow rd_last (a # r1) [] =
     (if snd rd_last < fst a \<or> snd rd_last = fst a \<and> allow then rd_last # merge_ranges_loop allow a r1 []
      else merge_ranges_loop allow (fst rd_last, max (snd rd_last) (snd a)) r1 [])"
| "merge_ranges_loop allow rd_last [] (b # r2) =
     (if snd rd_last < fst b \<or> snd rd_last = fst b \<and> allow then rd_last # merge_ranges_loop allow b [] r2
      else merge_ranges_loop allow (fst rd_last, max (snd rd_last) (snd b)) [] r2)"
| "merge_ranges_loop allow rd_last (a # r1) (b # r2) =
     (if a \<le> b then
        (if snd rd_last < fst a \<or> snd rd_last = fst a \<and> allow then rd_last # merge_ranges_loop allow a r1 (b # r2)
         else merge_ranges_loop allow (fst rd_last, max (snd rd_last) (snd a)) r1 (b # r2))
      else
        (if snd rd_last < fst b \<or> snd rd_last = fst b \<and> allow then rd_last # merge_ranges_loop allow b (a # r1) r2
         else merge_ranges_loop allow (fst rd_last, max (snd rd_last) (snd b)) (a # r1) r2))"

definition mergeRanges :: "bool \<Rightarrow> 'k::linorder range list \<Rightarrow> 'k range list \<Rightarrow> 'k range list" where
  "mergeRanges allow ranges_1 ranges_2 =
     (case (ranges_1, ranges_2) of
        ([], r2) \<Rightarrow> r2
      | (r1, []) \<Rightarrow> r1
      | (a # r1, b # r2) \<Rightarrow>
          if a \<le> b then merge_ranges_loop allow a r1 (b # r2) else merge_ranges_loop allow b (a # r1) r2)"

definition skip_repeated :: "('k range \<Rightarrow> bool) \<Rightarrow> 'k range list \<Rightarrow> 'k range list" where
  "skip_repeated Q ranges =
     foldl (\<lambda>out r. if out \<noteq> [] \<and> Q r \<and> r = last out then out else out @ [r]) [] ranges"

definition put_file :: "nat \<Rightarrow> fd \<Rightarrow> int \<times> 's \<Rightarrow> 's surf_rdf \<Rightarrow> 's surf_rdf" where
  "put_file level fd v s =
     (let t = grow [] level (level_file_surf_rdf s)
      in s\<lparr>level_file_surf_rdf := t[level := smap_put fd v (t ! level)]\<rparr>)"

definition file_entry :: "'s surf_rdf \<Rightarrow> nat \<Rightarrow> fd \<Rightarrow> (int \<times> 's) option" where
  "file_entry s level fd =
     (if level < length (level_file_surf_rdf s) then map_of (level_file_surf_rdf s ! level) fd else None)"

definition insertRangesAtLevelOfFd ::
  "build \<Rightarrow> surf_env \<Rightarrow> 's surf_ops \<Rightarrow> nat \<Rightarrow> fd \<Rightarrow> string range list \<Rightarrow> bool \<Rightarrow> 's surf_rdf \<Rightarrow> 's surf_rdf result" where
  "insertRangesAtLevelOfFd b env ops level fd ranges allow s =
     cxx_assert b (ranges \<noteq> [])
       (let ranges_processed = skip_repeated (\<lambda>r. fst r = snd r) ranges
        in cxx_assert b (surf_mode s = PER_FILE) (cxx_assert b (file_entry s level fd = None)
             (bind_res (rangesToSurf b env ops ranges_processed allow) (\<lambda>surf.
                cxx_assert b (ranges_processed \<noteq> [])
                  (Inr (put_file level fd (wrap32 (int (length ranges_processed)), surf) s))))))"

definition insertRangesWithPointKeysAtLevelOfFd ::
  "build \<Rightarrow> surf_env \<Rightarrow> 's surf_ops \<Rightarrow> nat \<Rightarrow> fd \<Rightarrow> string range list \<Rightarrow> string list \<Rightarrow> bool \<Rightarrow>
   's surf_rdf \<Rightarrow> 's surf_rdf result" where
  "insertRangesWithPointKeysAtLevelOfFd b env ops level fd ranges point_keys allow s =
     cxx_assert b (ranges \<noteq> [])
       (let ranges_processed = skip_repeated (\<lambda>r. True) ranges
        in cxx_assert b (surf_mode s = PER_FILE) (cxx_assert b (file_entry s level fd = None)
             (bind_res (rangesWithPointKeysToSurf b env ops ranges_processed point_keys allow)
               (\<lambda>(surf, split_count).
                cxx_assert b (ranges_processed \<noteq> [])
                  (Inr (put_file level fd (wrap32 (int (length ranges_processed + split_count)), surf) s))))))"

text \<open>The flush of a memtable. In \<open>PER_LEVEL\<close> the new SuRF holds the flushed ranges only, while
  the number beside it counts the merged ranges. A file number already present is only reported.\<close>

definition insertRangeDeleteToLevel0_surf ::
  "build \<Rightarrow> surf_env \<Rightarrow> 's surf_ops \<Rightarrow> fd \<Rightarrow> string range list \<Rightarrow> bool \<Rightarrow> 's surf_rdf \<Rightarrow> 's surf_rdf result" where
  "insertRangeDeleteToLevel0_surf b env ops file_num range_delete_list_in allow s =
     (if range_delete_list_in = [] then Inr s
      else if surf_mode s = PER_LEVEL then
        (case level_surf_rdf s of
           [] \<Rightarrow> bind_res (rangesToSurf b env ops range_delete_list_in allow) (\<lambda>surf.
                   Inr (s\<lparr>level_surf_rdf := [(wrap32 (int (length range_delete_list_in)), Some surf)]\<rparr>))
         | (n, None) # rest \<Rightarrow> Inl Undefined_behaviour
         | (n, Some surf) # rest \<Rightarrow>
             let range_list = mergeRanges False (surfToRanges ops surf) range_delete_list_in
             in bind_res (rangesToSurf b env ops range_delete_list_in allow) (\<lambda>surf_next.
                  Inr (s\<lparr>level_surf_rdf := (wrap32 (int (length range_list)), Some surf_next) # rest\<rparr>)))
      else if file_entry s 0 file_num \<noteq> None then Inr s
      else insertRangesAtLevelOfFd b env ops 0 file_num range_delete_list_in allow s)"

definition directMoveFileToLevel :: "build \<Rightarrow> fd \<Rightarrow> nat \<Rightarrow> nat \<Rightarrow> 's surf_rdf \<Rightarrow> 's surf_rdf result" where
  "directMoveFileToLevel b fd src_level dst_level s =
     (if surf_mode s = PER_LEVEL then
        (if src_level \<ge> length (level_surf_rdf s) then Inr s
         else if snd (level_surf_rdf s ! src_level) = None then Inr s
         else cxx_assert b False (Inr (s\<lparr>level_surf_rdf := grow (0, None) dst_level (level_surf_rdf s)\<rparr>)))
      else case file_entry s src_level fd of
        None \<Rightarrow> Inr s
      | Some (n, surf) \<Rightarrow>
          cxx_assert b (n > 0)
            (let s1 = put_file dst_level fd (n, surf) s
             in Inr (s1\<lparr>level_file_surf_rdf := (level_file_surf_rdf s1)[src_level :=
                        smap_erase fd (level_file_surf_rdf s1 ! src_level)]\<rparr>)))"

definition getRangeTombstonesAtLevelOfFd ::
  "build \<Rightarrow> 's surf_ops \<Rightarrow> nat \<Rightarrow> fd \<Rightarrow> 's surf_rdf \<Rightarrow> string range list result" where
  "getRangeTombstonesAtLevelOfFd b ops src_level fd s =
     cxx_assert b (surf_mode s = PER_FILE)
       (case file_entry s src_level fd of
          None \<Rightarrow> Inr []
        | Some (n, surf) \<Rightarrow> cxx_assert b (n > 0) (Inr (surfToRanges ops surf)))"

definition removeSuRFAtLevelOfFd :: "build \<Rightarrow> nat \<Rightarrow> fd \<Rightarrow> 's surf_rdf \<Rightarrow> 's surf_rdf result" where
  "removeSuRFAtLevelOfFd b src_level fd s =
     cxx_assert b (surf_mode s = PER_FILE)
       (if file_entry s src_level fd = None then Inr s
        else Inr (s\<lparr>level_file_surf_rdf := (level_file_surf_rdf s)[src_level :=
                     smap_erase fd (level_file_surf_rdf s ! src_level)]\<rparr>))"

text \<open>\<open>while (size() > 0 && size() - 1 >= bottom_level) pop_back();\<close>\<close>

definition deleteLastLevelIfEqualsBottomLevel_surf :: "nat \<Rightarrow> 's surf_rdf \<Rightarrow> 's surf_rdf" where
  "deleteLastLevelIfEqualsBottomLevel_surf bottom_level s =
     (if surf_mode s = PER_LEVEL then s\<lparr>level_surf_rdf := take bottom_level (level_surf_rdf s)\<rparr>
      else s\<lparr>level_file_surf_rdf := take bottom_level (level_file_surf_rdf s)\<rparr>)"

definition RemoveSuRF :: "build \<Rightarrow> nat list \<Rightarrow> fd list list \<Rightarrow> 's surf_rdf \<Rightarrow> 's surf_rdf result" where
  "RemoveSuRF b src_level_list src_fd_list2d s =
     cxx_assert b (length src_level_list = length src_fd_list2d)
       (if length src_fd_list2d < length src_level_list then Inl Undefined_behaviour
        else fold_res (\<lambda>(src_level, src_fd_list). fold_res (removeSuRFAtLevelOfFd b src_level) src_fd_list)
               (zip src_level_list src_fd_list2d) s)"

definition gather_surf_file ::
  "build \<Rightarrow> 's surf_ops \<Rightarrow> nat \<Rightarrow> fd \<Rightarrow> string range list \<times> 's surf_rdf \<Rightarrow> (string range list \<times> 's surf_rdf) result" where
  "gather_surf_file b ops src_level fd acc =
     (case acc of (agg, s) \<Rightarrow>
        bind_res (getRangeTombstonesAtLevelOfFd b ops src_level fd s) (\<lambda>rds.
          bind_res (removeSuRFAtLevelOfFd b src_level fd s) (\<lambda>s'. Inr (agg @ rds, s'))))"

definition gatherSortedRangeTombstonesAndRemoveSuRF ::
  "build \<Rightarrow> 's surf_ops \<Rightarrow> nat list \<Rightarrow> fd list list \<Rightarrow> bool \<Rightarrow> 's surf_rdf \<Rightarrow>
   (string range list \<times> 's surf_rdf) result" where
  "gatherSortedRangeTombstonesAndRemoveSuRF b ops src_level_list src_fd_list2d allow s =
     cxx_assert b (length src_level_list = length src_fd_list2d)
       (if length src_fd_list2d < length src_level_list then Inl Undefined_behaviour
        else bind_res (fold_res (\<lambda>(src_level, src_fd_list). fold_res (gather_surf_file b ops src_level) src_fd_list)
                         (zip src_level_list src_fd_list2d) ([], s))
          (\<lambda>(agg, s'). cxx_assert b (agg \<noteq> [])
             (Inr (case sort agg of [] \<Rightarrow> [] | r # rs \<Rightarrow> surf_merge_loop allow r rs, s'))))"

text \<open>The ranges collected for one output file. In \<open>shiftRDFToOutputLevel\<close> the test that follows
  the loop repeats the loop's condition and is never true.\<close>

definition ranges_for_file :: "'k::linorder range list \<Rightarrow> 'k range \<Rightarrow> 'k range list" where
  "ranges_for_file rd_merged file_boundary =
     map (clip file_boundary) (takeWhile (\<lambda>r. fst r < snd file_boundary) rd_merged)"

definition ranges_for_file_split :: "'k::linorder range list \<Rightarrow> 'k range \<Rightarrow> 'k range list" where
  "ranges_for_file_split rd_merged file_boundary =
     map (clip file_boundary) (takeWhile (\<lambda>r. snd r \<le> snd file_boundary) rd_merged) @
     (case dropWhile (\<lambda>r. snd r \<le> snd file_boundary) rd_merged of
        [] \<Rightarrow> []
      | r # rest \<Rightarrow> if fst r < snd file_boundary then [clip file_boundary r] else [])"

fun shift_surf_loop ::
  "('k::linorder range list \<Rightarrow> 'k range \<Rightarrow> 'k range list) \<Rightarrow> (fd \<Rightarrow> 'k range list \<Rightarrow> 't \<Rightarrow> 't result) \<Rightarrow>
   'k range list \<Rightarrow> fd list \<Rightarrow> 'k range list \<Rightarrow> 't \<Rightarrow> 't result" where
  "shift_surf_loop collect store rd_merged [] boundaries s = Inr s"
| "shift_surf_loop collect store rd_merged (dst_fd # dst_fd_list) [] s = Inl Undefined_behaviour"
| "shift_surf_loop collect store rd_merged (dst_fd # dst_fd_list) (file_boundary # boundaries) s =
     (if fst file_boundary = snd file_boundary
      then shift_surf_loop collect store rd_merged dst_fd_list boundaries s
      else let rest = dropWhile (\<lambda>r. snd r \<le> fst file_boundary) rd_merged;
               ranges_to_insert = collect rest file_boundary
           in bind_res (if ranges_to_insert \<noteq> [] then store dst_fd ranges_to_insert s else Inr s)
                (shift_surf_loop collect store rest dst_fd_list boundaries))"

definition shiftRDFToOutputLevel_surf ::
  "build \<Rightarrow> surf_env \<Rightarrow> 's surf_ops \<Rightarrow> string range list \<Rightarrow> nat \<Rightarrow> fd list \<Rightarrow> string range list \<Rightarrow> bool \<Rightarrow>
   's surf_rdf \<Rightarrow> 's surf_rdf result" where
  "shiftRDFToOutputLevel_surf b env ops rd_merged dst_level dst_fd_list file_boundary_list allow s =
     cxx_assert b (rd_merged \<noteq> [])
       (if rd_merged = [] then Inr s
        else cxx_assert b (length dst_fd_list = length file_boundary_list)
          (shift_surf_loop ranges_for_file
             (\<lambda>dst_fd ranges. insertRangesAtLevelOfFd b env ops dst_level dst_fd ranges allow)
             rd_merged dst_fd_list file_boundary_list s))"

definition shiftRDFWithPointKeysToOutputLevel ::
  "build \<Rightarrow> surf_env \<Rightarrow> 's surf_ops \<Rightarrow> string range list \<Rightarrow> string list \<Rightarrow> nat \<Rightarrow> fd list \<Rightarrow> string range list \<Rightarrow>
   bool \<Rightarrow> 's surf_rdf \<Rightarrow> 's surf_rdf result" where
  "shiftRDFWithPointKeysToOutputLevel b env ops rd_merged point_keys dst_level dst_fd_list file_boundary_list allow s =
     cxx_assert b (rd_merged \<noteq> [])
       (if rd_merged = [] then Inr s
        else cxx_assert b (length dst_fd_list = length file_boundary_list)
          (shift_surf_loop ranges_for_file_split
             (\<lambda>dst_fd ranges. insertRangesWithPointKeysAtLevelOfFd b env ops dst_level dst_fd ranges point_keys allow)
             rd_merged dst_fd_list file_boundary_list s))"

section \<open>Counters and logs\<close>

definition clearFlagKeyMayDeleted_surf :: "'s surf_rdf \<Rightarrow> 's surf_rdf" where
  "clearFlagKeyMayDeleted_surf s = s\<lparr>surf_flag_key_may_deleted := False, surf_search_count_kmd := 0\<rparr>"

definition incKeySearchCountKMD_surf :: "'s surf_rdf \<Rightarrow> 's surf_rdf" where
  "incKeySearchCountKMD_surf s = s\<lparr>surf_search_count_kmd := surf_search_count_kmd s + 1\<rparr>"

definition incKeySearchCount_surf :: "'s surf_rdf \<Rightarrow> 's surf_rdf" where
  "incKeySearchCount_surf s = s\<lparr>surf_search_count := surf_search_count s + 1\<rparr>"

definition setFlagKeyMayDeleted_surf :: "'s surf_rdf \<Rightarrow> 's surf_rdf" where
  "setFlagKeyMayDeleted_surf s =
     s\<lparr>surf_may_deleted_count := surf_may_deleted_count s + 1, surf_flag_key_may_deleted := True\<rparr>"

definition checkProperUsageOfFlagKeyMayDeleted_surf :: "'s surf_rdf \<Rightarrow> unit result" where
  "checkProperUsageOfFlagKeyMayDeleted_surf s =
     (if surf_search_count_kmd s > 1 then Inl (Exit (-1)) else Inr ())"

definition getFlagKeyMayDeleted_surf :: "'s surf_rdf \<Rightarrow> bool result" where
  "getFlagKeyMayDeleted_surf s =
     bind_res (checkProperUsageOfFlagKeyMayDeleted_surf s) (\<lambda>_. Inr (surf_flag_key_may_deleted s))"

definition clearFilterFalsePositiveRate_surf :: "'s surf_rdf \<Rightarrow> 's surf_rdf" where
  "clearFilterFalsePositiveRate_surf s = s\<lparr>surf_search_count := 0, surf_may_deleted_count := 0\<rparr>"

definition getNumberOfTotalLevels_surf :: "'s surf_rdf \<Rightarrow> nat" where
  "getNumberOfTotalLevels_surf s =
     (if surf_mode s = PER_LEVEL
      then fold (\<lambda>(i, l) num. if snd l \<noteq> None then i + 1 else num) (enumerate 0 (level_surf_rdf s)) 0
      else fold (\<lambda>(i, l) num. if l \<noteq> [] then i + 1 else num) (enumerate 0 (level_file_surf_rdf s)) 0)"

definition getNumberOfRangesAtIthLevel :: "build \<Rightarrow> nat \<Rightarrow> 's surf_rdf \<Rightarrow> int result" where
  "getNumberOfRangesAtIthLevel b level s =
     (if surf_mode s = PER_LEVEL then
        cxx_assert b (level < length (level_surf_rdf s))
          (if level \<ge> length (level_surf_rdf s) then Inl Undefined_behaviour
           else cxx_assert b (snd (level_surf_rdf s ! level) \<noteq> None) (Inr (fst (level_surf_rdf s ! level))))
      else cxx_assert b (level < length (level_file_surf_rdf s))
          (if level \<ge> length (level_file_surf_rdf s) then Inl Undefined_behaviour
           else Inr (foldl (\<lambda>num e. wrap32 (num + fst (snd e))) 0 (level_file_surf_rdf s ! level))))"

definition getNumberOfTotalRanges_surf :: "build \<Rightarrow> 's surf_rdf \<Rightarrow> int result" where
  "getNumberOfTotalRanges_surf b s =
     fold_res (\<lambda>i num. bind_res (getNumberOfRangesAtIthLevel b i s) (\<lambda>n. Inr (wrap32 (num + n))))
       [0..<getNumberOfTotalLevels_surf s] 0"

definition getMemoryUsageAtIthLevel :: "build \<Rightarrow> 's surf_ops \<Rightarrow> nat \<Rightarrow> 's surf_rdf \<Rightarrow> nat result" where
  "getMemoryUsageAtIthLevel b ops level s =
     (if surf_mode s = PER_LEVEL then
        cxx_assert b (level < length (level_surf_rdf s))
          (if level \<ge> length (level_surf_rdf s) then Inl Undefined_behaviour
           else cxx_assert b (snd (level_surf_rdf s ! level) \<noteq> None)
             (case snd (level_surf_rdf s ! level) of
                None \<Rightarrow> Inl Undefined_behaviour | Some surf \<Rightarrow> Inr (u64 (surf_bits ops surf))))
      else cxx_assert b (level < length (level_file_surf_rdf s))
          (if level \<ge> length (level_file_surf_rdf s) then Inl Undefined_behaviour
           else cxx_assert b (level_file_surf_rdf s ! level \<noteq> [])
             (Inr (foldl (\<lambda>mem e. u64 (mem + surf_bits ops (snd (snd e)))) 0 (level_file_surf_rdf s ! level)))))"

definition getNumberOfTotalMemoryUsage_surf :: "build \<Rightarrow> 's surf_ops \<Rightarrow> 's surf_rdf \<Rightarrow> nat result" where
  "getNumberOfTotalMemoryUsage_surf b ops s =
     bind_res (fold_res (\<lambda>i num. bind_res (getMemoryUsageAtIthLevel b ops i s) (\<lambda>n. Inr (u64 (num + n))))
                 [0..<getNumberOfTotalLevels_surf s] 0)
       (\<lambda>num. Inr (num div 8))"

definition logCurrentTotalNumbersOfRanges_surf :: "build \<Rightarrow> 's surf_rdf \<Rightarrow> 's surf_rdf result" where
  "logCurrentTotalNumbersOfRanges_surf b s =
     bind_res (getNumberOfTotalRanges_surf b s) (\<lambda>num.
       Inr (s\<lparr>surf_numbers_log := surf_numbers_log s @ [num]\<rparr>))"

definition logCurrentTotalMemoryUsage_surf :: "build \<Rightarrow> 's surf_ops \<Rightarrow> 's surf_rdf \<Rightarrow> 's surf_rdf result" where
  "logCurrentTotalMemoryUsage_surf b ops s =
     bind_res (getNumberOfTotalMemoryUsage_surf b ops s) (\<lambda>num.
       Inr (s\<lparr>surf_memory_log := surf_memory_log s @ [wrap32 (int num)]\<rparr>))"

section \<open>The point query\<close>

definition isEntryAliveAtLevelOfFd ::
  "build \<Rightarrow> surf_env \<Rightarrow> 's surf_ops \<Rightarrow> nat \<Rightarrow> fd \<Rightarrow> string \<Rightarrow> bool \<Rightarrow> 's surf_rdf \<Rightarrow> (bool \<times> 's surf_rdf) result" where
  "isEntryAliveAtLevelOfFd b env ops level fd key bypass s0 =
     cxx_assert b (surf_mode s0 = PER_FILE) (cxx_assert b (level < length (level_file_surf_rdf s0))
       (let s = incKeySearchCount_surf (incKeySearchCountKMD_surf (clearFlagKeyMayDeleted_surf s0))
        in if level \<ge> length (level_file_surf_rdf s) then Inr (True, s)
           else cxx_assert b (file_entry s level fd \<noteq> None)
             (case file_entry s level fd of
                None \<Rightarrow> Inr (True, s)
              | Some (n, surf) \<Rightarrow>
                  cxx_assert b (key \<noteq> [])
                    (let key = (if use_surf_base env then key else take (to_uint (key_len_in_bytes env)) key);
                         found = surf_seek ops surf key (use_surf_base env);
                         key = (case found of
                                  Some (key_found, _) \<Rightarrow> if use_surf_base env then take (length key_found) key else key
                                | None \<Rightarrow> key)
                     in bind_res (entry_alive b bypass key found) (\<lambda>(alive, may_deleted).
                          Inr (alive, if may_deleted then setFlagKeyMayDeleted_surf s else s))))))"

section \<open>Merging two lists\<close>

fun interleave :: "'k::linorder range list \<Rightarrow> 'k range list \<Rightarrow> 'k range list" where
  "interleave r1 [] = r1"
| "interleave [] r2 = r2"
| "interleave (a # r1) (b # r2) =
     (if a \<le> b then a # interleave r1 (b # r2) else b # interleave (a # r1) r2)"

lemma set_interleave: "set (interleave r1 r2) = set r1 \<union> set r2"
  by (induction r1 r2 rule: interleave.induct) auto

lemma by_start_interleave: "by_start r1 \<Longrightarrow> by_start r2 \<Longrightarrow> by_start (interleave r1 r2)"
proof (induction r1 r2 rule: interleave.induct)
  case (3 a r1 b r2)
  have "fst a \<le> fst b" if "a \<le> b" using that by (auto simp: less_eq_prod_def)
  moreover have "fst b \<le> fst a" if "\<not> a \<le> b" using that by (auto simp: less_eq_prod_def not_le)
  ultimately show ?case using 3 by (auto simp: by_start_Cons set_interleave intro: order.trans)
qed auto

lemma not_merged_iff: "snd r < fst s \<or> snd r = fst s \<and> allow \<longleftrightarrow> \<not> shall_be_merged allow (snd r) (fst s)"
  by (auto simp: shall_be_merged_def)

lemma merge_ranges_loop_interleave:
  "merge_ranges_loop allow rd_last r1 r2 = surf_merge_loop allow rd_last (interleave r1 r2)"
proof (induction allow rd_last r1 r2 rule: merge_ranges_loop.induct)
  case (3 allow rd_last b r2)
  then show ?case by (cases r2) (auto simp: not_merged_iff)
qed (auto simp: not_merged_iff)

lemma mergeRanges_ok:
  assumes "canonical r1" "canonical r2"
  shows "canonical (mergeRanges False r1 r2)" "cover (mergeRanges False r1 r2) = cover r1 \<union> cover r2"
proof -
  have "canonical (mergeRanges False r1 r2) \<and> cover (mergeRanges False r1 r2) = cover r1 \<union> cover r2"
  proof (cases "r1 = [] \<or> r2 = []")
    case True
    then show ?thesis using assms by (auto simp: mergeRanges_def split: list.split)
  next
    case False
    let ?m = "interleave r1 r2"
    have "?m \<noteq> []" using False set_interleave[of r1 r2] by auto
    then obtain t ms where m: "?m = t # ms" by (meson neq_Nil_conv)
    have eq: "mergeRanges False r1 r2 = surf_merge_loop False t ms"
      using False m by (cases r1; cases r2) (auto simp: mergeRanges_def merge_ranges_loop_interleave split: if_splits)
    have "by_start ?m" using by_start_interleave canonical_by_start assms by blast
    moreover have "nonempty_ranges ?m"
      using assms by (auto simp: nonempty_ranges_def canonical_def set_interleave)
    moreover have "cover ?m = cover r1 \<union> cover r2" by (auto simp: cover_def set_interleave)
    ultimately show ?thesis
      using surf_merge_loop_order[of t ms False] surf_merge_loop_cover[of t ms False] eq m
      by (simp add: range_order_def)
  qed
  then show "canonical (mergeRanges False r1 r2)" "cover (mergeRanges False r1 r2) = cover r1 \<union> cover r2" by auto
qed

section \<open>The table of the files\<close>

lemma file_entry_put [simp]:
  "file_entry (put_file l f v s) l' f' = (if l' = l \<and> f' = f then Some v else file_entry s l' f')"
  by (auto simp: file_entry_def put_file_def Let_def nth_list_update nth_grow)

lemma put_file_mode [simp]: "surf_mode (put_file l f v s) = surf_mode s"
  by (simp add: put_file_def Let_def)

definition erase_file :: "nat \<Rightarrow> fd \<Rightarrow> 's surf_rdf \<Rightarrow> 's surf_rdf" where
  "erase_file l f s = s\<lparr>level_file_surf_rdf := (level_file_surf_rdf s)[l := smap_erase f (level_file_surf_rdf s ! l)]\<rparr>"

lemma file_entry_erase [simp]:
  "file_entry (erase_file l f s) l' f' = (if l' = l \<and> f' = f then None else file_entry s l' f')"
  by (cases "l' = l") (auto simp: file_entry_def erase_file_def)

lemma erase_file_mode [simp]: "surf_mode (erase_file l f s) = surf_mode s"
  by (simp add: erase_file_def)

text \<open>A file of the table holds the trie of some ranges \<open>rs\<close> and point keys \<open>P\<close>.\<close>

definition holds :: "'s surf_ops \<Rightarrow> nat \<Rightarrow> bool \<Rightarrow> string list \<Rightarrow> string range list \<Rightarrow> 's \<Rightarrow> bool" where
  "holds ops L allow P rs t \<longleftrightarrow> t = surf_create ops (surf_keys allow P rs) L \<and>
     nonempty_ranges rs \<and> rs \<noteq> [] \<and> fixed_len L rs \<and> sorted_wrt (<) P \<and> (\<forall>p \<in> set P. length p = L)"

definition surf_inv :: "'s surf_ops \<Rightarrow> nat \<Rightarrow> bool \<Rightarrow> 's surf_rdf \<Rightarrow> bool" where
  "surf_inv ops L allow s \<longleftrightarrow> surf_mode s = PER_FILE \<and>
     (\<forall>l f v. file_entry s l f = Some v \<longrightarrow> 0 < fst v \<and> (\<exists>P rs. holds ops L allow P rs (snd v)))"

definition file_ranges :: "'s surf_ops \<Rightarrow> 's surf_rdf \<Rightarrow> nat \<Rightarrow> fd \<Rightarrow> string range list" where
  "file_ranges ops s l f = (case file_entry s l f of None \<Rightarrow> [] | Some v \<Rightarrow> surfToRanges ops (snd v))"

definition file_dead :: "'s surf_ops \<Rightarrow> nat \<Rightarrow> 's surf_rdf \<Rightarrow> nat \<Rightarrow> fd \<Rightarrow> string set" where
  "file_dead ops L s l f =
     {k. length k = L \<and> (case file_entry s l f of None \<Rightarrow> False
        | Some v \<Rightarrow> entry_alive NDebug False k (surf_seek ops (snd v) k False) = Inr (False, False))}"

lemma surf_inv_empty: "surf_inv ops L allow (surf_rdf_empty PER_FILE)"
  by (simp add: surf_inv_def surf_rdf_empty_def file_entry_def)

lemma holds_ranges:
  assumes "trie_ok ops L" "holds ops L allow P rs t"
  shows "surfToRanges ops t = surf_merge allow rs"
  using assms stored_trie(1)[of ops L rs P allow] surf_keys_ok(1)[of rs L P allow] surf_keys_ranges[of rs allow P]
  by (simp add: holds_def surfToRanges_def)

lemma holds_query:
  assumes "trie_ok ops L" "holds ops L False P rs t" "length k = L"
  shows "entry_alive b False k (surf_seek ops t k d) = Inr (k \<notin> cover rs - set P, False)"
  using assms stored_trie(2)[of ops L rs P k False d] surf_keys_closed[of rs P b k] by (simp add: holds_def)

lemma file_dead_holds:
  assumes "trie_ok ops L" "file_entry s l f = Some (n, t)" "holds ops L False P rs t"
  shows "file_dead ops L s l f = {k. length k = L} \<inter> (cover rs - set P)"
  using holds_query[OF assms(1,3)] assms(2) by (auto simp: file_dead_def)

lemma surf_inv_put:
  assumes "surf_inv ops L allow s" "holds ops L allow P rs (snd v) \<and> 0 < fst v"
  shows "surf_inv ops L allow (put_file l f v s)"
  using assms unfolding surf_inv_def file_entry_put put_file_mode by (metis option.inject)

lemma surf_inv_erase: "surf_inv ops L allow s \<Longrightarrow> surf_inv ops L allow (erase_file l f s)"
  by (auto simp: surf_inv_def split: if_splits)

lemma file_ranges_order:
  assumes "trie_ok ops L" "surf_inv ops L allow s"
  shows "range_order allow (file_ranges ops s l f)" "fixed_len L (file_ranges ops s l f)"
proof -
  have "range_order allow (file_ranges ops s l f) \<and> fixed_len L (file_ranges ops s l f)"
  proof (cases "file_entry s l f")
    case (Some v)
    then obtain P rs where h: "holds ops L allow P rs (snd v)" using assms(2) unfolding surf_inv_def by blast
    then show ?thesis
      using holds_ranges[OF assms(1) h] Some surf_merge_ok(2)[of rs allow] fixed_len_merge[of L rs allow]
      by (simp add: file_ranges_def holds_def)
  qed (simp add: file_ranges_def fixed_len_def)
  then show "range_order allow (file_ranges ops s l f)" "fixed_len L (file_ranges ops s l f)" by auto
qed

section \<open>Inserting, removing and asking\<close>

lemma skip_repeated_id:
  assumes "sorted_wrt (\<lambda>r s. \<not> (Q s \<and> s = r)) rs"
  shows "skip_repeated Q rs = rs"
  using assms
proof (induction rs rule: rev_induct)
  case (snoc r rs)
  then have "skip_repeated Q rs = rs" "\<forall>s \<in> set rs. \<not> (Q r \<and> r = s)" by (auto simp: sorted_wrt_append)
  then show ?case by (auto simp: skip_repeated_def)
qed (simp add: skip_repeated_def)

lemma skip_repeated_nonempty: "nonempty_ranges rs \<Longrightarrow> skip_repeated (\<lambda>r. fst r = snd r) rs = rs"
proof (rule skip_repeated_id)
  assume "nonempty_ranges rs"
  then show "sorted_wrt (\<lambda>r s. \<not> (fst s = snd s \<and> s = r)) rs"
    by (induction rs) (auto simp: nonempty_ranges_def)
qed

lemma skip_repeated_ordered: "ordered_ranges rs \<Longrightarrow> skip_repeated (\<lambda>r. True) rs = rs"
proof (rule skip_repeated_id)
  assume "ordered_ranges rs"
  then show "sorted_wrt (\<lambda>r s. \<not> (True \<and> s = r)) rs"
    by (induction rs) (auto simp: ordered_ranges_Cons)
qed

text \<open>The ranges a caller may store.\<close>

definition storable :: "nat \<Rightarrow> string range list \<Rightarrow> bool" where
  "storable L rs \<longleftrightarrow> nonempty_ranges rs \<and> rs \<noteq> [] \<and> fixed_len L rs \<and> length rs < 2 ^ 31"

definition stored_file :: "'s surf_ops \<Rightarrow> nat \<Rightarrow> bool \<Rightarrow> string list \<Rightarrow> string range list \<Rightarrow> int \<times> 's" where
  "stored_file ops L allow P rs =
     (int (length rs + split_points P (surf_merge allow rs)), surf_create ops (surf_keys allow P rs) L)"

lemma stored_file_holds:
  "storable L rs \<Longrightarrow> sorted_wrt (<) P \<Longrightarrow> \<forall>p \<in> set P. length p = L \<Longrightarrow>
   holds ops L allow P rs (snd (stored_file ops L allow P rs)) \<and> 0 < fst (stored_file ops L allow P rs)"
  by (auto simp: holds_def stored_file_def storable_def intro!: add_pos_nonneg)

lemma split_points_Nil [simp]: "split_points [] rs = 0"
  by (simp add: split_points_def)

lemma insertRangesAtLevelOfFd_ok:
  assumes "surf_mode s = PER_FILE" "whole_keys env L" "storable L rs" "file_entry s l f = None"
  shows "insertRangesAtLevelOfFd b env ops l f rs allow s = Inr (put_file l f (stored_file ops L allow [] rs) s)"
  using assms rangesToSurf_ok[OF assms(2), of rs b ops allow]
  by (simp add: insertRangesAtLevelOfFd_def skip_repeated_nonempty storable_def stored_file_def wrap32_id)

lemma insertRangesWithPointKeys_ok:
  assumes "surf_mode s = PER_FILE" "whole_keys env L" "storable L rs" "ordered_ranges rs" "file_entry s l f = None"
    and P: "sorted_wrt (<) P" "\<forall>p \<in> set P. length p = L" "length rs + split_points P (surf_merge allow rs) < 2 ^ 31"
  shows "insertRangesWithPointKeysAtLevelOfFd b env ops l f rs P allow s =
     Inr (put_file l f (stored_file ops L allow P rs) s)"
  using assms rangesWithPointKeysToSurf_ok[OF assms(2), of rs P b ops allow]
  by (simp add: insertRangesWithPointKeysAtLevelOfFd_def skip_repeated_ordered storable_def stored_file_def wrap32_id)

lemma removeSuRF_ok:
  assumes "surf_inv ops L allow s"
  shows "removeSuRFAtLevelOfFd b l f s = Inr (if file_entry s l f = None then s else erase_file l f s)"
  using assms by (simp add: removeSuRFAtLevelOfFd_def surf_inv_def erase_file_def)

lemma getRangeTombstones_ok:
  assumes "surf_inv ops L allow s"
  shows "getRangeTombstonesAtLevelOfFd b ops l f s = Inr (file_ranges ops s l f)"
  using assms by (auto simp: getRangeTombstonesAtLevelOfFd_def surf_inv_def file_ranges_def cxx_assert_def split: option.splits)

definition surf_counted :: "'s surf_rdf \<Rightarrow> 's surf_rdf" where
  "surf_counted s = incKeySearchCount_surf (incKeySearchCountKMD_surf (clearFlagKeyMayDeleted_surf s))"

lemma surf_counted_sel [simp]:
  "level_file_surf_rdf (surf_counted s) = level_file_surf_rdf s" "surf_mode (surf_counted s) = surf_mode s"
  "file_entry (surf_counted s) l f = file_entry s l f"
  by (simp_all add: surf_counted_def incKeySearchCount_surf_def incKeySearchCountKMD_surf_def
      clearFlagKeyMayDeleted_surf_def file_entry_def)

lemma isEntryAliveAtLevelOfFd_ok:
  assumes "trie_ok ops L" "whole_keys env L" "surf_inv ops L False s" "file_entry s l f \<noteq> None" "length k = L"
  shows "isEntryAliveAtLevelOfFd b env ops l f k False s = Inr (k \<notin> file_dead ops L s l f, surf_counted s)"
proof -
  obtain n t where e: "file_entry s l f = Some (n, t)" using assms(4) by auto
  then obtain P rs where h: "holds ops L False P rs t" using assms(3) unfolding surf_inv_def by fastforce
  have l: "l < length (level_file_surf_rdf s)" using e by (auto simp: file_entry_def split: if_splits)
  have k: "k \<noteq> []" "\<not> use_surf_base env" "take (to_uint (key_len_in_bytes env)) k = k"
    using assms(2,5) by (auto simp: whole_keys_def to_uint_def)
  have mode: "surf_mode s = PER_FILE" using assms(3) by (simp add: surf_inv_def)
  have ans: "entry_alive b False k (surf_seek ops t k False) = Inr (k \<notin> file_dead ops L s l f, False)"
    using holds_query[OF assms(1) h assms(5), of b False] file_dead_holds[OF assms(1) e h] assms(5) by simp
  have key: "(case x of Some (kf, _) \<Rightarrow> if use_surf_base env then take (length kf) k else k | None \<Rightarrow> k) = k"
    for x :: "string entry option" using k(2) by (cases x) auto
  show ?thesis
    unfolding isEntryAliveAtLevelOfFd_def surf_counted_def[symmetric]
    using l k mode e ans key by (simp add: Let_def)
qed

section \<open>Gathering and shifting\<close>

text \<open>\<open>taken D s s' agg\<close>: the ranges of the files \<open>D\<close> were moved from \<open>s\<close> to \<open>agg\<close>.\<close>

definition taken ::
  "'s surf_ops \<Rightarrow> nat \<Rightarrow> bool \<Rightarrow> (nat \<times> fd) set \<Rightarrow> 's surf_rdf \<Rightarrow> 's surf_rdf \<Rightarrow> string range list \<Rightarrow> bool" where
  "taken ops L allow D s s' agg \<longleftrightarrow> surf_inv ops L allow s' \<and>
     (\<forall>l f. file_entry s' l f = (if (l, f) \<in> D then None else file_entry s l f)) \<and>
     cover agg = (\<Union>p \<in> D. cover (file_ranges ops s (fst p) (snd p))) \<and> nonempty_ranges agg \<and> fixed_len L agg"

lemma taken_Nil: "surf_inv ops L allow s \<Longrightarrow> taken ops L allow {} s s []"
  by (simp add: taken_def nonempty_ranges_def fixed_len_def)

lemma taken_trans:
  assumes "taken ops L allow D s s1 a1" "taken ops L allow E s1 s2 a2"
  shows "taken ops L allow (D \<union> E) s s2 (a1 @ a2)"
proof -
  let ?C = "\<lambda>p. cover (file_ranges ops s (fst p) (snd p))"
  have "cover (file_ranges ops s1 (fst p) (snd p)) = (if p \<in> D then {} else ?C p)" for p
    using assms(1) by (simp add: taken_def file_ranges_def)
  then have "cover a2 = (\<Union>p \<in> E. if p \<in> D then {} else ?C p)" using assms(2) by (simp add: taken_def)
  moreover have "cover a1 = (\<Union>p \<in> D. ?C p)" using assms(1) by (simp add: taken_def)
  moreover have "(\<Union>p \<in> D. ?C p) \<union> (\<Union>p \<in> E. if p \<in> D then {} else ?C p) = (\<Union>p \<in> D \<union> E. ?C p)"
    by (auto split: if_splits)
  ultimately have "cover (a1 @ a2) = (\<Union>p \<in> D \<union> E. ?C p)" by (simp add: cover_append)
  then show ?thesis
    using assms by (auto simp: taken_def nonempty_ranges_append fixed_len_def)
qed

lemma gather_surf_file_ok:
  assumes "trie_ok ops L" "surf_inv ops L allow s"
  shows "\<exists>s'. gather_surf_file b ops l f (agg, s) = Inr (agg @ file_ranges ops s l f, s') \<and>
           taken ops L allow {(l, f)} s s' (file_ranges ops s l f)"
proof -
  let ?s = "if file_entry s l f = None then s else erase_file l f s"
  have "gather_surf_file b ops l f (agg, s) = Inr (agg @ file_ranges ops s l f, ?s)"
    using getRangeTombstones_ok[OF assms(2)] removeSuRF_ok[OF assms(2)] by (simp add: gather_surf_file_def)
  moreover have "taken ops L allow {(l, f)} s ?s (file_ranges ops s l f)"
    using assms(2) surf_inv_erase[OF assms(2), of l f] file_ranges_order[OF assms, of l f]
      ordered_nonempty[OF range_order_ordered[OF file_ranges_order(1)[OF assms, of l f]]] by (auto simp: taken_def)
  ultimately show ?thesis by blast
qed

lemma gather_surf_files_ok:
  assumes "trie_ok ops L" "surf_inv ops L allow s"
  shows "\<exists>s' agg'. fold_res (gather_surf_file b ops l) fs (agg, s) = Inr (agg @ agg', s') \<and>
           taken ops L allow (Pair l ` set fs) s s' agg'"
  using assms(2)
proof (induction fs arbitrary: s agg)
  case Nil
  then show ?case using taken_Nil by auto
next
  case (Cons f fs)
  obtain s1 where s1: "gather_surf_file b ops l f (agg, s) = Inr (agg @ file_ranges ops s l f, s1)"
    "taken ops L allow {(l, f)} s s1 (file_ranges ops s l f)"
    using gather_surf_file_ok[OF assms(1) Cons.prems] by blast
  then have "surf_inv ops L allow s1" by (simp add: taken_def)
  from Cons.IH[OF this, of "agg @ file_ranges ops s l f"]
  obtain s2 a2 where s2: "fold_res (gather_surf_file b ops l) fs (agg @ file_ranges ops s l f, s1) =
      Inr ((agg @ file_ranges ops s l f) @ a2, s2)" "taken ops L allow (Pair l ` set fs) s1 s2 a2" by blast
  show ?case using s1(1) s2(1) taken_trans[OF s1(2) s2(2)] by (auto simp: insert_is_Un[symmetric])
qed

lemma gather_surf_levels_ok:
  assumes "trie_ok ops L" "surf_inv ops L allow s"
  shows "\<exists>s' agg'. fold_res (\<lambda>(level, fds). fold_res (gather_surf_file b ops level) fds) ps (agg, s) = Inr (agg @ agg', s') \<and>
    taken ops L allow (\<Union>p \<in> set ps. Pair (fst p) ` set (snd p)) s s' agg'"
  using assms(2)
proof (induction ps arbitrary: s agg)
  case Nil
  then show ?case using taken_Nil by auto
next
  case (Cons p ps)
  from gather_surf_files_ok[OF assms(1) Cons.prems, of b "fst p" "snd p" agg]
  obtain s1 a1 where s1: "fold_res (gather_surf_file b ops (fst p)) (snd p) (agg, s) = Inr (agg @ a1, s1)"
    "taken ops L allow (Pair (fst p) ` set (snd p)) s s1 a1" by blast
  then have "surf_inv ops L allow s1" by (simp add: taken_def)
  from Cons.IH[OF this, of "agg @ a1"]
  obtain s2 a2 where s2: "fold_res (\<lambda>(level, fds). fold_res (gather_surf_file b ops level) fds) ps (agg @ a1, s1) =
      Inr ((agg @ a1) @ a2, s2)" "taken ops L allow (\<Union>p \<in> set ps. Pair (fst p) ` set (snd p)) s1 s2 a2" by blast
  show ?case using s1(1) s2(1) taken_trans[OF s1(2) s2(2)] by (cases p) auto
qed

lemma merged_sort_ok:
  assumes "nonempty_ranges agg" "fixed_len L agg" "agg \<noteq> []"
  shows "\<exists>rd. (case sort agg of [] \<Rightarrow> [] | r # rs \<Rightarrow> surf_merge_loop allow r rs) = rd \<and>
    range_order allow rd \<and> cover rd = cover agg \<and> fixed_len L rd \<and> rd \<noteq> []"
proof -
  have set: "set (sort agg) = set agg" by simp
  obtain r rs where sorted: "sort agg = r # rs" using set assms(3) by (cases "sort agg") auto
  have start: "by_start (r # rs)" using sort_by_start[of agg] sorted by simp
  have "nonempty_ranges (r # rs)" "cover (r # rs) = cover agg" "fixed_len L (r # rs)"
    using nonempty_ranges_set[of "r # rs" agg] cover_set_cong[of "r # rs" agg] set sorted assms(1,2)
    by (auto simp: fixed_len_def)
  moreover from this have "fixed_len L (surf_merge_loop allow r rs)"
    using surf_merge_loop_ends[of _ allow r rs] unfolding fixed_len_def by fastforce
  moreover have "surf_merge_loop allow r rs \<noteq> []"
    by (induction allow r rs rule: surf_merge_loop.induct) auto
  ultimately show ?thesis
    using sorted surf_merge_loop_order[OF start, of allow] surf_merge_loop_cover[OF start, of allow] by simp
qed

lemma surf_file_nonempty:
  assumes "trie_ok ops L" "surf_inv ops L allow s" "file_entry s l f \<noteq> None"
  shows "cover (file_ranges ops s l f) \<noteq> {}"
proof -
  obtain v where v: "file_entry s l f = Some v" using assms(3) by auto
  then obtain P rs where h: "holds ops L allow P rs (snd v)" using assms(2) unfolding surf_inv_def by blast
  then have "cover (file_ranges ops s l f) = cover rs"
    using holds_ranges[OF assms(1) h] v surf_merge_ok(1)[of allow rs] by (simp add: file_ranges_def)
  then show ?thesis using h by (cases rs) (auto simp: holds_def nonempty_ranges_def cover_Cons)
qed

lemma gather_surf_ok:
  assumes "trie_ok ops L" "surf_inv ops L allow s" "length levels = length fds"
    and "(l, f) \<in> listed levels fds" "file_entry s l f \<noteq> None"
  shows "\<exists>rd s'. gatherSortedRangeTombstonesAndRemoveSuRF b ops levels fds allow s = Inr (rd, s') \<and>
    range_order allow rd \<and> rd \<noteq> [] \<and> taken ops L allow (listed levels fds) s s' rd"
proof -
  from gather_surf_levels_ok[OF assms(1,2), of b "zip levels fds" "[]"]
  obtain s' agg where g: "fold_res (\<lambda>(level, fds). fold_res (gather_surf_file b ops level) fds) (zip levels fds) ([], s) =
      Inr (agg, s')" "taken ops L allow (listed levels fds) s s' agg" by (auto simp: listed_def)
  have cov: "cover agg = (\<Union>p \<in> listed levels fds. cover (file_ranges ops s (fst p) (snd p)))"
    using g(2) by (simp add: taken_def)
  have "cover (file_ranges ops s l f) \<subseteq> cover agg" unfolding cov using assms(4) by force
  then have "agg \<noteq> []" using surf_file_nonempty[OF assms(1,2,5)] by auto
  then obtain rd where rd: "(case sort agg of [] \<Rightarrow> [] | r # rs \<Rightarrow> surf_merge_loop allow r rs) = rd"
    "range_order allow rd" "cover rd = cover agg" "fixed_len L rd" "rd \<noteq> []"
    using merged_sort_ok[of agg L allow] g(2) by (auto simp: taken_def)
  then have "taken ops L allow (listed levels fds) s s' rd"
    using g(2) ordered_nonempty[OF range_order_ordered[OF rd(2)]] by (simp add: taken_def)
  then show ?thesis
    using g(1) rd assms(3) \<open>agg \<noteq> []\<close> by (simp add: gatherSortedRangeTombstonesAndRemoveSuRF_def)
qed

text \<open>What each output file receives.\<close>

fun clips :: "('k::linorder range list \<Rightarrow> 'k range \<Rightarrow> 'k range list) \<Rightarrow> 'k range list \<Rightarrow> 'k range list \<Rightarrow> 'k range list list" where
  "clips collect rd [] = []"
| "clips collect rd (fb # fbs) =
     (if fst fb = snd fb then [] # clips collect rd fbs
      else collect (dropWhile (\<lambda>r. snd r \<le> fst fb) rd) fb #
           clips collect (dropWhile (\<lambda>r. snd r \<le> fst fb) rd) fbs)"

lemma length_clips [simp]: "length (clips collect rd fbs) = length fbs"
  by (induction collect rd fbs rule: clips.induct) auto

lemma shift_surf_loop_clips:
  "length fds = length fbs \<Longrightarrow> shift_surf_loop collect store rd fds fbs s =
     fold_res (\<lambda>(f, rs) s. if rs \<noteq> [] then store f rs s else Inr s) (zip fds (clips collect rd fbs)) s"
proof (induction collect store rd fds fbs s rule: shift_surf_loop.induct)
  case (3 collect store rd f fds fb fbs s)
  show ?case
  proof (cases "fst fb = snd fb")
    case True
    then show ?thesis using 3 by simp
  next
    case False
    let ?rest = "dropWhile (\<lambda>r. snd r \<le> fst fb) rd"
    have "shift_surf_loop collect store ?rest fds fbs x =
        fold_res (\<lambda>(f, rs) s. if rs \<noteq> [] then store f rs s else Inr s) (zip fds (clips collect ?rest fbs)) x" for x
      using "3.IH"(2)[OF False refl refl] "3.prems" by simp
    then have "shift_surf_loop collect store ?rest fds fbs =
        fold_res (\<lambda>(f, rs) s. if rs \<noteq> [] then store f rs s else Inr s) (zip fds (clips collect ?rest fbs))" ..
    then show ?thesis using False by (simp add: Let_def)
  qed
qed simp_all

lemma ranges_for_file_split_eq:
  assumes "ordered_ranges rs"
  shows "ranges_for_file_split rs fb = ranges_for_file rs fb"
  using assms
proof (induction rs)
  case (Cons r rs)
  have o: "ordered_ranges rs" and r: "fst r < snd r" using Cons.prems by (auto simp: ordered_ranges_Cons)
  show ?case
  proof (cases "snd r \<le> snd fb")
    case True
    then have "fst r < snd fb" using r by order
    then show ?thesis using True Cons.IH[OF o] by (simp add: ranges_for_file_split_def ranges_for_file_def)
  next
    case False
    have "\<not> fst q < snd fb" if "q \<in> set rs" for q
      using that Cons.prems False by (auto simp: ordered_ranges_Cons not_less)
    then have "takeWhile (\<lambda>r. fst r < snd fb) rs = []" by (cases rs) auto
    then show ?thesis using False by (simp add: ranges_for_file_split_def ranges_for_file_def)
  qed
qed (simp add: ranges_for_file_split_def ranges_for_file_def)

lemma clips_split_eq: "ordered_ranges rd \<Longrightarrow> clips ranges_for_file_split rd fbs = clips ranges_for_file rd fbs"
  by (induction fbs arbitrary: rd) (simp_all add: ranges_for_file_split_eq ordered_dropWhile)

lemma range_order_dropWhile: "range_order allow rs \<Longrightarrow> range_order allow (dropWhile Q rs)"
  by (simp add: range_order_def ordered_dropWhile canonical_dropWhile)

definition clip_of :: "bool \<Rightarrow> nat \<Rightarrow> string range list \<Rightarrow> string range \<Rightarrow> string range list \<Rightarrow> bool" where
  "clip_of allow L rd fb d \<longleftrightarrow> range_order allow d \<and> cover d = cover rd \<inter> {fst fb..<snd fb} \<and>
     fixed_len L d \<and> length d \<le> length rd"

lemma ranges_for_file_ok:
  assumes "range_order allow rd" "fixed_len L rd" "fixed_len L [fb]" "fst fb < snd fb"
  shows "clip_of allow L rd fb (ranges_for_file (dropWhile (\<lambda>r. snd r \<le> fst fb) rd) fb)"
proof -
  let ?rest = "dropWhile (\<lambda>r. snd r \<le> fst fb) rd"
  have o: "ordered_ranges rd" "ordered_ranges ?rest"
    using range_order_ordered[OF assms(1)] ordered_dropWhile by auto
  have "range_order allow (ranges_for_file ?rest fb)"
    using clip_ordered[OF assms(4) ordered_dropWhile_before(1)[OF o(1)]] range_order_dropWhile[OF assms(1)]
    by (simp add: range_order_def ranges_for_file_def split: if_splits)
  moreover have "cover (ranges_for_file ?rest fb) = cover rd \<inter> {fst fb..<snd fb}"
    using clip_cover[OF o(2), of fb] ordered_dropWhile_before(2)[OF o(1), of "fst fb"]
    by (auto simp: ranges_for_file_def)
  moreover have "fixed_len L (ranges_for_file ?rest fb)"
    using assms(2,3) by (auto simp: fixed_len_def ranges_for_file_def clip_def max_def min_def
        dest!: set_takeWhileD set_dropWhileD)
  moreover have "length (ranges_for_file ?rest fb) \<le> length rd"
    using length_takeWhile_le[of "\<lambda>r. fst r < snd fb" ?rest] length_dropWhile_le[of "\<lambda>r. snd r \<le> fst fb" rd]
    by (simp add: ranges_for_file_def)
  ultimately show ?thesis by (simp add: clip_of_def)
qed

lemma clips_ok:
  assumes "range_order allow rd" "fixed_len L rd" "fixed_len L fbs" "boundaries_ok fbs"
  shows "list_all2 (clip_of allow L rd) fbs (clips ranges_for_file rd fbs)"
  using assms
proof (induction fbs arbitrary: rd)
  case (Cons fb fbs)
  have ok: "boundaries_ok fbs" "fixed_len L fbs" "fixed_len L [fb]"
    using Cons.prems by (auto simp: boundaries_ok_def fixed_len_def)
  show ?case
  proof (cases "fst fb = snd fb")
    case True
    then have "clip_of allow L rd fb []" by (simp add: clip_of_def fixed_len_def)
    then show ?thesis using True Cons.IH[OF Cons.prems(1,2) ok(2,1)] by simp
  next
    case False
    then have lt: "fst fb < snd fb" using Cons.prems(4) by (auto simp: boundaries_ok_def)
    let ?rest = "dropWhile (\<lambda>r. snd r \<le> fst fb) rd"
    have "fixed_len L ?rest" using Cons.prems(2) by (auto simp: fixed_len_def dest: set_dropWhileD)
    then have IH: "list_all2 (clip_of allow L ?rest) fbs (clips ranges_for_file ?rest fbs)"
      using Cons.IH[OF range_order_dropWhile[OF Cons.prems(1)] _ ok(2,1)] by blast
    have "clip_of allow L rd b d" if "b \<in> set fbs" "clip_of allow L ?rest b d" for b d
    proof -
      have "fst fb \<le> fst b" using Cons.prems(4) that(1) lt by (fastforce simp: boundaries_ok_def)
      then have "cover ?rest \<inter> {fst b..<snd b} = cover rd \<inter> {fst b..<snd b}"
        using ordered_dropWhile_before(2)[OF range_order_ordered[OF Cons.prems(1)], of "fst fb"] by auto
      then show ?thesis
        using that(2) length_dropWhile_le[of "\<lambda>r. snd r \<le> fst fb" rd] by (auto simp: clip_of_def)
    qed
    then show ?thesis
      using False ranges_for_file_ok[OF Cons.prems(1,2) ok(3) lt] list.rel_mono_strong[OF IH] by simp
  qed
qed simp

definition put_files ::
  "'s surf_ops \<Rightarrow> nat \<Rightarrow> bool \<Rightarrow> string list \<Rightarrow> nat \<Rightarrow> (fd \<times> string range list) list \<Rightarrow> 's surf_rdf \<Rightarrow> 's surf_rdf" where
  "put_files ops L allow P l =
     fold (\<lambda>(f, rs) s. if rs \<noteq> [] then put_file l f (stored_file ops L allow P rs) s else s)"

lemma put_files_entry:
  "distinct (map fst ps) \<Longrightarrow> file_entry (put_files ops L allow P l ps s) l' f' =
     (case map_of ps f' of Some rs \<Rightarrow> if l' = l \<and> rs \<noteq> [] then Some (stored_file ops L allow P rs) else file_entry s l' f'
      | None \<Rightarrow> file_entry s l' f')"
proof (induction ps arbitrary: s)
  case (Cons p ps)
  obtain f rs where p: "p = (f, rs)" by (cases p)
  have "map_of ps f = None" using Cons.prems p by (simp add: map_of_eq_None_iff)
  then show ?case using Cons p by (cases "f' = f") (auto simp: put_files_def split: option.split)
qed (simp add: put_files_def)

lemma put_files_mode [simp]: "surf_mode (put_files ops L allow P l ps s) = surf_mode s"
  by (induction ps arbitrary: s) (auto simp: put_files_def)

lemma put_files_inv:
  assumes "surf_inv ops L allow s" "\<forall>p \<in> set ps. snd p \<noteq> [] \<longrightarrow> storable L (snd p)"
    and "sorted_wrt (<) P" "\<forall>p \<in> set P. length p = L"
  shows "surf_inv ops L allow (put_files ops L allow P l ps s)"
  using assms(1,2)
proof (induction ps arbitrary: s)
  case (Cons p ps)
  have "surf_inv ops L allow (if snd p \<noteq> [] then put_file l (fst p) (stored_file ops L allow P (snd p)) s else s)"
    using Cons.prems(2) stored_file_holds[OF _ assms(3,4), of "snd p" ops allow] surf_inv_put[OF Cons.prems(1)]
    by (simp add: Cons.prems(1)) blast
  then show ?case using Cons by (simp add: put_files_def case_prod_beta)
qed (simp add: put_files_def)

text \<open>Storing file by file succeeds as long as every store succeeds on a table without the file.\<close>

lemma fold_store_files:
  assumes "distinct (map fst ps)" "surf_mode s = PER_FILE" "\<forall>p \<in> set ps. file_entry s l (fst p) = None"
    and "\<And>f rs s. (f, rs) \<in> set ps \<Longrightarrow> rs \<noteq> [] \<Longrightarrow> surf_mode s = PER_FILE \<Longrightarrow> file_entry s l f = None \<Longrightarrow>
           store f rs s = Inr (put_file l f (stored_file ops L allow P rs) s)"
  shows "fold_res (\<lambda>(f, rs) s. if rs \<noteq> [] then store f rs s else Inr s) ps s = Inr (put_files ops L allow P l ps s)"
  using assms
proof (induction ps arbitrary: s)
  case (Cons p ps)
  obtain f rs where p: "p = (f, rs)" by (cases p)
  let ?s = "if rs \<noteq> [] then put_file l f (stored_file ops L allow P rs) s else s"
  have step: "(if rs \<noteq> [] then store f rs s else Inr s) = Inr ?s"
    using Cons.prems(2,3) Cons.prems(4)[of f rs s] p by simp
  have "\<forall>q \<in> set ps. file_entry ?s l (fst q) = None"
    using Cons.prems(1,3) p by (auto simp: image_iff)
  then have "fold_res (\<lambda>(f, rs) s. if rs \<noteq> [] then store f rs s else Inr s) ps ?s = Inr (put_files ops L allow P l ps ?s)"
    using Cons.IH[of ?s] Cons.prems by auto
  then show ?case unfolding p fold_res.simps split_conv step bind_res.simps by (simp add: put_files_def)
qed (simp add: put_files_def)

text \<open>\<open>spread\<close>: every output file holds the tombstones inside its boundaries except the point keys,
  and nothing else changed.\<close>

definition spread ::
  "'s surf_ops \<Rightarrow> nat \<Rightarrow> string list \<Rightarrow> string set \<Rightarrow> nat \<Rightarrow> fd list \<Rightarrow> string range list \<Rightarrow> 's surf_rdf \<Rightarrow> 's surf_rdf \<Rightarrow> bool" where
  "spread ops L P D l fds fbs s s' \<longleftrightarrow> surf_inv ops L False s' \<and>
     (\<forall>i < length fds. file_dead ops L s' l (fds ! i) =
        {k. length k = L} \<inter> (D \<inter> {fst (fbs ! i)..<snd (fbs ! i)} - set P)) \<and>
     (\<forall>l' f. l' \<noteq> l \<or> f \<notin> set fds \<longrightarrow> file_entry s' l' f = file_entry s l' f)"

lemma spread_put_files:
  assumes "trie_ok ops L" "surf_inv ops L False s" "list_all2 (clip_of False L rd) fbs ds" "length rd < 2 ^ 31"
    and "length fds = length fbs" "distinct fds" "\<forall>f \<in> set fds. file_entry s l f = None"
    and P: "sorted_wrt (<) P" "\<forall>p \<in> set P. length p = L"
  shows "spread ops L P (cover rd) l fds fbs s (put_files ops L False P l (zip fds ds) s)"
proof -
  let ?ps = "zip fds ds" and ?s = "put_files ops L False P l (zip fds ds) s"
  have len: "length ds = length fds" using assms(3,5) by (simp add: list_all2_lengthD)
  have st: "storable L d" if "d \<in> set ds" "d \<noteq> []" for d
    using assms(3,4) that canonical_nonempty
    by (fastforce simp: list_all2_conv_all_nth in_set_conv_nth clip_of_def storable_def range_order_def)
  then have "\<forall>p \<in> set ?ps. snd p \<noteq> [] \<longrightarrow> storable L (snd p)" by (auto dest: set_zip_rightD)
  then have inv: "surf_inv ops L False ?s" using put_files_inv[OF assms(2) _ P] by blast
  have entry: "file_entry ?s l' f = (case map_of ?ps f of
      Some rs \<Rightarrow> if l' = l \<and> rs \<noteq> [] then Some (stored_file ops L False P rs) else file_entry s l' f
    | None \<Rightarrow> file_entry s l' f)" for l' f
    by (rule put_files_entry) (use assms(6) len in simp)
  have "file_dead ops L ?s l (fds ! i) = {k. length k = L} \<inter> (cover rd \<inter> {fst (fbs ! i)..<snd (fbs ! i)} - set P)"
    if i: "i < length fds" for i
  proof -
    have c: "cover (ds ! i) = cover rd \<inter> {fst (fbs ! i)..<snd (fbs ! i)}"
      using assms(3,5) i by (auto simp: list_all2_conv_all_nth clip_of_def)
    have m: "map_of ?ps (fds ! i) = Some (ds ! i)" using i assms(6) len by (intro map_of_zip_nth) auto
    show ?thesis
    proof (cases "ds ! i = []")
      case True
      then have "file_entry ?s l (fds ! i) = None" using entry m assms(7) i by simp
      then have "file_dead ops L ?s l (fds ! i) = {}" by (simp add: file_dead_def)
      then show ?thesis unfolding c[symmetric] True by simp
    next
      case False
      then have e: "file_entry ?s l (fds ! i) = Some (stored_file ops L False P (ds ! i))" using entry m by simp
      have "holds ops L False P (ds ! i) (snd (stored_file ops L False P (ds ! i)))"
        using stored_file_holds[OF st P, of "ds ! i" ops False] False i len by simp
      then show ?thesis
        unfolding c[symmetric] using file_dead_holds[OF assms(1), of ?s l "fds ! i"] e by (metis prod.collapse)
    qed
  qed
  moreover have "file_entry ?s l' f = file_entry s l' f" if "l' \<noteq> l \<or> f \<notin> set fds" for l' f
  proof (cases "map_of ?ps f")
    case (Some v)
    then have "f \<in> set fds" by (metis map_of_SomeD set_zip_leftD)
    then show ?thesis using entry[of l' f] Some that by simp
  qed (use entry in simp)
  ultimately show ?thesis using inv by (simp add: spread_def)
qed

lemma split_points_le: "split_points P (surf_merge allow rs) \<le> length rs * length P"
proof -
  have "split_points P qs \<le> length qs * length P" for qs
    by (induction qs) (auto simp: split_points_def intro: add_mono length_filter_le)
  moreover have "length (surf_merge_loop allow t xs) \<le> Suc (length xs)" for t :: "'a range" and xs
    by (induction allow t xs rule: surf_merge_loop.induct) auto
  then have "length (surf_merge allow rs) \<le> length rs"
    by (cases "sort rs") (auto simp: surf_merge_def Let_def length_sort[of "\<lambda>x. x" rs, symmetric] simp del: length_sort)
  ultimately show ?thesis by (meson mult_le_mono1 order.trans)
qed

lemma shift_surf_ok:
  assumes "trie_ok ops L" "whole_keys env L" "surf_inv ops L False s" "canonical rd" "rd \<noteq> []" "fixed_len L rd"
    and "length rd < 2 ^ 31" "boundaries_ok fbs" "fixed_len L fbs" "length fds = length fbs" "distinct fds"
    and "\<forall>f \<in> set fds. file_entry s l f = None"
  shows "\<exists>s'. shiftRDFToOutputLevel_surf b env ops rd l fds fbs False s = Inr s' \<and>
           spread ops L [] (cover rd) l fds fbs s s'"
proof -
  let ?ds = "clips ranges_for_file rd fbs"
  have d: "list_all2 (clip_of False L rd) fbs ?ds"
    using clips_ok[of False rd L fbs] assms by (simp add: range_order_def)
  have st: "storable L d" if "(f, d) \<in> set (zip fds ?ds)" "d \<noteq> []" for f d
    using d assms(7) that(2) set_zip_rightD[OF that(1)] canonical_nonempty
    by (fastforce simp: list_all2_conv_all_nth in_set_conv_nth clip_of_def storable_def range_order_def)
  have "\<forall>p \<in> set (zip fds ?ds). file_entry s l (fst p) = None"
    using assms(12) by (auto dest: set_zip_leftD)
  then have "fold_res (\<lambda>(f, rs) s. if rs \<noteq> [] then insertRangesAtLevelOfFd b env ops l f rs False s else Inr s)
      (zip fds ?ds) s = Inr (put_files ops L False [] l (zip fds ?ds) s)"
    using assms(3,10,11) insertRangesAtLevelOfFd_ok[OF _ assms(2) st]
    by (intro fold_store_files) (auto simp: surf_inv_def)
  then show ?thesis
    using assms(5,10) spread_put_files[OF assms(1,3) d assms(7,10,11,12), of "[]"]
    by (simp add: shiftRDFToOutputLevel_surf_def shift_surf_loop_clips)
qed

lemma shift_surf_split_ok:
  assumes "trie_ok ops L" "whole_keys env L" "surf_inv ops L False s" "canonical rd" "rd \<noteq> []" "fixed_len L rd"
    and "length rd < 2 ^ 31" "boundaries_ok fbs" "fixed_len L fbs" "length fds = length fbs" "distinct fds"
    and "\<forall>f \<in> set fds. file_entry s l f = None"
    and P: "sorted_wrt (<) P" "\<forall>p \<in> set P. length p = L"
    and small: "length rd * (length P + 1) < 2 ^ 31"
  shows "\<exists>s'. shiftRDFWithPointKeysToOutputLevel b env ops rd P l fds fbs False s = Inr s' \<and>
           spread ops L P (cover rd) l fds fbs s s'"
proof -
  let ?ds = "clips ranges_for_file rd fbs"
  have d: "list_all2 (clip_of False L rd) fbs ?ds"
    using clips_ok[of False rd L fbs] assms by (simp add: range_order_def)
  have st: "storable L d" "ordered_ranges d" "length d + split_points P (surf_merge False d) < 2 ^ 31"
    if fd: "(f, d) \<in> set (zip fds ?ds)" "d \<noteq> []" for f d
  proof -
    obtain i where "i < length fbs" "d = ?ds ! i"
      using set_zip_rightD[OF fd(1)] by (auto simp: in_set_conv_nth)
    then have c: "clip_of False L rd (fbs ! i) d" using d by (auto simp: list_all2_conv_all_nth)
    then show "storable L d" "ordered_ranges d"
      using fd(2) assms(7) canonical_nonempty canonical_ordered by (auto simp: clip_of_def storable_def range_order_def)
    have "length d + split_points P (surf_merge False d) \<le> length rd * (length P + 1)"
      using c split_points_le[of P False d] mult_le_mono1[of "length d" "length rd" "length P + 1"]
      by (simp add: clip_of_def)
    then show "length d + split_points P (surf_merge False d) < 2 ^ 31" using small by linarith
  qed
  have "\<forall>p \<in> set (zip fds ?ds). file_entry s l (fst p) = None"
    using assms(12) by (auto dest: set_zip_leftD)
  then have "fold_res (\<lambda>(f, rs) s. if rs \<noteq> [] then insertRangesWithPointKeysAtLevelOfFd b env ops l f rs P False s else Inr s)
      (zip fds ?ds) s = Inr (put_files ops L False P l (zip fds ?ds) s)"
    using assms(3,10,11) insertRangesWithPointKeys_ok[OF _ assms(2) st(1,2) _ P st(3)]
    by (intro fold_store_files) (auto simp: surf_inv_def)
  then show ?thesis
    using assms(5,10) spread_put_files[OF assms(1,3) d assms(7,10,11,12) P]
      clips_split_eq[OF canonical_ordered[OF assms(4)], of fbs]
    by (simp add: shiftRDFWithPointKeysToOutputLevel_def shift_surf_loop_clips)
qed

section \<open>Properties\<close>


text \<open>Two files of level 1 for the examples.\<close>

definition sample_surf_rdf :: "string entry list surf_rdf" where
  "sample_surf_rdf =
     put_file 1 9 (stored_file list_trie 1 False [] [(''p'', ''t'')])
       (put_file 1 7 (stored_file list_trie 1 False [''c''] [(''b'', ''f'')]) (surf_rdf_empty PER_FILE))"

lemma sample_surf_rdf_inv: "surf_inv list_trie 1 False sample_surf_rdf"
proof -
  have "storable 1 [(''b'', ''f'')]" "storable 1 [(''p'', ''t'')]"
    by (auto simp: storable_def nonempty_ranges_def fixed_len_def)
  then have h: "holds list_trie 1 False [''c''] [(''b'', ''f'')] (snd (stored_file list_trie 1 False [''c''] [(''b'', ''f'')])) \<and>
      0 < fst (stored_file list_trie 1 False [''c''] [(''b'', ''f'')])"
    "holds list_trie 1 False [] [(''p'', ''t'')] (snd (stored_file list_trie 1 False [] [(''p'', ''t'')])) \<and>
      0 < fst (stored_file list_trie 1 False [] [(''p'', ''t'')])"
    by (intro stored_file_holds; simp)+
  show ?thesis
    unfolding sample_surf_rdf_def by (rule surf_inv_put[OF surf_inv_put[OF surf_inv_empty h(1)] h(2)])
qed

lemma sample_surf_rdf_entry:
  "file_entry sample_surf_rdf (Suc 0) 7 = Some (stored_file list_trie 1 False [''c''] [(''b'', ''f'')])"
  "file_entry sample_surf_rdf (Suc 0) 9 = Some (stored_file list_trie 1 False [] [(''p'', ''t'')])"
  "file_entry sample_surf_rdf 2 f = None"
  by (simp_all add: sample_surf_rdf_def surf_rdf_empty_def) (simp add: file_entry_def)



lemma sample_surf_rdf_ranges:
  "file_ranges list_trie sample_surf_rdf (Suc 0) 7 = [(''b'', ''f'')]"
  "file_ranges list_trie sample_surf_rdf (Suc 0) 9 = [(''p'', ''t'')]"
  by (simp_all add: file_ranges_def sample_surf_rdf_entry stored_file_def surf_keys_def surf_merge_def
      list_trie_def surfToRanges_def)


text \<open>Merging two canonical lists of ranges gives the canonical list of the union of the keys
  they cover.\<close>

theorem mergeRanges_union:
  assumes "canonical r1" "canonical r2"
  shows "canonical (mergeRanges False r1 r2) \<and> cover (mergeRanges False r1 r2) = cover r1 \<union> cover r2"
  using mergeRanges_ok[OF assms] by simp

theorem mergeRanges_union_witness:
  "cover (mergeRanges False [(1::int, 4), (9, 12)] [(3, 6)]) = cover [(1, 4), (9, 12)] \<union> cover [(3, 6)]"
  using mergeRanges_union[of "[(1::int, 4), (9, 12)]" "[(3, 6)]"] by (simp add: canonical_def)



text \<open>C27: Moving a file to another level takes its SuRF from the source level and stores it at the
  destination; when the two levels are the same the SuRF is lost.\<close>

theorem directMove_moves:
  assumes "surf_mode s = PER_FILE" "file_entry s src f = Some v" "0 < fst v"
  shows "\<exists>s'. directMoveFileToLevel b f src dst s = Inr s' \<and>
    (\<forall>l' f'. file_entry s' l' f' =
       (if l' = src \<and> f' = f then None else if l' = dst \<and> f' = f then Some v else file_entry s l' f'))"
proof (intro exI[of _ "erase_file src f (put_file dst f v s)"] conjI)
  show "directMoveFileToLevel b f src dst s = Inr (erase_file src f (put_file dst f v s))"
    using assms by (cases v) (simp add: directMoveFileToLevel_def erase_file_def Let_def)
qed simp

theorem directMove_moves_witness:
  "\<exists>s'. directMoveFileToLevel Debug 7 1 1 sample_surf_rdf = Inr s' \<and> file_entry s' 1 7 = None"
  using directMove_moves[of sample_surf_rdf 1 7 "stored_file list_trie 1 False [''c''] [(''b'', ''f'')]" Debug 1]
  by (auto simp: sample_surf_rdf_entry stored_file_def sample_surf_rdf_def surf_rdf_empty_def)

text \<open>C32: In a build with assertions, recording the memory usage aborts as soon as a level below the
  last one holds no file: the per-level count asserts that the level is not empty.\<close>

theorem memory_log_asserts_on_gap:
  assumes "surf_mode s = PER_FILE" "level_file_surf_rdf s = [] # m # ms" "m \<noteq> []"
  shows "logCurrentTotalMemoryUsage_surf Debug ops s = Inl Assert_failed"
proof -
  have keep: "0 < fold (\<lambda>(i, l) num. if l \<noteq> [] then i + 1 else num) (enumerate n xs) num"
    if "0 < num" for n num :: nat and xs :: "'b list list"
    using that by (induction xs arbitrary: n num) auto
  have "0 < getNumberOfTotalLevels_surf s"
    using assms keep[of 2 2 ms] by (simp add: getNumberOfTotalLevels_surf_def numeral_2_eq_2)
  then have "[0..<getNumberOfTotalLevels_surf s] = 0 # [1..<getNumberOfTotalLevels_surf s]" by (simp add: upt_conv_Cons)
  then show ?thesis
    using assms by (simp add: logCurrentTotalMemoryUsage_surf_def getNumberOfTotalMemoryUsage_surf_def
        getMemoryUsageAtIthLevel_def cxx_assert_def)
qed

theorem memory_log_asserts_on_gap_witness:
  "logCurrentTotalMemoryUsage_surf Debug list_trie sample_surf_rdf = Inl Assert_failed"
  using memory_log_asserts_on_gap[of sample_surf_rdf _ "[]" list_trie]
  by (simp add: sample_surf_rdf_def surf_rdf_empty_def put_file_def grow_def Let_def)

end
