(* ===== verification/RDF_Bundle.thy ===== *)
theory RDF_Bundle
  imports PLRDF_Runs PLRDF_LongLong Skyline_RDF SuRF_Filter
begin

text \<open>
  \<open>VersionRDFBundle\<close> and \<open>RDFUpdateMetadata\<close> of include/rocksdb/sys_rdfilter.h: the nine range
  delete filters a version of the database carries, and the update a flush, a compaction, a direct
  move or a direct removal makes to all of them. A \<open>shared_ptr\<close> or \<open>unique_ptr\<close> is an option. The
  update is written handler by handler: one definition for the part of a handler that concerns one
  kind of filter, then the handler that calls them in the order of the source.

  \<open>config\<close> holds what the handlers read from elsewhere: the build, the settings \<open>SuRF_Env\<close>, the
  trie, and whether \<open>CHECK_PLRDF_TRACING_CONSISTENCY\<close> is defined. The consistency check of the
  template only reports, so only the one of \<open>PLRDF\<close>, which may read past an array, appears here.
  Fields of the update no handler reads (\<open>flush_in_file_num\<close>, \<open>out_level\<close>, \<open>src_level\<close>, \<open>src_fd_list\<close>,
  \<open>range_tombstones_str\<close> and \<open>in_comming_point_keys\<close>) are left out.
\<close>

section \<open>The update and the bundle\<close>

record flush_info =
  flush_dst_fd :: fd
  flush_rd_list :: "string range list"

record source_level_info =
  src_level :: nat
  src_fd_list :: "fd list"
  is_on_output_level :: bool
  range_tombstones_str :: "string range list"

record dst_level_info =
  out_fd :: fd
  out_boundary :: "string range"

record moving_info =
  src_level_info_list :: "source_level_info list"
  dst_level :: nat
  dst_level_info_list :: "dst_level_info list"
  flag_direct_move_to_dst_level :: bool

record removal_info =
  removal_level :: nat
  removal_fd_list :: "fd list"

datatype job_type = kFlush | kCompaction | kCompactionDirectRemoved | kCompactionDirectMoved

type_synonym 'k flush_delta = "fd \<times> 'k range list \<times> fd list"
type_synonym 'k tracing_add = "(nat \<times> fd \<times> 'k range list) list"

record rdf_update_metadata =
  job :: job_type
  split_flag :: bool
  plrdf_flush_delta :: "int flush_delta"
  split_plrdf_flush_delta :: "int flush_delta"
  plrdf_stringkey_flush_delta :: "string flush_delta"
  split_plrdf_stringkey_flush_delta :: "string flush_delta"
  top_level_plrdf_flush_delta :: "int flush_delta"
  top_level_plrdf_stringkey_flush_delta :: "string flush_delta"
  plrdf_compaction_delta :: "int file_meta list"
  split_plrdf_compaction_delta :: "int file_meta list"
  plrdf_stringkey_compaction_delta :: "string file_meta list"
  split_plrdf_stringkey_compaction_delta :: "string file_meta list"
  top_level_plrdf_compaction_delta :: "int file_meta list"
  top_level_plrdf_stringkey_compaction_delta :: "string file_meta list"
  surf_flush_info :: "flush_info option"
  split_surf_flush_info :: "flush_info option"
  surf_compaction_info :: "moving_info option"
  split_surf_compaction_info :: "moving_info option"
  surf_direct_removal_info :: "removal_info option"
  split_surf_direct_removal_info :: "removal_info option"
  skyline_delta :: "tombstone list"
  split_sampled_keys :: "int list"
  split_sampled_keys_str :: "string list"
  fd_rangetombstones_info :: "moving_info option"
  plrdf_tracing_add :: "int tracing_add"
  split_plrdf_tracing_add :: "int tracing_add"
  plrdf_stringkey_tracing_add :: "string tracing_add"
  split_plrdf_stringkey_tracing_add :: "string tracing_add"
  plrdf_tracing_remove :: "(int \<times> fd) list"
  split_plrdf_tracing_remove :: "(int \<times> fd) list"
  plrdf_stringkey_tracing_remove :: "(int \<times> fd) list"
  split_plrdf_stringkey_tracing_remove :: "(int \<times> fd) list"

record 's rdf_bundle =
  bundle_plrdf :: "int plrdf"
  bundle_split_plrdf :: "int plrdf"
  bundle_plrdf_stringkey :: "string plrdf_t"
  bundle_split_plrdf_stringkey :: "string plrdf_t"
  bundle_top_level_rdf :: "int plrdf"
  bundle_top_level_rdf_stringkey :: "string plrdf_t"
  bundle_skyline_rdf :: skyline
  surf_level_file_rdf :: "'s surf_rdf option"
  surf_level_file_split_rdf :: "'s surf_rdf option"
  origin_info :: "int list \<times> int list"

record 's config =
  cfg_build :: build
  cfg_env :: surf_env
  cfg_ops :: "'s surf_ops"
  cfg_check_tracing :: bool

definition bundle_empty :: "'s rdf_bundle" where
  "bundle_empty = \<lparr>bundle_plrdf = plrdf_empty, bundle_split_plrdf = plrdf_empty,
     bundle_plrdf_stringkey = plrdf_t_empty, bundle_split_plrdf_stringkey = plrdf_t_empty,
     bundle_top_level_rdf = plrdf_empty, bundle_top_level_rdf_stringkey = plrdf_t_empty,
     bundle_skyline_rdf = skyline_empty, surf_level_file_rdf = None, surf_level_file_split_rdf = None,
     origin_info = ([], [])\<rparr>"

definition bundle_copy :: "'s rdf_bundle \<Rightarrow> 's rdf_bundle" where
  "bundle_copy B = B\<lparr>surf_level_file_rdf := map_option surf_rdf_copy (surf_level_file_rdf B),
     surf_level_file_split_rdf := map_option surf_rdf_copy (surf_level_file_split_rdf B)\<rparr>"

section \<open>Tombstones of a compaction\<close>

fun filtered_loop :: "'k::linorder range list \<Rightarrow> 'k range list \<Rightarrow> 'k range list" where
  "filtered_loop rd_merged [] = []"
| "filtered_loop rd_merged (file_boundary # boundaries) =
     (if fst file_boundary = snd file_boundary then filtered_loop rd_merged boundaries
      else let rest = dropWhile (\<lambda>r. snd r \<le> fst file_boundary) rd_merged
           in map (clip file_boundary) (takeWhile (\<lambda>r. fst r < snd file_boundary) rest) @
              filtered_loop rest boundaries)"

definition getOutputLevelRangeTombstonesFilteredByFileRanges ::
  "'k::linorder range list \<Rightarrow> 'k range list \<Rightarrow> 'k range list" where
  "getOutputLevelRangeTombstonesFilteredByFileRanges rd_merged file_boundary_list =
     (if rd_merged = [] then [] else filtered_loop rd_merged file_boundary_list)"

fun merge_tombstones_loop :: "'k::linorder range \<Rightarrow> 'k range list \<Rightarrow> 'k range list" where
  "merge_tombstones_loop rd_last [] = [rd_last]"
| "merge_tombstones_loop rd_last (x_range # rest) =
     (if fst x_range \<le> snd rd_last
      then merge_tombstones_loop (fst rd_last, max (snd x_range) (snd rd_last)) rest
      else rd_last # merge_tombstones_loop x_range rest)"

definition merge_tombstones :: "'k::linorder range list \<Rightarrow> 'k range list" where
  "merge_tombstones sorted_range_tombstones =
     (case sort sorted_range_tombstones of [] \<Rightarrow> [] | r # rs \<Rightarrow> merge_tombstones_loop r rs)"

text \<open>What \<open>ApplyCompactionDelta\<close> computes from \<open>fd_rangetombstones_info\<close>.\<close>

definition info_tombstones :: "moving_info \<Rightarrow> string range list" where
  "info_tombstones info = concat (map range_tombstones_str (src_level_info_list info))"

definition info_boundaries :: "moving_info \<Rightarrow> string range list" where
  "info_boundaries info = map out_boundary (dst_level_info_list info)"

definition rangetombstones_on_output_level :: "rdf_update_metadata \<Rightarrow> string range list" where
  "rangetombstones_on_output_level delta =
     (case fd_rangetombstones_info delta of None \<Rightarrow> []
      | Some info \<Rightarrow> getOutputLevelRangeTombstonesFilteredByFileRanges
                       (merge_tombstones (info_tombstones info)) (info_boundaries info))"

definition range_stoll :: "string range \<Rightarrow> int range result" where
  "range_stoll r = bind_res (stoll (fst r)) (\<lambda>x. bind_res (stoll (snd r)) (\<lambda>y. Inr (x, y)))"

definition condense_key :: "surf_env \<Rightarrow> string \<Rightarrow> string result" where
  "condense_key env k =
     bind_res (encode_digit_string_to_byte_string k)
       (\<lambda>x. Inr (extend_string_to_length x (length_of_condensed_digit_key env) (CHR 0x00)))"

definition condense_ranges :: "surf_env \<Rightarrow> string range list \<Rightarrow> string range list result" where
  "condense_ranges env rs =
     (if flag_use_condensed_digit_key env
      then map_res (\<lambda>r. bind_res (condense_key env (fst r)) (\<lambda>x. bind_res (condense_key env (snd r)) (\<lambda>y. Inr (x, y)))) rs
      else Inr rs)"

definition condense_keys :: "surf_env \<Rightarrow> string list \<Rightarrow> string list result" where
  "condense_keys env ks = (if flag_use_condensed_digit_key env then map_res (condense_key env) ks else Inr ks)"

section \<open>The part of one filter\<close>

subsection \<open>Per-level filters\<close>

definition add_tracing :: "'k tracing_add \<Rightarrow> ('k, 'm) plrdf_scheme \<Rightarrow> ('k, 'm) plrdf_scheme" where
  "add_tracing adds = fold (\<lambda>(level, f, rds). insertTracingRangesAtLevelOfFd level f rds) adds"

definition remove_tracing :: "(int \<times> fd) list \<Rightarrow> ('k, 'm) plrdf_scheme \<Rightarrow> ('k, 'm) plrdf_scheme" where
  "remove_tracing rems = fold (\<lambda>(level, f). removeTracingRangesAtLevelOfFd (to_uint level) f) rems"

definition check_tracing :: "bool \<Rightarrow> int \<Rightarrow> int plrdf \<Rightarrow> int plrdf result" where
  "check_tracing check level s =
     (if check then bind_res (checkTracingConsistency_ll (to_uint level) s) (\<lambda>_. Inr s) else Inr s)"

definition flush_filter :: "'k::linorder flush_delta \<Rightarrow> ('k, 'm) plrdf_scheme \<Rightarrow> ('k, 'm) plrdf_scheme result" where
  "flush_filter d s =
     (case d of (file_num, rds, exist) \<Rightarrow>
        if file_num \<noteq> 0 then insertRangeDeleteToLevel0 file_num rds exist s else Inr s)"

definition flush_filter_ll :: "bool \<Rightarrow> int flush_delta \<Rightarrow> int plrdf \<Rightarrow> int plrdf result" where
  "flush_filter_ll check d s =
     (case d of (file_num, rds, exist) \<Rightarrow>
        if file_num \<noteq> 0
        then bind_res (insertRangeDeleteToLevel0_ll file_num rds exist s) (check_tracing check 0)
        else Inr s)"

definition compact_filter ::
  "build \<Rightarrow> 'k::linorder file_meta list \<Rightarrow> 'k range list \<Rightarrow> ('k, 'm) plrdf_scheme \<Rightarrow> ('k, 'm) plrdf_scheme result" where
  "compact_filter b metas on_output s = (if metas = [] then Inr s else shiftRDFToOutputLevel b metas on_output s)"

definition compact_filter_ll ::
  "build \<Rightarrow> bool \<Rightarrow> int file_meta list \<Rightarrow> string range list \<Rightarrow> int plrdf \<Rightarrow> int plrdf result" where
  "compact_filter_ll b check metas on_output s =
     (if metas = [] then Inr s
      else bind_res (map_res range_stoll on_output) (\<lambda>rds.
           bind_res (shiftRDFToOutputLevel_ll b metas rds s) (\<lambda>s.
           bind_res (check_tracing check (fst (hd metas)) s)
             (check_tracing check (fst (snd (hd metas)))))))"

definition split_after ::
  "(nat \<Rightarrow> 'k list \<Rightarrow> 's \<Rightarrow> 's result) \<Rightarrow> bool \<Rightarrow> 'k file_meta list \<Rightarrow> 'k list \<Rightarrow> 's \<Rightarrow> 's result" where
  "split_after split flag metas keys s =
     (if metas = [] then Inr s
      else let out_level = fst (snd (hd metas))
           in if flag \<and> out_level \<ge> 0 \<and> keys \<noteq> [] then split (to_uint out_level) keys s else Inr s)"

definition compact_top_level ::
  "build \<Rightarrow> bool \<Rightarrow> 'k::linorder list \<Rightarrow> 'k file_meta list \<Rightarrow> 'k range list \<Rightarrow> ('k, 'm) plrdf_scheme \<Rightarrow>
   ('k, 'm) plrdf_scheme result" where
  "compact_top_level b flag keys metas on_output s =
     (if metas \<noteq> [] \<and> flag \<and> keys \<noteq> [] \<and> fst (hd metas) = 0
      then bind_res (shiftRDFToOutputLevel b metas on_output s) (splitRangesOnLevel 1 keys)
      else Inr s)"

definition compact_top_level_ll ::
  "build \<Rightarrow> bool \<Rightarrow> int list \<Rightarrow> int file_meta list \<Rightarrow> string range list \<Rightarrow> int plrdf \<Rightarrow> int plrdf result" where
  "compact_top_level_ll b flag keys metas on_output s =
     (if metas \<noteq> [] \<and> flag \<and> keys \<noteq> [] \<and> fst (hd metas) = 0
      then bind_res (map_res range_stoll on_output) (\<lambda>rds.
           bind_res (shiftRDFToOutputLevel_ll b metas rds s) (splitRangesOnLevel_ll 1 keys))
      else Inr s)"

definition remove_filter ::
  "build \<Rightarrow> 'k::linorder file_meta list \<Rightarrow> ('k, 'm) plrdf_scheme \<Rightarrow> ('k, 'm) plrdf_scheme result" where
  "remove_filter b metas =
     fold_res (\<lambda>(level, out_level, rds, fds). deleteRDFAssociatedWithFilesAtCurrentLevel b (level, rds, fds)) metas"

definition remove_filter_ll :: "build \<Rightarrow> bool \<Rightarrow> int file_meta list \<Rightarrow> int plrdf \<Rightarrow> int plrdf result" where
  "remove_filter_ll b check metas =
     fold_res (\<lambda>(level, out_level, rds, fds) s.
       bind_res (deleteRDFAssociatedWithFilesAtCurrentLevel_ll b (level, rds, fds) s) (check_tracing check level)) metas"

text \<open>The tracing part of \<open>ApplyCompactionDelta\<close>, compiled only with the check.\<close>

definition trace_compaction ::
  "build \<Rightarrow> moving_info \<Rightarrow> string file_meta list \<Rightarrow> (string, 'm) plrdf_scheme \<Rightarrow> (string, 'm) plrdf_scheme result" where
  "trace_compaction b info metas s =
     (if metas = [] then Inr s
      else bind_res (gatherTracingRangesAndRemove b (map src_level (src_level_info_list info))
                       (map src_fd_list (src_level_info_list info)) s) (\<lambda>(_, s).
           let gathered = merge_tombstones (info_tombstones info)
           in if gathered = [] then Inr s
              else shiftTracingToOutputLevel b gathered (dst_level info)
                     (map out_fd (dst_level_info_list info)) (info_boundaries info) s))"

definition trace_compaction_ll :: "build \<Rightarrow> moving_info \<Rightarrow> int file_meta list \<Rightarrow> int plrdf \<Rightarrow> int plrdf result" where
  "trace_compaction_ll b info metas s =
     (if metas = [] then Inr s
      else bind_res (gatherTracingRangesAndRemove_ll b (map src_level (src_level_info_list info))
                       (map src_fd_list (src_level_info_list info)) s) (\<lambda>(_, s).
           bind_res (map_res range_stoll (merge_tombstones (info_tombstones info))) (\<lambda>gathered.
             if gathered = [] then Inr s
             else bind_res (map_res range_stoll (info_boundaries info)) (\<lambda>boundaries.
                  shiftTracingToOutputLevel_ll b gathered (dst_level info)
                    (map out_fd (dst_level_info_list info)) boundaries s))))"

subsection \<open>SuRF filters\<close>

definition surf_for_update :: "'s surf_rdf option \<Rightarrow> 's surf_rdf" where
  "surf_for_update p = (case p of None \<Rightarrow> surf_rdf_empty PER_FILE | Some s \<Rightarrow> surf_rdf_copy s)"

definition flush_surf :: "'s config \<Rightarrow> flush_info option \<Rightarrow> 's surf_rdf option \<Rightarrow> 's surf_rdf option result" where
  "flush_surf cfg info p =
     (case info of None \<Rightarrow> Inr p
      | Some info \<Rightarrow>
          let s = surf_for_update p
          in bind_res (condense_ranges (cfg_env cfg) (flush_rd_list info)) (\<lambda>rd_list.
               if rd_list \<noteq> []
               then bind_res (getFlagAllowRangeBoundaryOverlapped (cfg_build cfg) (cfg_env cfg)) (\<lambda>allow.
                    bind_res (insertRangeDeleteToLevel0_surf (cfg_build cfg) (cfg_env cfg) (cfg_ops cfg)
                                (flush_dst_fd info) rd_list allow s) (\<lambda>s. Inr (Some s)))
               else Inr (Some s)))"

definition direct_move :: "build \<Rightarrow> moving_info \<Rightarrow> 's surf_rdf \<Rightarrow> 's surf_rdf result" where
  "direct_move b info =
     fold_res (\<lambda>src. fold_res (\<lambda>f. directMoveFileToLevel b f (src_level src) (dst_level info)) (src_fd_list src))
       (src_level_info_list info)"

text \<open>Both SuRF filters are compacted alike; they differ in the last call.\<close>

definition compact_surf_with ::
  "('s config \<Rightarrow> string range list \<Rightarrow> nat \<Rightarrow> fd list \<Rightarrow> string range list \<Rightarrow> bool \<Rightarrow> 's surf_rdf \<Rightarrow> 's surf_rdf result) \<Rightarrow>
   's config \<Rightarrow> moving_info option \<Rightarrow> 's surf_rdf option \<Rightarrow> 's surf_rdf option result" where
  "compact_surf_with shift cfg info p =
     (case info of None \<Rightarrow> Inr p
      | Some info \<Rightarrow>
          bind_res (getFlagAllowRangeBoundaryOverlapped (cfg_build cfg) (cfg_env cfg)) (\<lambda>allow.
          bind_res
            (if flag_direct_move_to_dst_level info then direct_move (cfg_build cfg) info (surf_for_update p)
             else bind_res (condense_ranges (cfg_env cfg) (info_tombstones info)) (\<lambda>tombstones.
                  let merged = merge_tombstones tombstones
                  in bind_res (RemoveSuRF (cfg_build cfg) (map src_level (src_level_info_list info))
                                 (map src_fd_list (src_level_info_list info)) (surf_for_update p)) (\<lambda>s.
                       if merged \<noteq> [] then shift cfg merged (dst_level info)
                              (map out_fd (dst_level_info_list info)) (info_boundaries info) allow s
                       else Inr s)))
            (\<lambda>s. Inr (Some s))))"

definition compact_surf :: "'s config \<Rightarrow> moving_info option \<Rightarrow> 's surf_rdf option \<Rightarrow> 's surf_rdf option result" where
  "compact_surf = compact_surf_with (\<lambda>cfg merged level fds boundaries allow s.
     bind_res (condense_ranges (cfg_env cfg) boundaries) (\<lambda>boundaries.
       shiftRDFToOutputLevel_surf (cfg_build cfg) (cfg_env cfg) (cfg_ops cfg) merged level fds boundaries allow s))"

definition compact_surf_split ::
  "string list \<Rightarrow> 's config \<Rightarrow> moving_info option \<Rightarrow> 's surf_rdf option \<Rightarrow> 's surf_rdf option result" where
  "compact_surf_split point_keys = compact_surf_with (\<lambda>cfg merged level fds boundaries allow s.
     bind_res (condense_keys (cfg_env cfg) point_keys) (\<lambda>point_keys.
     bind_res (condense_ranges (cfg_env cfg) boundaries) (\<lambda>boundaries.
       shiftRDFWithPointKeysToOutputLevel (cfg_build cfg) (cfg_env cfg) (cfg_ops cfg) merged point_keys
         level fds boundaries allow s)))"

definition remove_surf :: "build \<Rightarrow> removal_info option \<Rightarrow> 's surf_rdf option \<Rightarrow> 's surf_rdf option result" where
  "remove_surf b info p =
     (case info of None \<Rightarrow> Inr p
      | Some info \<Rightarrow>
          bind_res (fold_res (removeSuRFAtLevelOfFd b (removal_level info)) (removal_fd_list info) (surf_for_update p))
            (\<lambda>s. Inr (Some s)))"

section \<open>The handlers\<close>

definition update_skyline :: "tombstone list \<Rightarrow> skyline \<Rightarrow> skyline result" where
  "update_skyline delta s = (if delta \<noteq> [] then addRangeTombstones delta s else Inr s)"

definition ApplyFlushDelta :: "'s config \<Rightarrow> rdf_update_metadata \<Rightarrow> 's rdf_bundle \<Rightarrow> 's rdf_bundle result" where
  "ApplyFlushDelta cfg delta B =
     (let check = cfg_check_tracing cfg;
          p = add_tracing (plrdf_tracing_add delta) (bundle_plrdf B);
          sp = add_tracing (split_plrdf_tracing_add delta) (bundle_split_plrdf B);
          ps = add_tracing (plrdf_stringkey_tracing_add delta) (bundle_plrdf_stringkey B);
          sps = add_tracing (split_plrdf_stringkey_tracing_add delta) (bundle_split_plrdf_stringkey B)
      in bind_res (flush_filter_ll check (plrdf_flush_delta delta) p) (\<lambda>p.
         bind_res (flush_filter (plrdf_stringkey_flush_delta delta) ps) (\<lambda>ps.
         bind_res (flush_filter_ll check (split_plrdf_flush_delta delta) sp) (\<lambda>sp.
         bind_res (flush_filter (split_plrdf_stringkey_flush_delta delta) sps) (\<lambda>sps.
         bind_res (flush_filter_ll False (top_level_plrdf_flush_delta delta) (bundle_top_level_rdf B)) (\<lambda>t.
         bind_res (flush_filter (top_level_plrdf_stringkey_flush_delta delta) (bundle_top_level_rdf_stringkey B)) (\<lambda>ts.
         bind_res (flush_surf cfg (surf_flush_info delta) (surf_level_file_rdf B)) (\<lambda>f.
         bind_res (flush_surf cfg (split_surf_flush_info delta) (surf_level_file_split_rdf B)) (\<lambda>sf.
         bind_res (update_skyline (skyline_delta delta) (bundle_skyline_rdf B)) (\<lambda>sky.
           Inr (B\<lparr>bundle_plrdf := p, bundle_split_plrdf := sp, bundle_plrdf_stringkey := ps,
                bundle_split_plrdf_stringkey := sps, bundle_top_level_rdf := t,
                bundle_top_level_rdf_stringkey := ts, bundle_skyline_rdf := sky,
                surf_level_file_rdf := f, surf_level_file_split_rdf := sf\<rparr>)))))))))))"

definition trace_compaction_all :: "'s config \<Rightarrow> rdf_update_metadata \<Rightarrow> 's rdf_bundle \<Rightarrow> 's rdf_bundle result" where
  "trace_compaction_all cfg delta B =
     (case fd_rangetombstones_info delta of None \<Rightarrow> Inr B
      | Some info \<Rightarrow>
          if cfg_check_tracing cfg then
            let b = cfg_build cfg
            in bind_res (trace_compaction_ll b info (plrdf_compaction_delta delta) (bundle_plrdf B)) (\<lambda>p.
               bind_res (trace_compaction_ll b info (split_plrdf_compaction_delta delta) (bundle_split_plrdf B)) (\<lambda>sp.
               bind_res (trace_compaction b info (plrdf_stringkey_compaction_delta delta) (bundle_plrdf_stringkey B)) (\<lambda>ps.
               bind_res (trace_compaction b info (split_plrdf_stringkey_compaction_delta delta)
                           (bundle_split_plrdf_stringkey B)) (\<lambda>sps.
                 Inr (B\<lparr>bundle_plrdf := p, bundle_split_plrdf := sp, bundle_plrdf_stringkey := ps,
                        bundle_split_plrdf_stringkey := sps\<rparr>)))))
          else Inr B)"

definition ApplyCompactionDelta :: "'s config \<Rightarrow> rdf_update_metadata \<Rightarrow> 's rdf_bundle \<Rightarrow> 's rdf_bundle result" where
  "ApplyCompactionDelta cfg delta B0 =
     (let b = cfg_build cfg;
          check = cfg_check_tracing cfg;
          on_output = rangetombstones_on_output_level delta;
          flag = split_flag delta
      in bind_res (trace_compaction_all cfg delta B0) (\<lambda>B.
         bind_res (compact_filter_ll b check (plrdf_compaction_delta delta) on_output (bundle_plrdf B)) (\<lambda>p.
         bind_res (compact_filter b (plrdf_stringkey_compaction_delta delta) on_output (bundle_plrdf_stringkey B)) (\<lambda>ps.
         bind_res (compact_filter_ll b check (split_plrdf_compaction_delta delta) on_output (bundle_split_plrdf B)) (\<lambda>sp.
         bind_res (split_after splitRangesOnLevel_ll flag (split_plrdf_compaction_delta delta)
                     (split_sampled_keys delta) sp) (\<lambda>sp.
         bind_res (compact_filter b (split_plrdf_stringkey_compaction_delta delta) on_output
                     (bundle_split_plrdf_stringkey B)) (\<lambda>sps.
         bind_res (split_after splitRangesOnLevel flag (split_plrdf_stringkey_compaction_delta delta)
                     (split_sampled_keys_str delta) sps) (\<lambda>sps.
         bind_res (compact_top_level_ll b flag (split_sampled_keys delta) (top_level_plrdf_compaction_delta delta)
                     on_output (bundle_top_level_rdf B)) (\<lambda>t.
         bind_res (compact_top_level b flag (split_sampled_keys_str delta)
                     (top_level_plrdf_stringkey_compaction_delta delta) on_output (bundle_top_level_rdf_stringkey B)) (\<lambda>ts.
         bind_res (compact_surf cfg (surf_compaction_info delta) (surf_level_file_rdf B)) (\<lambda>f.
         bind_res (compact_surf_split (split_sampled_keys_str delta) cfg (split_surf_compaction_info delta)
                     (surf_level_file_split_rdf B)) (\<lambda>sf.
         bind_res (update_skyline (skyline_delta delta) (bundle_skyline_rdf B)) (\<lambda>sky.
           Inr (B\<lparr>bundle_plrdf := p, bundle_split_plrdf := sp, bundle_plrdf_stringkey := ps,
                bundle_split_plrdf_stringkey := sps, bundle_top_level_rdf := t,
                bundle_top_level_rdf_stringkey := ts, bundle_skyline_rdf := sky,
                surf_level_file_rdf := f, surf_level_file_split_rdf := sf\<rparr>))))))))))))))"

definition ApplyDirectRemovalDelta :: "'s config \<Rightarrow> rdf_update_metadata \<Rightarrow> 's rdf_bundle \<Rightarrow> 's rdf_bundle result" where
  "ApplyDirectRemovalDelta cfg delta B =
     (let b = cfg_build cfg;
          check = cfg_check_tracing cfg;
          p = remove_tracing (plrdf_tracing_remove delta) (bundle_plrdf B);
          sp = remove_tracing (split_plrdf_tracing_remove delta) (bundle_split_plrdf B);
          ps = remove_tracing (plrdf_stringkey_tracing_remove delta) (bundle_plrdf_stringkey B);
          sps = remove_tracing (split_plrdf_stringkey_tracing_remove delta) (bundle_split_plrdf_stringkey B)
      in bind_res (remove_filter_ll b check (plrdf_compaction_delta delta) p) (\<lambda>p.
         bind_res (remove_filter b (plrdf_stringkey_compaction_delta delta) ps) (\<lambda>ps.
         bind_res (remove_filter_ll b check (split_plrdf_compaction_delta delta) sp) (\<lambda>sp.
         bind_res (remove_filter b (split_plrdf_stringkey_compaction_delta delta) sps) (\<lambda>sps.
         bind_res (remove_surf b (surf_direct_removal_info delta) (surf_level_file_rdf B)) (\<lambda>f.
         bind_res (remove_surf b (split_surf_direct_removal_info delta) (surf_level_file_split_rdf B)) (\<lambda>sf.
           Inr (B\<lparr>bundle_plrdf := p, bundle_split_plrdf := sp, bundle_plrdf_stringkey := ps,
                  bundle_split_plrdf_stringkey := sps, surf_level_file_rdf := f,
                  surf_level_file_split_rdf := sf\<rparr>))))))))"

subsection \<open>Logs\<close>

definition log_surf :: "('s surf_rdf \<Rightarrow> 's surf_rdf result) \<Rightarrow> 's surf_rdf option \<Rightarrow> 's surf_rdf option result" where
  "log_surf log p = (case p of None \<Rightarrow> Inr None | Some s \<Rightarrow> bind_res (log s) (\<lambda>s. Inr (Some s)))"

definition logCurrentTotalNumbersOfRangesInEachRDF :: "'s config \<Rightarrow> 's rdf_bundle \<Rightarrow> 's rdf_bundle result" where
  "logCurrentTotalNumbersOfRangesInEachRDF cfg B =
     bind_res (log_surf (logCurrentTotalNumbersOfRanges_surf (cfg_build cfg)) (surf_level_file_rdf B)) (\<lambda>f.
     bind_res (log_surf (logCurrentTotalNumbersOfRanges_surf (cfg_build cfg)) (surf_level_file_split_rdf B)) (\<lambda>sf.
       Inr (B\<lparr>bundle_plrdf := logCurrentTotalNumbersOfRanges_ll (bundle_plrdf B),
            bundle_split_plrdf := logCurrentTotalNumbersOfRanges_ll (bundle_split_plrdf B),
            bundle_plrdf_stringkey := logCurrentTotalNumbersOfRanges (bundle_plrdf_stringkey B),
            bundle_split_plrdf_stringkey := logCurrentTotalNumbersOfRanges (bundle_split_plrdf_stringkey B),
            bundle_top_level_rdf := logCurrentTotalNumbersOfRanges_ll (bundle_top_level_rdf B),
            bundle_top_level_rdf_stringkey := logCurrentTotalNumbersOfRanges (bundle_top_level_rdf_stringkey B),
            bundle_skyline_rdf := skyline_logCurrentTotalNumbersOfRanges (bundle_skyline_rdf B),
            surf_level_file_rdf := f, surf_level_file_split_rdf := sf\<rparr>)))"

definition logCurrentTotalMemoryUsageInEachRDF :: "'s config \<Rightarrow> 's rdf_bundle \<Rightarrow> 's rdf_bundle result" where
  "logCurrentTotalMemoryUsageInEachRDF cfg B =
     bind_res (log_surf (logCurrentTotalMemoryUsage_surf (cfg_build cfg) (cfg_ops cfg)) (surf_level_file_rdf B)) (\<lambda>f.
     bind_res (log_surf (logCurrentTotalMemoryUsage_surf (cfg_build cfg) (cfg_ops cfg)) (surf_level_file_split_rdf B)) (\<lambda>sf.
       Inr (B\<lparr>bundle_plrdf := logCurrentTotalMemoryUsage_ll (bundle_plrdf B),
            bundle_split_plrdf := logCurrentTotalMemoryUsage_ll (bundle_split_plrdf B),
            bundle_plrdf_stringkey := logCurrentTotalMemoryUsage (bundle_plrdf_stringkey B),
            bundle_split_plrdf_stringkey := logCurrentTotalMemoryUsage (bundle_split_plrdf_stringkey B),
            bundle_top_level_rdf := logCurrentTotalMemoryUsage_ll (bundle_top_level_rdf B),
            bundle_top_level_rdf_stringkey := logCurrentTotalMemoryUsage (bundle_top_level_rdf_stringkey B),
            bundle_skyline_rdf := skyline_logCurrentTotalMemoryUsage (bundle_skyline_rdf B),
            surf_level_file_rdf := f, surf_level_file_split_rdf := sf\<rparr>)))"

definition ApplyDelta :: "'s config \<Rightarrow> rdf_update_metadata \<Rightarrow> 's rdf_bundle \<Rightarrow> 's rdf_bundle result" where
  "ApplyDelta cfg delta B =
     bind_res (case job delta of
                 kFlush \<Rightarrow> ApplyFlushDelta cfg delta B
               | kCompaction \<Rightarrow> ApplyCompactionDelta cfg delta B
               | kCompactionDirectRemoved \<Rightarrow> ApplyDirectRemovalDelta cfg delta B
               | kCompactionDirectMoved \<Rightarrow> ApplyCompactionDelta cfg delta B)
       (\<lambda>B. bind_res (logCurrentTotalNumbersOfRangesInEachRDF cfg B)
              (logCurrentTotalMemoryUsageInEachRDF cfg))"

end
