(* ===== verification/RDF_Agreement.thy ===== *)
theory RDF_Agreement
  imports RDF_Bundle
begin

text \<open>
  What an update does to the filters of a bundle. The per-level filters refine lists of calls of
  the specification of \<open>PLRDF_Runs\<close>, the SuRF filters are described by the keys a file
  reports as deleted. The filters read the same keys in three forms, as strings, as numbers
  (\<open>std::stoll\<close>) and as condensed byte strings; \<open>key_translation\<close> is the interface between
  the forms: a map that preserves the order of the keys in use. The properties say that the
  filters of a bundle agree: they report the same keys, each in its own form.
\<close>

section \<open>Keys in several forms\<close>

definition on_ends :: "('k \<Rightarrow> bool) \<Rightarrow> 'k range list \<Rightarrow> bool" where
  "on_ends Q rs \<longleftrightarrow> (\<forall>r \<in> set rs. Q (fst r) \<and> Q (snd r))"

lemma on_ends_Nil [simp]: "on_ends Q []"
  by (simp add: on_ends_def)

lemma on_ends_Cons [simp]: "on_ends Q (r # rs) \<longleftrightarrow> Q (fst r) \<and> Q (snd r) \<and> on_ends Q rs"
  by (auto simp: on_ends_def)

lemma on_ends_append [simp]: "on_ends Q (rs @ ss) \<longleftrightarrow> on_ends Q rs \<and> on_ends Q ss"
  by (auto simp: on_ends_def)

lemma fixed_len_on_ends: "fixed_len L rs \<longleftrightarrow> on_ends (\<lambda>k. length k = L) rs"
  by (simp add: fixed_len_def on_ends_def)

definition translate :: "('a \<Rightarrow> 'b) \<Rightarrow> 'a range list \<Rightarrow> 'b range list" where
  "translate tr = map (map_prod tr tr)"

locale key_translation =
  fixes D :: "'a::linorder \<Rightarrow> bool" and tr :: "'a \<Rightarrow> 'b::linorder"
  assumes tr_less: "D x \<Longrightarrow> D y \<Longrightarrow> tr x < tr y \<longleftrightarrow> x < y"
begin

lemma tr_le: "D x \<Longrightarrow> D y \<Longrightarrow> tr x \<le> tr y \<longleftrightarrow> x \<le> y"
  using tr_less[of y x] by (simp add: not_less[symmetric])

lemma cover_translate:
  "on_ends D rs \<Longrightarrow> D k \<Longrightarrow> tr k \<in> cover (translate tr rs) \<longleftrightarrow> k \<in> cover rs"
  by (induction rs) (auto simp: translate_def cover_Cons tr_le tr_less)

lemma nonempty_translate: "on_ends D rs \<Longrightarrow> nonempty_ranges rs \<Longrightarrow> nonempty_ranges (translate tr rs)"
  by (auto simp: nonempty_ranges_def translate_def on_ends_def tr_less)

lemma sorted_translate:
  assumes "on_ends D rs" "sorted_wrt (\<lambda>r s. snd r \<le> fst s) rs"
  shows "sorted_wrt (\<lambda>r s. snd r \<le> fst s) (translate tr rs)"
  unfolding translate_def sorted_wrt_map using assms
  by (intro sorted_wrt_mono_rel[OF _ assms(2)]) (simp add: on_ends_def tr_le)

lemma ordered_translate: "on_ends D rs \<Longrightarrow> ordered_ranges rs \<Longrightarrow> ordered_ranges (translate tr rs)"
  using sorted_translate[of rs] by (auto simp: ordered_ranges_def translate_def on_ends_def tr_less)

lemma boundaries_translate: "on_ends D fbs \<Longrightarrow> boundaries_ok fbs \<Longrightarrow> boundaries_ok (translate tr fbs)"
  using sorted_translate[of fbs] by (auto simp: boundaries_ok_def translate_def on_ends_def tr_le)

lemma window_translate:
  "on_ends D fbs \<Longrightarrow> i < length fbs \<Longrightarrow> D k \<Longrightarrow>
   tr k \<in> {fst (translate tr fbs ! i)..<snd (translate tr fbs ! i)} \<longleftrightarrow> k \<in> {fst (fbs ! i)..<snd (fbs ! i)}"
  by (auto simp: translate_def on_ends_def tr_le tr_less)

end

text \<open>Keys of \<open>n\<close> decimal digits, as numbers.\<close>

definition digits :: "nat \<Rightarrow> string \<Rightarrow> bool" where
  "digits n k \<longleftrightarrow> length k = n \<and> 0 < n \<and> n \<le> 18 \<and> list_all is_digit k"

definition num :: "string \<Rightarrow> int" where
  "num k = int (number k)"

lemma digits_less_iff:
  assumes "length x = length y" "list_all is_digit x" "list_all is_digit y"
  shows "number x < number y \<longleftrightarrow> x < y"
proof -
  have "map digit_of x < map digit_of y \<longleftrightarrow> x < y"
    using assms
  proof (induction x y rule: list_induct2)
    case (Cons c x d y)
    have d: "is_digit c" "is_digit d" using Cons.prems by auto
    then have "digit_of c < digit_of d \<longleftrightarrow> c < d" by (auto simp: is_digit_iff digit_of_def less_char_def)
    moreover have "digit_of c = digit_of d \<longleftrightarrow> c = d" using d[THEN char_of_digit_of] by metis
    ultimately show ?case using Cons by simp
  qed simp
  then show ?thesis
    using value_of_less_iff[of "map digit_of x" "map digit_of y" 10] digits_less assms by (simp add: number_def)
qed

interpretation numbers: key_translation "digits n" num for n
  by unfold_locales (auto simp: digits_def num_def digits_less_iff)

lemma range_stoll_digits:
  assumes "digits n (fst r)" "digits n (snd r)"
  shows "range_stoll r = Inr (map_prod num num r)"
proof -
  have "stoll k = Inr (num k)" if "digits n k" for k
  proof -
    have "number k < 10 ^ 18" using number_bound[of k 18] that by (simp add: digits_def)
    then show ?thesis using stoll_digits[of k] that by (auto simp: digits_def num_def)
  qed
  then show ?thesis using assms by (cases r) (simp add: range_stoll_def)
qed

lemma map_res_stoll: "on_ends (digits n) rs \<Longrightarrow> map_res range_stoll rs = Inr (translate num rs)"
  by (induction rs) (auto simp: translate_def range_stoll_digits)

text \<open>Keys as a SuRF filter of stored length \<open>L\<close> reads them.\<close>

definition surf_key :: "surf_env \<Rightarrow> string \<Rightarrow> string" where
  "surf_key env k =
     (if flag_use_condensed_digit_key env
      then (case condense_key env k of Inl e \<Rightarrow> [] | Inr x \<Rightarrow> x) else k)"

definition surf_readable :: "surf_env \<Rightarrow> nat \<Rightarrow> nat \<Rightarrow> string \<Rightarrow> bool" where
  "surf_readable env L n k \<longleftrightarrow> length k = n \<and>
     (if flag_use_condensed_digit_key env
      then list_all is_digit k \<and> 0 < L \<and> length_of_condensed_digit_key env = L \<and> number k < 256 ^ L
      else n = L)"

lemma condense_key_ok:
  assumes "list_all is_digit k" "0 < L" "length_of_condensed_digit_key env = L" "number k < 256 ^ L"
  shows "\<exists>x. condense_key env k = Inr x \<and> length x = L \<and> bytes_value x = number k"
proof -
  obtain out where out: "encode_digit_string_to_byte_string k = Inr out" using encode_ok[OF assms(1)] by blast
  then have "length out \<le> L" using encode_length[OF assms(1)] assms(2,4) by blast
  then show ?thesis
    using out encode_extend_value[OF assms(1) out] assms(3) by (simp add: condense_key_def length_extend)
qed

lemma surf_key_length: "surf_readable env L n k \<Longrightarrow> length (surf_key env k) = L"
  using condense_key_ok[of k L env] by (auto simp: surf_readable_def surf_key_def split: if_splits)

interpretation condensed: key_translation "surf_readable env L n" "surf_key env" for env L n
proof
  fix x y assume r: "surf_readable env L n x" "surf_readable env L n y"
  show "surf_key env x < surf_key env y \<longleftrightarrow> x < y"
  proof (cases "flag_use_condensed_digit_key env")
    case True
    then have "bytes_value (surf_key env x) = number x" "bytes_value (surf_key env y) = number y"
      using condense_key_ok[of x L env] condense_key_ok[of y L env] r
      by (auto simp: surf_readable_def surf_key_def)
    then show ?thesis
      using bytes_value_less_iff[of "surf_key env x" "surf_key env y"] r[THEN surf_key_length] r digits_less_iff[of x y] True
      by (simp add: surf_readable_def)
  qed (simp add: surf_key_def)
qed

lemma condense_key_surf_key:
  "surf_readable env L n k \<Longrightarrow> flag_use_condensed_digit_key env \<Longrightarrow> condense_key env k = Inr (surf_key env k)"
  using condense_key_ok[of k L env] by (auto simp: surf_readable_def surf_key_def)

lemma condense_ranges_ok:
  assumes "on_ends (surf_readable env L n) rs"
  shows "condense_ranges env rs = Inr (translate (surf_key env) rs)"
proof (cases "flag_use_condensed_digit_key env")
  case True
  then show ?thesis using assms
    by (induction rs) (auto simp: condense_ranges_def translate_def condense_key_surf_key)
next
  case False
  then have "surf_key env = (\<lambda>k. k)" by (intro ext) (simp add: surf_key_def)
  then show ?thesis using False by (simp add: condense_ranges_def translate_def prod.map_ident)
qed

lemma condense_keys_ok:
  assumes "list_all (surf_readable env L n) ks"
  shows "condense_keys env ks = Inr (map (surf_key env) ks)"
proof (cases "flag_use_condensed_digit_key env")
  case True
  then show ?thesis using assms by (induction ks) (auto simp: condense_keys_def condense_key_surf_key)
next
  case False
  then have "surf_key env = (\<lambda>k. k)" by (intro ext) (simp add: surf_key_def)
  then show ?thesis using False by (simp add: condense_keys_def)
qed

lemma fixed_len_condensed: "on_ends (surf_readable env L n) rs \<Longrightarrow> fixed_len L (translate (surf_key env) rs)"
  by (auto simp: fixed_len_on_ends on_ends_def translate_def surf_key_length)

section \<open>The tombstones of a compaction\<close>

lemma merge_tombstones_loop_eq: "merge_tombstones_loop r rs = surf_merge_loop False r rs"
  by (induction r rs rule: merge_tombstones_loop.induct) (simp_all add: shall_be_merged_def max.commute)

lemma merge_tombstones_ok:
  assumes "nonempty_ranges rds"
  shows "canonical (merge_tombstones rds)" "cover (merge_tombstones rds) = cover rds"
    and "on_ends Q rds \<Longrightarrow> on_ends Q (merge_tombstones rds)"
proof -
  have set: "set (sort rds) = set rds" by simp
  have ne: "nonempty_ranges (sort rds)" using assms nonempty_ranges_set[OF set] by simp
  have cov: "cover (sort rds) = cover rds" using cover_set_cong[OF set] .
  have "canonical (merge_tombstones rds) \<and> cover (merge_tombstones rds) = cover rds \<and>
    (on_ends Q rds \<longrightarrow> on_ends Q (merge_tombstones rds))"
  proof (cases "sort rds")
    case Nil
    then show ?thesis using cov by (simp add: merge_tombstones_def)
  next
    case (Cons r rs)
    have st: "by_start (r # rs)" using sort_by_start[of rds] Cons by simp
    have "on_ends Q (surf_merge_loop False r rs)" if "on_ends Q rds"
      unfolding on_ends_def
    proof
      fix q assume "q \<in> set (surf_merge_loop False r rs)"
      then have "fst q \<in> fst ` set rds" "snd q \<in> snd ` set rds"
        using surf_merge_loop_ends[of q False r rs] set unfolding Cons by blast+
      then show "Q (fst q) \<and> Q (snd q)" using that by (auto simp: on_ends_def)
    qed
    then show ?thesis
      using surf_merge_loop_cover[OF st, of False] surf_merge_loop_order[OF st, of False] ne cov Cons
      by (simp add: merge_tombstones_def merge_tombstones_loop_eq range_order_def)
  qed
  then show "canonical (merge_tombstones rds)" "cover (merge_tombstones rds) = cover rds"
    "on_ends Q rds \<Longrightarrow> on_ends Q (merge_tombstones rds)" by auto
qed

definition window :: "'k::linorder range list \<Rightarrow> 'k set" where
  "window fbs = (\<Union>fb \<in> set fbs. {fst fb..<snd fb})"

lemma ordered_append:
  assumes "ordered_ranges xs" "ordered_ranges ys" "\<forall>x \<in> set xs. \<forall>y \<in> set ys. snd x \<le> fst y"
  shows "ordered_ranges (xs @ ys)"
  using assms by (auto simp: ordered_ranges_def sorted_wrt_append)

lemma filtered_loop_ok:
  assumes "ordered_ranges rd" "boundaries_ok fbs"
  shows "ordered_ranges (filtered_loop rd fbs) \<and> cover (filtered_loop rd fbs) = cover rd \<inter> window fbs"
  using assms
proof (induction fbs arbitrary: rd)
  case (Cons fb fbs)
  have ok: "boundaries_ok fbs" using Cons.prems(2) by (simp add: boundaries_ok_def)
  show ?case
  proof (cases "fst fb = snd fb")
    case True
    then show ?thesis using Cons.IH[OF Cons.prems(1) ok] by (simp add: window_def)
  next
    case False
    then have lt: "fst fb < snd fb" using Cons.prems(2) by (auto simp: boundaries_ok_def)
    let ?rest = "dropWhile (\<lambda>r. snd r \<le> fst fb) rd"
    let ?piece = "map (clip fb) (takeWhile (\<lambda>r. fst r < snd fb) ?rest)"
    have o: "ordered_ranges ?rest" using ordered_dropWhile[OF Cons.prems(1)] .
    have same: "k \<in> cover ?rest \<longleftrightarrow> k \<in> cover rd" if "fst fb \<le> k" for k
      using ordered_dropWhile_before(2)[OF Cons.prems(1) that] .
    have late: "snd fb \<le> k" if "k \<in> window fbs" for k
    proof -
      obtain b where "b \<in> set fbs" "fst b \<le> k" using \<open>k \<in> window fbs\<close> by (auto simp: window_def)
      moreover from this have "snd fb \<le> fst b" using Cons.prems(2) by (simp add: boundaries_ok_def)
      ultimately show ?thesis by order
    qed
    have piece: "ordered_ranges ?piece" "cover ?piece = cover rd \<inter> {fst fb..<snd fb}"
      using clip_ordered(1)[OF lt ordered_dropWhile_before(1)[OF Cons.prems(1)] o] clip_cover[OF o, of fb] same by auto
    have IH: "ordered_ranges (filtered_loop ?rest fbs)" "cover (filtered_loop ?rest fbs) = cover ?rest \<inter> window fbs"
      using Cons.IH[OF o ok] by auto
    have "snd x \<le> fst y" if x: "x \<in> set ?piece" and y: "y \<in> set (filtered_loop ?rest fbs)" for x y
    proof -
      have "snd x \<le> snd fb" using x by (auto simp: clip_def)
      moreover have "fst y < snd y" using y IH(1) by (simp add: ordered_ranges_def)
      then have "fst y \<in> cover (filtered_loop ?rest fbs)" using y by (auto simp: cover_def)
      then have "snd fb \<le> fst y" using late IH(2) by auto
      ultimately show ?thesis by order
    qed
    then have "ordered_ranges (?piece @ filtered_loop ?rest fbs)" using ordered_append[OF piece(1) IH(1)] by blast
    moreover have "cover ?rest \<inter> window fbs = cover rd \<inter> window fbs"
    proof (rule set_eqI)
      fix k show "k \<in> cover ?rest \<inter> window fbs \<longleftrightarrow> k \<in> cover rd \<inter> window fbs"
        using late[of k] same[of k] lt by (cases "k \<in> window fbs") auto
    qed
    then have "cover (?piece @ filtered_loop ?rest fbs) = cover rd \<inter> window (fb # fbs)"
      using piece(2) IH(2) by (simp add: cover_append window_def Int_Un_distrib)
    ultimately show ?thesis using False by (simp add: Let_def)
  qed
qed (simp add: window_def ordered_ranges_def)

lemma filtered_loop_ends: "on_ends Q rd \<Longrightarrow> on_ends Q fbs \<Longrightarrow> on_ends Q (filtered_loop rd fbs)"
proof (induction fbs arbitrary: rd)
  case (Cons fb fbs)
  let ?rest = "dropWhile (\<lambda>r. snd r \<le> fst fb) rd"
  have rest: "on_ends Q ?rest" using Cons.prems(1) by (auto simp: on_ends_def dest: set_dropWhileD)
  then have "on_ends Q (map (clip fb) (takeWhile (\<lambda>r. fst r < snd fb) ?rest))"
    using Cons.prems(2) by (auto simp: on_ends_def clip_def max_def min_def dest!: set_takeWhileD)
  then show ?case using Cons rest by (simp add: Let_def)
qed simp

text \<open>What the update moves to the output level.\<close>

lemma filtered_tombstones_ok:
  assumes "nonempty_ranges rds" "boundaries_ok fbs"
  defines "out \<equiv> getOutputLevelRangeTombstonesFilteredByFileRanges (merge_tombstones rds) fbs"
  shows "ordered_ranges out" "cover out = cover rds \<inter> window fbs"
    and "on_ends Q rds \<Longrightarrow> on_ends Q fbs \<Longrightarrow> on_ends Q out"
proof -
  have m: "canonical (merge_tombstones rds)" "cover (merge_tombstones rds) = cover rds"
    using merge_tombstones_ok[OF assms(1)] by auto
  then have "ordered_ranges (filtered_loop (merge_tombstones rds) fbs)"
    "cover (filtered_loop (merge_tombstones rds) fbs) = cover rds \<inter> window fbs"
    using filtered_loop_ok[OF canonical_ordered[OF m(1)] assms(2)] by auto
  then show "ordered_ranges out" "cover out = cover rds \<inter> window fbs"
    using m(2) by (auto simp: out_def getOutputLevelRangeTombstonesFilteredByFileRanges_def ordered_ranges_def)
  show "on_ends Q rds \<Longrightarrow> on_ends Q fbs \<Longrightarrow> on_ends Q out"
    using filtered_loop_ends merge_tombstones_ok(3)[OF assms(1)]
    by (auto simp: out_def getOutputLevelRangeTombstonesFilteredByFileRanges_def)
qed

section \<open>The per-level filters\<close>

text \<open>The calls a handler makes on one per-level filter.\<close>

definition flush_ops :: "'k flush_delta \<Rightarrow> 'k filter_op list" where
  "flush_ops d = (case d of (file_num, rds, exist) \<Rightarrow> if file_num \<noteq> 0 then [Flush file_num rds exist] else [])"

definition compact_ops :: "'k file_meta list \<Rightarrow> 'k range list \<Rightarrow> 'k filter_op list" where
  "compact_ops metas rds = (if metas = [] then [] else [Shift metas rds])"

definition split_ops :: "bool \<Rightarrow> 'k file_meta list \<Rightarrow> 'k list \<Rightarrow> 'k filter_op list" where
  "split_ops flag metas keys =
     (if metas \<noteq> [] \<and> flag \<and> fst (snd (hd metas)) \<ge> 0 \<and> keys \<noteq> []
      then [Split (to_uint (fst (snd (hd metas)))) keys] else [])"

definition top_level_ops :: "bool \<Rightarrow> 'k list \<Rightarrow> 'k file_meta list \<Rightarrow> 'k range list \<Rightarrow> 'k filter_op list" where
  "top_level_ops flag keys metas rds =
     (if metas \<noteq> [] \<and> flag \<and> keys \<noteq> [] \<and> fst (hd metas) = 0 then [Shift metas rds, Split 1 keys] else [])"

definition remove_ops :: "'k file_meta list \<Rightarrow> 'k filter_op list" where
  "remove_ops = map (\<lambda>(level, out_level, rds, fds). Remove (level, rds, fds))"

fun ops_ok :: "build \<Rightarrow> 'k::linorder filter_op list \<Rightarrow> ('k, 'm) plrdf_scheme \<Rightarrow> bool" where
  "ops_ok b [] s = True"
| "ops_ok b (x # xs) s = (op_ok b x s \<and> (\<forall>s'. run_op b False x s = Inr s' \<longrightarrow> ops_ok b xs s'))"

definition refined :: "'k::linorder filter_op list \<Rightarrow> ('k, 'm) plrdf_scheme \<Rightarrow> ('k, 'm) plrdf_scheme \<Rightarrow> bool" where
  "refined xs s s' \<longleftrightarrow> plrdf_inv s' \<and> abs_filter s' = fold spec_op xs (abs_filter s)"

lemma fold_res_Nil_fun [simp]: "fold_res f [] = Inr"
  by (rule ext) simp

lemma fold_res_single [simp]: "fold_res f [x] = f x"
  by (rule ext) simp

lemma run_ops_refined:
  assumes "plrdf_inv s" "ops_ok b xs s"
  shows "\<exists>s'. fold_res (run_op b False) xs s = Inr s' \<and> refined xs s s'"
  using assms
proof (induction xs arbitrary: s)
  case (Cons x xs)
  obtain s1 where s1: "run_op b False x s = Inr s1" "plrdf_inv s1" "abs_filter s1 = spec_op x (abs_filter s)"
    using run_op_refines[OF Cons.prems(1), of b x] Cons.prems(2) by auto
  then obtain s2 where "fold_res (run_op b False) xs s1 = Inr s2" "refined xs s1 s2"
    using Cons.IH[OF s1(2)] Cons.prems(2) by auto
  then show ?case using s1 by (simp add: refined_def)
qed (simp add: refined_def)

lemma same_filter_abs: "same_filter s s' \<Longrightarrow> abs_filter s' = abs_filter s"
  using same_filter_inv[of s s'] by (simp add: abs_filter_def same_filter_def)

lemma same_filter_tracing: "same_filter s (add_tracing adds s)" "same_filter s (remove_tracing rems s)"
proof -
  show "same_filter s (add_tracing adds s)"
    by (induction adds arbitrary: s)
       (auto simp: add_tracing_def case_prod_beta intro: same_filter_trans[OF same_filter_insert])
  show "same_filter s (remove_tracing rems s)"
    by (induction rems arbitrary: s)
       (auto simp: remove_tracing_def case_prod_beta intro: same_filter_trans[OF same_filter_remove])
qed

lemma same_filter_op_ok: "same_filter s s' \<Longrightarrow> op_ok b x s' = op_ok b x s"
  by (cases x) (auto simp: same_filter_def split: prod.split)

lemma check_tracing_off [simp]: "check_tracing False l = Inr"
  by (rule ext) (simp add: check_tracing_def)

lemma run_Split [simp]: "run_op b p (Split l ks) = splitRangesOnLevel l ks"
  by (rule ext) simp

lemma flush_filter_ops: "flush_filter d s = fold_res (run_op b False) (flush_ops d) s"
  by (simp add: flush_filter_def flush_ops_def split: prod.split)

lemma flush_filter_ll_ops: "flush_filter_ll False d s = fold_res (run_op b False) (flush_ops d) s"
  by (simp add: flush_filter_ll_def flush_ops_def insertRangeDeleteToLevel0_ll_def split: prod.split)

lemma compact_filter_ops: "compact_filter b metas rds s = fold_res (run_op b False) (compact_ops metas rds) s"
  by (simp add: compact_filter_def compact_ops_def)

lemma compact_filter_ll_ops:
  assumes "plrdf_inv s" "metas_ok metas" "on_ends (digits n) on_output"
  shows "compact_filter_ll b False metas on_output s =
    fold_res (run_op b False) (compact_ops metas (translate num on_output)) s"
  using shiftRDFToOutputLevel_ll_eq[OF assms(1,2)] map_res_stoll[OF assms(3)]
  by (simp add: compact_filter_ll_def compact_ops_def check_tracing_def)

lemma split_after_ops:
  "split_after splitRangesOnLevel flag metas keys s = fold_res (run_op b False) (split_ops flag metas keys) s"
  by (simp add: split_after_def split_ops_def Let_def)

lemma compact_top_level_ops:
  "compact_top_level b flag keys metas rds s = fold_res (run_op b False) (top_level_ops flag keys metas rds) s"
  by (simp add: compact_top_level_def top_level_ops_def)

lemma compact_top_level_ll_ops:
  assumes "plrdf_inv s" "metas_ok metas" "on_ends (digits n) on_output"
  shows "compact_top_level_ll b flag keys metas on_output s =
    fold_res (run_op b False) (top_level_ops flag keys metas (translate num on_output)) s"
  using shiftRDFToOutputLevel_ll_eq[OF assms(1,2)] map_res_stoll[OF assms(3)]
  by (simp add: compact_top_level_ll_def top_level_ops_def splitRangesOnLevel_ll_def)

lemma remove_filter_ops: "remove_filter b metas s = fold_res (run_op b False) (remove_ops metas) s"
proof (induction metas arbitrary: s)
  case (Cons m metas)
  obtain l out rds fds where m: "m = (l, out, rds, fds)" by (cases m)
  show ?case using Cons.IH unfolding m remove_filter_def remove_ops_def by (auto intro!: bind_res_cong)
qed (simp add: remove_filter_def remove_ops_def)

lemma remove_filter_ll_eq: "remove_filter_ll b False = remove_filter b"
  by (intro ext) (simp add: remove_filter_ll_def remove_filter_def deleteRDF_ll_eq)

section \<open>The SuRF filters\<close>

definition surf_entry :: "'s surf_rdf option \<Rightarrow> nat \<Rightarrow> fd \<Rightarrow> (int \<times> 's) option" where
  "surf_entry p l f = (case p of None \<Rightarrow> None | Some s \<Rightarrow> file_entry s l f)"

definition surf_dead :: "'s surf_ops \<Rightarrow> nat \<Rightarrow> 's surf_rdf option \<Rightarrow> nat \<Rightarrow> fd \<Rightarrow> string set" where
  "surf_dead ops L p l f = (case p of None \<Rightarrow> {} | Some s \<Rightarrow> file_dead ops L s l f)"

definition surf_ok :: "'s surf_ops \<Rightarrow> nat \<Rightarrow> 's surf_rdf option \<Rightarrow> bool" where
  "surf_ok ops L p \<longleftrightarrow> (case p of None \<Rightarrow> True | Some s \<Rightarrow> surf_inv ops L False s)"

text \<open>A configuration with half-open ranges whose trie stores keys of length \<open>L\<close> whole.\<close>

definition surf_config :: "'s config \<Rightarrow> nat \<Rightarrow> bool" where
  "surf_config cfg L \<longleftrightarrow> trie_ok (cfg_ops cfg) L \<and> whole_keys (cfg_env cfg) L \<and>
     \<not> flag_bypass_if_same_key (cfg_env cfg) \<and> \<not> flag_allow_range_boundary_overlapped (cfg_env cfg)"

lemma surf_config_allow: "surf_config cfg L \<Longrightarrow> getFlagAllowRangeBoundaryOverlapped b (cfg_env cfg) = Inr False"
  by (simp add: surf_config_def getFlagAllowRangeBoundaryOverlapped_def)

lemma file_entry_empty [simp]: "file_entry (surf_rdf_empty m) l f = None"
  by (simp add: file_entry_def surf_rdf_empty_def)

lemma surf_for_update_ok:
  assumes "surf_ok ops L p"
  shows "surf_inv ops L False (surf_for_update p)" "file_entry (surf_for_update p) l f = surf_entry p l f"
proof -
  have copy: "file_entry (surf_rdf_copy s) = file_entry s" if "surf_mode s = PER_FILE" for s :: "'a surf_rdf"
    using that by (intro ext) (simp add: file_entry_def surf_rdf_copy_def)
  have mode: "surf_mode (surf_rdf_copy s) = surf_mode s" for s :: "'a surf_rdf"
    by (simp add: surf_rdf_copy_def surf_rdf_empty_def)
  show "surf_inv ops L False (surf_for_update p)" "file_entry (surf_for_update p) l f = surf_entry p l f"
    using assms copy mode surf_inv_empty[of ops L False]
    by (auto simp: surf_for_update_def surf_ok_def surf_entry_def surf_inv_def split: option.splits)
qed

lemma surf_dead_entry: "surf_entry p l f = file_entry s' l' f' \<Longrightarrow> surf_dead ops L (Some s') l' f' = surf_dead ops L p l f"
  by (cases p) (auto simp: surf_dead_def surf_entry_def file_dead_def)

lemma surf_dead_Some [simp]: "surf_dead ops L (Some s) l f = file_dead ops L s l f"
  by (simp add: surf_dead_def)

lemma file_dead_None: "file_entry s l f = None \<Longrightarrow> file_dead ops L s l f = {}"
  by (simp add: file_dead_def)

lemma file_dead_cong: "file_entry s l f = file_entry s' l f \<Longrightarrow> file_dead ops L s l f = file_dead ops L s' l f"
  by (simp add: file_dead_def)

subsection \<open>Flush\<close>

definition flush_info_ok :: "surf_env \<Rightarrow> nat \<Rightarrow> nat \<Rightarrow> flush_info option \<Rightarrow> bool" where
  "flush_info_ok env L n info \<longleftrightarrow>
     (case info of None \<Rightarrow> True
      | Some i \<Rightarrow> on_ends (surf_readable env L n) (flush_rd_list i) \<and> nonempty_ranges (flush_rd_list i) \<and>
                  length (flush_rd_list i) < 2 ^ 31)"

definition flushed_surf ::
  "surf_env \<Rightarrow> 's surf_ops \<Rightarrow> nat \<Rightarrow> flush_info option \<Rightarrow> 's surf_rdf option \<Rightarrow> nat \<Rightarrow> fd \<Rightarrow> string set" where
  "flushed_surf env ops L info p l f =
     (case info of None \<Rightarrow> surf_dead ops L p l f
      | Some i \<Rightarrow> if l = 0 \<and> f = flush_dst_fd i \<and> surf_entry p l f = None
                  then {k. length k = L} \<inter> cover (translate (surf_key env) (flush_rd_list i))
                  else surf_dead ops L p l f)"

lemma flush_surf_ok:
  assumes "surf_config cfg L" "surf_ok (cfg_ops cfg) L p" "flush_info_ok (cfg_env cfg) L n info"
  shows "\<exists>p'. flush_surf cfg info p = Inr p' \<and> surf_ok (cfg_ops cfg) L p' \<and>
    surf_dead (cfg_ops cfg) L p' = flushed_surf (cfg_env cfg) (cfg_ops cfg) L info p"
proof (cases info)
  case None
  then show ?thesis using assms(2) by (auto simp: flush_surf_def flushed_surf_def fun_eq_iff)
next
  case (Some i)
  let ?env = "cfg_env cfg" and ?ops = "cfg_ops cfg" and ?s = "surf_for_update p"
  let ?rds = "translate (surf_key ?env) (flush_rd_list i)" and ?f = "flush_dst_fd i"
  have ok: "trie_ok ?ops L" "whole_keys ?env L" using assms(1) by (auto simp: surf_config_def)
  have ends: "on_ends (surf_readable ?env L n) (flush_rd_list i)" and ne: "nonempty_ranges (flush_rd_list i)"
    and len: "length (flush_rd_list i) < 2 ^ 31" using assms(3) Some by (auto simp: flush_info_ok_def)
  have inv: "surf_inv ?ops L False ?s" using surf_for_update_ok(1)[OF assms(2)] .
  have entry: "surf_entry p l f = file_entry ?s l f" for l f using surf_for_update_ok(2)[OF assms(2)] by simp
  have same: "surf_dead ?ops L p l f = file_dead ?ops L ?s l f" for l f
    using surf_dead_entry[OF entry, of ?ops L l f] by simp
  have fl: "flushed_surf ?env ?ops L info p l f = (if l = 0 \<and> f = ?f \<and> file_entry ?s 0 ?f = None
      then {k. length k = L} \<inter> cover ?rds else file_dead ?ops L ?s l f)" for l f
    unfolding flushed_surf_def Some option.case entry same by auto
  have mode: "surf_mode ?s = PER_FILE" using inv by (simp add: surf_inv_def)
  have res: "flush_surf cfg info p = (if ?rds \<noteq> [] then
      bind_res (insertRangeDeleteToLevel0_surf (cfg_build cfg) ?env ?ops ?f ?rds False ?s) (\<lambda>s. Inr (Some s)) else Inr (Some ?s))"
    using Some condense_ranges_ok[OF ends] surf_config_allow[OF assms(1)] by (simp add: flush_surf_def Let_def)
  show ?thesis
  proof (cases "?rds = [] \<or> file_entry ?s 0 ?f \<noteq> None")
    case True
    then have "flush_surf cfg info p = Inr (Some ?s)" using res mode by (auto simp: insertRangeDeleteToLevel0_surf_def)
    moreover have "surf_dead ?ops L (Some ?s) l f = flushed_surf ?env ?ops L info p l f" for l f
      unfolding fl using True file_dead_None[of ?s 0 ?f ?ops L] by auto
    ultimately show ?thesis using inv by (auto simp: surf_ok_def fun_eq_iff)
  next
    case False
    have st: "storable L ?rds"
      using False fixed_len_condensed[OF ends] condensed.nonempty_translate[OF ends ne] len
      by (simp add: storable_def translate_def)
    let ?v = "stored_file ?ops L False [] ?rds"
    let ?s' = "put_file 0 ?f ?v ?s"
    have new: "?rds \<noteq> []" "file_entry ?s 0 ?f = None" using False by blast+
    have "insertRangeDeleteToLevel0_surf (cfg_build cfg) ?env ?ops ?f ?rds False ?s = Inr ?s'"
      using new mode insertRangesAtLevelOfFd_ok[OF mode ok(2) st new(2)] by (simp add: insertRangeDeleteToLevel0_surf_def)
    then have r: "flush_surf cfg info p = Inr (Some ?s')" unfolding res using new(1) by simp
    have h: "holds ?ops L False [] ?rds (snd ?v) \<and> 0 < fst ?v" using stored_file_holds[OF st, of "[]"] by simp
    have "file_dead ?ops L ?s' 0 ?f = {k. length k = L} \<inter> cover ?rds"
      using file_dead_holds[OF ok(1), of ?s' 0 ?f "fst ?v" "snd ?v" "[]" ?rds] h by simp
    then have "surf_dead ?ops L (Some ?s') l f = flushed_surf ?env ?ops L info p l f" for l f
      unfolding fl using False file_dead_cong[of ?s' l f ?s ?ops L] by auto
    then show ?thesis using r surf_inv_put[OF inv h] by (auto simp: surf_ok_def fun_eq_iff)
  qed
qed

subsection \<open>Compaction and removal\<close>

definition sources :: "moving_info \<Rightarrow> (nat \<times> fd) set" where
  "sources i = (\<Union>src \<in> set (src_level_info_list i). Pair (src_level src) ` set (src_fd_list src))"

lemma removeSuRFs_ok:
  assumes "surf_inv ops L allow s"
  shows "\<exists>s'. fold_res (removeSuRFAtLevelOfFd b l) fds s = Inr s' \<and> surf_inv ops L allow s' \<and>
    (\<forall>l' f. file_entry s' l' f = (if l' = l \<and> f \<in> set fds then None else file_entry s l' f))"
  using assms
proof (induction fds arbitrary: s)
  case (Cons g fds)
  let ?s = "if file_entry s l g = None then s else erase_file l g s"
  have inv: "surf_inv ops L allow ?s" using Cons.prems surf_inv_erase by auto
  have e: "file_entry ?s l' f = (if l' = l \<and> f = g then None else file_entry s l' f)" for l' f by auto
  from Cons.IH[OF inv] obtain s' where "fold_res (removeSuRFAtLevelOfFd b l) fds ?s = Inr s'" "surf_inv ops L allow s'"
    "\<forall>l' f. file_entry s' l' f = (if l' = l \<and> f \<in> set fds then None else file_entry ?s l' f)" by blast
  then show ?case using removeSuRF_ok[OF Cons.prems, of b l g] e by (auto simp del: if_split_asm)
qed auto

lemma RemoveSuRF_ok:
  assumes "surf_inv ops L allow s"
  shows "\<exists>s'. RemoveSuRF b (map src_level (src_level_info_list i)) (map src_fd_list (src_level_info_list i)) s = Inr s' \<and>
    surf_inv ops L allow s' \<and>
    (\<forall>l f. file_entry s' l f = (if (l, f) \<in> sources i then None else file_entry s l f))"
proof -
  have all: "\<exists>s'. fold_res (\<lambda>(l, fds). fold_res (removeSuRFAtLevelOfFd b l) fds) (map (\<lambda>x. (src_level x, src_fd_list x)) xs) s =
      Inr s' \<and> surf_inv ops L allow s' \<and> (\<forall>l f. file_entry s' l f =
      (if (l, f) \<in> (\<Union>src \<in> set xs. Pair (src_level src) ` set (src_fd_list src)) then None else file_entry s l f))" for xs
    using assms
  proof (induction xs arbitrary: s)
    case (Cons x xs)
    obtain s1 where s1: "fold_res (removeSuRFAtLevelOfFd b (src_level x)) (src_fd_list x) s = Inr s1" "surf_inv ops L allow s1"
      "\<forall>l f. file_entry s1 l f = (if l = src_level x \<and> f \<in> set (src_fd_list x) then None else file_entry s l f)"
      using removeSuRFs_ok[OF Cons.prems] by blast
    from Cons.IH[OF s1(2)] show ?case using s1 by auto
  qed simp
  have "zip (map src_level xs) (map src_fd_list xs) = map (\<lambda>x. (src_level x, src_fd_list x)) xs"
    for xs :: "source_level_info list" by (induction xs) auto
  then have eq: "RemoveSuRF b (map src_level (src_level_info_list i)) (map src_fd_list (src_level_info_list i)) s =
      fold_res (\<lambda>(l, fds). fold_res (removeSuRFAtLevelOfFd b l) fds)
        (map (\<lambda>x. (src_level x, src_fd_list x)) (src_level_info_list i)) s" by (simp add: RemoveSuRF_def)
  show ?thesis unfolding sources_def eq by (rule all)
qed

lemma fold_res_keeps:
  assumes "\<And>x s. I s \<Longrightarrow> \<exists>s'. f x s = Inr s' \<and> I s'" "I s"
  shows "\<exists>s'. fold_res f xs s = Inr s' \<and> I s'"
  using fold_res_invariant[of xs "\<lambda>_. I" f s] assms by blast

lemma direct_move_ok:
  assumes "surf_inv ops L allow s"
  shows "\<exists>s'. direct_move b i s = Inr s' \<and> surf_inv ops L allow s'"
proof -
  have one: "\<exists>s'. directMoveFileToLevel b f l d s = Inr s' \<and> surf_inv ops L allow s'" if s: "surf_inv ops L allow s" for f l d s
  proof -
    have mode: "surf_mode s = PER_FILE" using s by (simp add: surf_inv_def)
    show ?thesis
    proof (cases "file_entry s l f")
      case None
      then show ?thesis using s mode by (simp add: directMoveFileToLevel_def)
    next
      case (Some v)
      then obtain P rs where h: "holds ops L allow P rs (snd v) \<and> 0 < fst v" using s unfolding surf_inv_def by blast
      then have "directMoveFileToLevel b f l d s = Inr (erase_file l f (put_file d f v s))"
        using Some mode by (cases v) (simp add: directMoveFileToLevel_def erase_file_def Let_def)
      then show ?thesis using surf_inv_erase[OF surf_inv_put[OF s h]] by blast
    qed
  qed
  show ?thesis unfolding direct_move_def by (intro fold_res_keeps one assms)
qed

text \<open>What the caller of a compaction guarantees: the keys have one form, the boundaries of the output
  files follow each other, and the numbers of the output files are new at their level.\<close>

definition out_files :: "moving_info \<Rightarrow> fd list" where
  "out_files i = map out_fd (dst_level_info_list i)"

definition compact_info_ok :: "surf_env \<Rightarrow> nat \<Rightarrow> nat \<Rightarrow> 's surf_rdf option \<Rightarrow> moving_info \<Rightarrow> bool" where
  "compact_info_ok env L n p i \<longleftrightarrow>
     on_ends (surf_readable env L n) (info_tombstones i) \<and> nonempty_ranges (info_tombstones i) \<and>
     length (info_tombstones i) < 2 ^ 31 \<and>
     on_ends (surf_readable env L n) (info_boundaries i) \<and> boundaries_ok (info_boundaries i) \<and>
     distinct (out_files i) \<and>
     (\<forall>f \<in> set (out_files i). surf_entry p (dst_level i) f = None \<or> (dst_level i, f) \<in> sources i)"

definition moved_surf ::
  "surf_env \<Rightarrow> 's surf_ops \<Rightarrow> nat \<Rightarrow> string list \<Rightarrow> moving_info \<Rightarrow> 's surf_rdf option \<Rightarrow> 's surf_rdf option \<Rightarrow> bool" where
  "moved_surf env ops L P i p p' \<longleftrightarrow>
     (\<forall>j < length (out_files i).
        let fb = translate (surf_key env) (info_boundaries i) ! j
        in surf_dead ops L p' (dst_level i) (out_files i ! j) =
             {k. length k = L} \<inter> (cover (translate (surf_key env) (info_tombstones i)) \<inter> {fst fb..<snd fb} -
                                   surf_key env ` set P)) \<and>
     (\<forall>l f. l \<noteq> dst_level i \<or> f \<notin> set (out_files i) \<longrightarrow>
        surf_dead ops L p' l f = (if (l, f) \<in> sources i then {} else surf_dead ops L p l f))"

lemma length_merge_tombstones: "length (merge_tombstones rds) \<le> length rds"
proof -
  have "length (merge_tombstones_loop r rs) \<le> Suc (length rs)" for r :: "'a range" and rs
    by (induction r rs rule: merge_tombstones_loop.induct) auto
  then show ?thesis
    by (cases "sort rds") (auto simp: merge_tombstones_def length_sort[of "\<lambda>x. x" rds, symmetric] simp del: length_sort)
qed

lemma compact_surf_with_ok:
  fixes cfg :: "'s config"
  defines "env \<equiv> cfg_env cfg" and "ops \<equiv> cfg_ops cfg"
  assumes cfg: "surf_config cfg L" and p: "surf_ok ops L p" and i: "compact_info_ok env L n p i"
    and direct: "\<not> flag_direct_move_to_dst_level i"
    and shift: "\<And>merged s. canonical merged \<Longrightarrow> merged \<noteq> [] \<Longrightarrow> fixed_len L merged \<Longrightarrow>
        length merged \<le> length (info_tombstones i) \<Longrightarrow> surf_inv ops L False s \<Longrightarrow>
        \<forall>f \<in> set (out_files i). file_entry s (dst_level i) f = None \<Longrightarrow>
        \<exists>s'. shift cfg merged (dst_level i) (out_files i) (info_boundaries i) False s = Inr s' \<and>
          spread ops L (map (surf_key env) P) (cover merged) (dst_level i) (out_files i)
            (translate (surf_key env) (info_boundaries i)) s s'"
  shows "\<exists>p'. compact_surf_with shift cfg (Some i) p = Inr p' \<and> surf_ok ops L p' \<and> moved_surf env ops L P i p p'"
proof -
  let ?tr = "translate (surf_key env)" and ?s = "surf_for_update p"
  let ?merged = "merge_tombstones (?tr (info_tombstones i))"
  have ends: "on_ends (surf_readable env L n) (info_tombstones i)" "nonempty_ranges (info_tombstones i)"
    using i by (auto simp: compact_info_ok_def)
  have m: "canonical ?merged" "cover ?merged = cover (?tr (info_tombstones i))" "fixed_len L ?merged"
    using merge_tombstones_ok[OF condensed.nonempty_translate[OF ends]] fixed_len_condensed[OF ends(1)]
    by (auto simp: fixed_len_on_ends)
  have len: "length ?merged \<le> length (info_tombstones i)"
    using length_merge_tombstones[of "?tr (info_tombstones i)"] by (simp add: translate_def)
  obtain s1 where s1: "RemoveSuRF (cfg_build cfg) (map src_level (src_level_info_list i))
      (map src_fd_list (src_level_info_list i)) ?s = Inr s1" "surf_inv ops L False s1"
    "\<forall>l f. file_entry s1 l f = (if (l, f) \<in> sources i then None else file_entry ?s l f)"
    using RemoveSuRF_ok[OF surf_for_update_ok(1)[OF p]] by blast
  have e1: "file_entry s1 l f = (if (l, f) \<in> sources i then None else surf_entry p l f)" for l f
    using s1(3) surf_for_update_ok(2)[OF p] by simp
  have new: "\<forall>f \<in> set (out_files i). file_entry s1 (dst_level i) f = None"
    using i e1 by (auto simp: compact_info_ok_def)
  have res: "compact_surf_with shift cfg (Some i) p = bind_res (if ?merged \<noteq> []
      then shift cfg ?merged (dst_level i) (out_files i) (info_boundaries i) False s1 else Inr s1) (\<lambda>s. Inr (Some s))"
    using direct condense_ranges_ok[OF ends(1)] surf_config_allow[OF cfg] s1(1)
    by (simp add: compact_surf_with_def out_files_def env_def Let_def)
  obtain s2 where s2: "(if ?merged \<noteq> [] then shift cfg ?merged (dst_level i) (out_files i) (info_boundaries i) False s1
      else Inr s1) = Inr s2" "spread ops L (map (surf_key env) P) (cover ?merged) (dst_level i) (out_files i)
        (?tr (info_boundaries i)) s1 s2"
  proof (cases "?merged = []")
    case True
    then show ?thesis using that[of s1] s1(2) new by (auto simp: spread_def file_dead_None)
  next
    case False
    then show ?thesis using shift[OF m(1) False m(3) len s1(2) new] that by auto
  qed
  have "surf_dead ops L (Some s2) l f = (if (l, f) \<in> sources i then {} else surf_dead ops L p l f)"
    if "l \<noteq> dst_level i \<or> f \<notin> set (out_files i)" for l f
  proof -
    have "file_entry s2 l f = file_entry s1 l f" using s2(2) that by (simp add: spread_def)
    then show ?thesis using e1[of l f] file_dead_None[of s2 l f ops L] surf_dead_entry[of p l f s2 l f ops L] by auto
  qed
  then have "moved_surf env ops L P i p (Some s2)"
    using s2(2) m(2) by (auto simp: moved_surf_def spread_def Let_def)
  then show ?thesis using res s2 by (auto simp: surf_ok_def spread_def)
qed

lemma surf_ready:
  assumes "surf_config cfg L" "compact_info_ok (cfg_env cfg) L n p i"
  shows "trie_ok (cfg_ops cfg) L" "whole_keys (cfg_env cfg) L"
    and "condense_ranges (cfg_env cfg) (info_boundaries i) = Inr (translate (surf_key (cfg_env cfg)) (info_boundaries i))"
    and "boundaries_ok (translate (surf_key (cfg_env cfg)) (info_boundaries i))"
    and "fixed_len L (translate (surf_key (cfg_env cfg)) (info_boundaries i))"
    and "length (out_files i) = length (translate (surf_key (cfg_env cfg)) (info_boundaries i))" "distinct (out_files i)"
    and "length (info_tombstones i) < 2 ^ 31"
proof -
  have e: "on_ends (surf_readable (cfg_env cfg) L n) (info_boundaries i)" "boundaries_ok (info_boundaries i)"
    using assms(2) by (auto simp: compact_info_ok_def)
  show "trie_ok (cfg_ops cfg) L" "whole_keys (cfg_env cfg) L" using assms(1) by (auto simp: surf_config_def)
  show "condense_ranges (cfg_env cfg) (info_boundaries i) = Inr (translate (surf_key (cfg_env cfg)) (info_boundaries i))"
    using condense_ranges_ok[OF e(1)] .
  show "boundaries_ok (translate (surf_key (cfg_env cfg)) (info_boundaries i))"
    using condensed.boundaries_translate[OF e] .
  show "fixed_len L (translate (surf_key (cfg_env cfg)) (info_boundaries i))" using fixed_len_condensed[OF e(1)] .
  show "length (out_files i) = length (translate (surf_key (cfg_env cfg)) (info_boundaries i))"
    by (simp add: out_files_def info_boundaries_def translate_def)
  show "distinct (out_files i)" "length (info_tombstones i) < 2 ^ 31" using assms(2) by (auto simp: compact_info_ok_def)
qed

lemma compact_surf_ok:
  assumes "surf_config cfg L" "surf_ok (cfg_ops cfg) L p" "compact_info_ok (cfg_env cfg) L n p i"
    and "\<not> flag_direct_move_to_dst_level i"
  shows "\<exists>p'. compact_surf cfg (Some i) p = Inr p' \<and> surf_ok (cfg_ops cfg) L p' \<and>
    moved_surf (cfg_env cfg) (cfg_ops cfg) L [] i p p'"
  unfolding compact_surf_def
proof (rule compact_surf_with_ok[OF assms])
  note r = surf_ready[OF assms(1,3)]
  fix merged s assume h: "canonical merged" "merged \<noteq> []" "fixed_len L merged" "length merged \<le> length (info_tombstones i)"
    "surf_inv (cfg_ops cfg) L False s" "\<forall>f \<in> set (out_files i). file_entry s (dst_level i) f = None"
  have "length merged < 2 ^ 31" using h(4) r(8) by linarith
  then show "\<exists>s'. bind_res (condense_ranges (cfg_env cfg) (info_boundaries i)) (\<lambda>boundaries.
      shiftRDFToOutputLevel_surf (cfg_build cfg) (cfg_env cfg) (cfg_ops cfg) merged (dst_level i) (out_files i) boundaries False s)
      = Inr s' \<and> spread (cfg_ops cfg) L (map (surf_key (cfg_env cfg)) []) (cover merged) (dst_level i) (out_files i)
        (translate (surf_key (cfg_env cfg)) (info_boundaries i)) s s'"
    using shift_surf_ok[OF r(1,2) h(5,1,2,3) _ r(4,5,6,7) h(6)] r(3) by simp
qed

definition point_keys_ok :: "surf_env \<Rightarrow> nat \<Rightarrow> nat \<Rightarrow> string list \<Rightarrow> moving_info \<Rightarrow> bool" where
  "point_keys_ok env L n P i \<longleftrightarrow> sorted_wrt (<) P \<and> list_all (surf_readable env L n) P \<and>
     length (info_tombstones i) * (length P + 1) < 2 ^ 31"

lemma compact_surf_split_ok:
  assumes "surf_config cfg L" "surf_ok (cfg_ops cfg) L p" "compact_info_ok (cfg_env cfg) L n p i"
    and "\<not> flag_direct_move_to_dst_level i" "point_keys_ok (cfg_env cfg) L n P i"
  shows "\<exists>p'. compact_surf_split P cfg (Some i) p = Inr p' \<and> surf_ok (cfg_ops cfg) L p' \<and>
    moved_surf (cfg_env cfg) (cfg_ops cfg) L P i p p'"
  unfolding compact_surf_split_def
proof (rule compact_surf_with_ok[OF assms(1-4)])
  note r = surf_ready[OF assms(1,3)]
  let ?P = "map (surf_key (cfg_env cfg)) P"
  have P: "sorted_wrt (<) P" "\<forall>k \<in> set P. surf_readable (cfg_env cfg) L n k" "condense_keys (cfg_env cfg) P = Inr ?P"
    using assms(5) condense_keys_ok[of "cfg_env cfg" L n P] by (auto simp: point_keys_ok_def list_all_iff)
  have "sorted_wrt (<) ?P" unfolding sorted_wrt_map
    by (rule sorted_wrt_mono_rel[OF _ P(1)]) (use P(2) condensed.tr_less[of "cfg_env cfg" L n] in blast)
  moreover have "\<forall>k \<in> set ?P. length k = L" using P(2) surf_key_length[of "cfg_env cfg" L n] by simp
  ultimately have P': "sorted_wrt (<) ?P" "\<forall>k \<in> set ?P. length k = L" by auto
  fix merged s assume h: "canonical merged" "merged \<noteq> []" "fixed_len L merged" "length merged \<le> length (info_tombstones i)"
    "surf_inv (cfg_ops cfg) L False s" "\<forall>f \<in> set (out_files i). file_entry s (dst_level i) f = None"
  have "length merged < 2 ^ 31" "length merged * (length ?P + 1) < 2 ^ 31"
    using h(4) r(8) assms(5) mult_le_mono1[OF h(4), of "length P + 1"] by (auto simp: point_keys_ok_def)
  then show "\<exists>s'. bind_res (condense_keys (cfg_env cfg) P) (\<lambda>point_keys.
      bind_res (condense_ranges (cfg_env cfg) (info_boundaries i)) (\<lambda>boundaries.
      shiftRDFWithPointKeysToOutputLevel (cfg_build cfg) (cfg_env cfg) (cfg_ops cfg) merged point_keys (dst_level i)
        (out_files i) boundaries False s))
      = Inr s' \<and> spread (cfg_ops cfg) L ?P (cover merged) (dst_level i) (out_files i)
        (translate (surf_key (cfg_env cfg)) (info_boundaries i)) s s'"
    using shift_surf_split_ok[OF r(1,2) h(5,1,2,3) _ r(4,5,6,7) h(6) P'] r(3) P(3) by simp
qed

lemma compact_surf_direct_ok:
  assumes "surf_config cfg L" "surf_ok (cfg_ops cfg) L p" "flag_direct_move_to_dst_level i"
  shows "\<exists>p'. compact_surf cfg (Some i) p = Inr p' \<and> surf_ok (cfg_ops cfg) L p'"
    and "\<exists>p'. compact_surf_split P cfg (Some i) p = Inr p' \<and> surf_ok (cfg_ops cfg) L p'"
  using direct_move_ok[OF surf_for_update_ok(1)[OF assms(2)], of "cfg_build cfg" i] assms(3) surf_config_allow[OF assms(1)]
  by (auto simp: compact_surf_def compact_surf_split_def compact_surf_with_def surf_ok_def)

lemma remove_surf_ok:
  assumes "surf_ok ops L p"
  shows "\<exists>p'. remove_surf b info p = Inr p' \<and> surf_ok ops L p' \<and>
    (\<forall>l f. surf_dead ops L p' l f = (case info of None \<Rightarrow> surf_dead ops L p l f
       | Some i \<Rightarrow> if l = removal_level i \<and> f \<in> set (removal_fd_list i) then {} else surf_dead ops L p l f))"
proof (cases info)
  case (Some i)
  obtain s' where s': "fold_res (removeSuRFAtLevelOfFd b (removal_level i)) (removal_fd_list i) (surf_for_update p) = Inr s'"
    "surf_inv ops L False s'" "\<forall>l f. file_entry s' l f =
      (if l = removal_level i \<and> f \<in> set (removal_fd_list i) then None else file_entry (surf_for_update p) l f)"
    using removeSuRFs_ok[OF surf_for_update_ok(1)[OF assms]] by blast
  have "file_entry s' l f = (if l = removal_level i \<and> f \<in> set (removal_fd_list i) then None else surf_entry p l f)" for l f
    using s'(3) surf_for_update_ok(2)[OF assms, of l f] by presburger
  then have "file_dead ops L s' l f = (if l = removal_level i \<and> f \<in> set (removal_fd_list i) then {} else surf_dead ops L p l f)" for l f
    using file_dead_None[of s' l f ops L] surf_dead_entry[of p l f s' l f ops L] surf_dead_Some[of ops L s' l f] by presburger
  moreover have "remove_surf b info p = Inr (Some s')" using s'(1) Some by (simp add: remove_surf_def)
  ultimately show ?thesis using s'(2) Some by (simp add: surf_ok_def)
qed (use assms in \<open>simp add: remove_surf_def\<close>)

end
