(* ===== verification/RDF_Updates.thy ===== *)
theory RDF_Updates
  imports RDF_Agreement
begin

text \<open>
  Updates of the whole bundle. For every kind of job \<open>int_plans\<close> and \<open>str_plans\<close> list the calls
  the update makes on the six per-level filters; \<open>delta_ok\<close> is what the jobs guarantee when they
  fill an \<open>RDFUpdateMetadata\<close>. \<open>ApplyDelta\<close> refines the plans, and a history of updates keeps the
  invariant of all nine filters. All statements are about the build as configured in the
  repository, without \<open>CHECK_PLRDF_TRACING_CONSISTENCY\<close>.
\<close>

section \<open>Invariant, plans and guarantees\<close>

definition int_filters :: "'s rdf_bundle \<Rightarrow> int plrdf list" where
  "int_filters B = [bundle_plrdf B, bundle_split_plrdf B, bundle_top_level_rdf B]"

definition str_filters :: "'s rdf_bundle \<Rightarrow> string plrdf_t list" where
  "str_filters B = [bundle_plrdf_stringkey B, bundle_split_plrdf_stringkey B, bundle_top_level_rdf_stringkey B]"

definition bundle_inv :: "'s config \<Rightarrow> nat \<Rightarrow> 's rdf_bundle \<Rightarrow> bool" where
  "bundle_inv cfg L B \<longleftrightarrow> list_all plrdf_inv (int_filters B) \<and> list_all plrdf_inv (str_filters B) \<and>
     skyline_inv (bundle_skyline_rdf B) \<and> surf_ok (cfg_ops cfg) L (surf_level_file_rdf B) \<and>
     surf_ok (cfg_ops cfg) L (surf_level_file_split_rdf B)"

definition int_plans :: "rdf_update_metadata \<Rightarrow> int filter_op list list" where
  "int_plans delta =
     (case job delta of
        kFlush \<Rightarrow> [flush_ops (plrdf_flush_delta delta), flush_ops (split_plrdf_flush_delta delta),
                   flush_ops (top_level_plrdf_flush_delta delta)]
      | kCompactionDirectRemoved \<Rightarrow>
          [remove_ops (plrdf_compaction_delta delta), remove_ops (split_plrdf_compaction_delta delta), []]
      | _ \<Rightarrow> let rds = translate num (rangetombstones_on_output_level delta) in
          [compact_ops (plrdf_compaction_delta delta) rds,
           compact_ops (split_plrdf_compaction_delta delta) rds @
             split_ops (split_flag delta) (split_plrdf_compaction_delta delta) (split_sampled_keys delta),
           top_level_ops (split_flag delta) (split_sampled_keys delta) (top_level_plrdf_compaction_delta delta) rds])"

definition str_plans :: "rdf_update_metadata \<Rightarrow> string filter_op list list" where
  "str_plans delta =
     (case job delta of
        kFlush \<Rightarrow> [flush_ops (plrdf_stringkey_flush_delta delta), flush_ops (split_plrdf_stringkey_flush_delta delta),
                   flush_ops (top_level_plrdf_stringkey_flush_delta delta)]
      | kCompactionDirectRemoved \<Rightarrow>
          [remove_ops (plrdf_stringkey_compaction_delta delta),
           remove_ops (split_plrdf_stringkey_compaction_delta delta), []]
      | _ \<Rightarrow> let rds = rangetombstones_on_output_level delta in
          [compact_ops (plrdf_stringkey_compaction_delta delta) rds,
           compact_ops (split_plrdf_stringkey_compaction_delta delta) rds @
             split_ops (split_flag delta) (split_plrdf_stringkey_compaction_delta delta) (split_sampled_keys_str delta),
           top_level_ops (split_flag delta) (split_sampled_keys_str delta)
             (top_level_plrdf_stringkey_compaction_delta delta) rds])"

definition flush_ok :: "'k::linorder flush_delta \<Rightarrow> bool" where
  "flush_ok d \<longleftrightarrow> (case d of (f, rds, exist) \<Rightarrow> f = 0 \<or> nonempty_ranges rds \<and> sorted exist \<and> f \<notin> set exist)"

definition metas_ready :: "build \<Rightarrow> 'k::linorder file_meta list \<Rightarrow> ('k, 'm) plrdf_scheme \<Rightarrow> bool" where
  "metas_ready b metas s \<longleftrightarrow> metas_ok metas \<and>
     (metas \<noteq> [] \<longrightarrow> to_uint (fst (snd (hd metas))) \<le> length (rd_filter s) \<or> b = NDebug)"

definition skyline_ready :: "tombstone list \<Rightarrow> bool" where
  "skyline_ready rs \<longleftrightarrow> rs = [] \<or> seqs_ok rs \<and> (\<exists>r \<in> set rs. fst r < fst (snd r))"

text \<open>The keys of an update have \<open>n\<close> characters and are digits when a filter of numbers reads them.\<close>

definition tombstones_ready :: "nat \<Rightarrow> rdf_update_metadata \<Rightarrow> bool" where
  "tombstones_ready n delta \<longleftrightarrow>
     (case fd_rangetombstones_info delta of None \<Rightarrow> True
      | Some i \<Rightarrow> nonempty_ranges (info_tombstones i) \<and> boundaries_ok (info_boundaries i) \<and>
          (plrdf_compaction_delta delta = [] \<and> split_plrdf_compaction_delta delta = [] \<and>
             top_level_plrdf_compaction_delta delta = [] \<or>
           on_ends (digits n) (info_tombstones i) \<and> on_ends (digits n) (info_boundaries i)))"

definition flush_delta_ok :: "'s config \<Rightarrow> nat \<Rightarrow> nat \<Rightarrow> rdf_update_metadata \<Rightarrow> bool" where
  "flush_delta_ok cfg L n delta \<longleftrightarrow>
     flush_ok (plrdf_flush_delta delta) \<and> flush_ok (split_plrdf_flush_delta delta) \<and>
     flush_ok (top_level_plrdf_flush_delta delta) \<and> flush_ok (plrdf_stringkey_flush_delta delta) \<and>
     flush_ok (split_plrdf_stringkey_flush_delta delta) \<and> flush_ok (top_level_plrdf_stringkey_flush_delta delta) \<and>
     flush_info_ok (cfg_env cfg) L n (surf_flush_info delta) \<and>
     flush_info_ok (cfg_env cfg) L n (split_surf_flush_info delta) \<and> skyline_ready (skyline_delta delta)"

definition moving_ok :: "surf_env \<Rightarrow> nat \<Rightarrow> nat \<Rightarrow> 's surf_rdf option \<Rightarrow> moving_info option \<Rightarrow> bool" where
  "moving_ok env L n p info \<longleftrightarrow>
     (case info of None \<Rightarrow> True | Some i \<Rightarrow> flag_direct_move_to_dst_level i \<or> compact_info_ok env L n p i)"

definition compaction_delta_ok :: "'s config \<Rightarrow> nat \<Rightarrow> nat \<Rightarrow> rdf_update_metadata \<Rightarrow> 's rdf_bundle \<Rightarrow> bool" where
  "compaction_delta_ok cfg L n delta B \<longleftrightarrow> tombstones_ready n delta \<and>
     sorted (split_sampled_keys delta) \<and> sorted (split_sampled_keys_str delta) \<and>
     metas_ready (cfg_build cfg) (plrdf_compaction_delta delta) (bundle_plrdf B) \<and>
     metas_ready (cfg_build cfg) (split_plrdf_compaction_delta delta) (bundle_split_plrdf B) \<and>
     metas_ready (cfg_build cfg) (top_level_plrdf_compaction_delta delta) (bundle_top_level_rdf B) \<and>
     metas_ready (cfg_build cfg) (plrdf_stringkey_compaction_delta delta) (bundle_plrdf_stringkey B) \<and>
     metas_ready (cfg_build cfg) (split_plrdf_stringkey_compaction_delta delta) (bundle_split_plrdf_stringkey B) \<and>
     metas_ready (cfg_build cfg) (top_level_plrdf_stringkey_compaction_delta delta) (bundle_top_level_rdf_stringkey B) \<and>
     moving_ok (cfg_env cfg) L n (surf_level_file_rdf B) (surf_compaction_info delta) \<and>
     moving_ok (cfg_env cfg) L n (surf_level_file_split_rdf B) (split_surf_compaction_info delta) \<and>
     (\<forall>i. split_surf_compaction_info delta = Some i \<longrightarrow> flag_direct_move_to_dst_level i \<or>
        point_keys_ok (cfg_env cfg) L n (split_sampled_keys_str delta) i) \<and>
     skyline_ready (skyline_delta delta)"

definition level0_files :: "'k file_meta list \<Rightarrow> fd list" where
  "level0_files metas = concat (map (\<lambda>(level, out_level, rds, fds). if level = 0 then fds else []) metas)"

definition removals_ok :: "'k::linorder file_meta list \<Rightarrow> ('k, 'm) plrdf_scheme \<Rightarrow> bool" where
  "removals_ok metas s \<longleftrightarrow> list_all (\<lambda>(level, out_level, rds, fds). level = 0 \<or> nonempty_ranges rds) metas \<and>
     distinct (level0_files metas) \<and> list_all (\<lambda>f. rd_filter_level0 s f \<noteq> None) (level0_files metas)"

definition removal_delta_ok :: "rdf_update_metadata \<Rightarrow> 's rdf_bundle \<Rightarrow> bool" where
  "removal_delta_ok delta B \<longleftrightarrow>
     removals_ok (plrdf_compaction_delta delta) (bundle_plrdf B) \<and>
     removals_ok (split_plrdf_compaction_delta delta) (bundle_split_plrdf B) \<and>
     removals_ok (plrdf_stringkey_compaction_delta delta) (bundle_plrdf_stringkey B) \<and>
     removals_ok (split_plrdf_stringkey_compaction_delta delta) (bundle_split_plrdf_stringkey B)"

definition delta_ok :: "'s config \<Rightarrow> nat \<Rightarrow> nat \<Rightarrow> rdf_update_metadata \<Rightarrow> 's rdf_bundle \<Rightarrow> bool" where
  "delta_ok cfg L n delta B \<longleftrightarrow>
     (case job delta of kFlush \<Rightarrow> flush_delta_ok cfg L n delta
      | kCompactionDirectRemoved \<Rightarrow> removal_delta_ok delta B
      | _ \<Rightarrow> compaction_delta_ok cfg L n delta B)"

section \<open>One filter\<close>

lemma refined_trans: "refined xs s s1 \<Longrightarrow> refined ys s1 s2 \<Longrightarrow> refined (xs @ ys) s s2"
  by (simp add: refined_def)

lemma refined_same: "same_filter s s1 \<Longrightarrow> refined xs s1 s2 \<Longrightarrow> refined xs s s2"
  by (simp add: refined_def same_filter_abs)

lemma refined_inv: "refined xs s s' \<Longrightarrow> plrdf_inv s'"
  by (simp add: refined_def)

lemma flush_refined:
  assumes "plrdf_inv s" "flush_ok d"
  shows "\<exists>s'. flush_filter d s = Inr s' \<and> refined (flush_ops d) s s'"
  unfolding flush_filter_ops[of d s NDebug]
  by (rule run_ops_refined[OF assms(1)]) (use assms(2) in \<open>auto simp: flush_ok_def flush_ops_def\<close>)

lemma flush_ll_refined:
  assumes "plrdf_inv s" "flush_ok d"
  shows "\<exists>s'. flush_filter_ll False d s = Inr s' \<and> refined (flush_ops d) s s'"
  unfolding flush_filter_ll_ops[of d s NDebug]
  by (rule run_ops_refined[OF assms(1)]) (use assms(2) in \<open>auto simp: flush_ok_def flush_ops_def\<close>)

lemma compact_refined:
  assumes "plrdf_inv s" "metas_ready b metas s" "ordered_ranges rds"
  shows "\<exists>s'. compact_filter b metas rds s = Inr s' \<and> refined (compact_ops metas rds) s s'"
  unfolding compact_filter_ops
  by (rule run_ops_refined[OF assms(1)]) (use assms(2,3) in \<open>auto simp: metas_ready_def compact_ops_def\<close>)

lemma compact_ll_refined:
  assumes "plrdf_inv s" "metas_ready b metas s" "metas = [] \<or> on_ends (digits n) rds \<and> ordered_ranges rds"
  shows "\<exists>s'. compact_filter_ll b False metas rds s = Inr s' \<and> refined (compact_ops metas (translate num rds)) s s'"
proof (cases "metas = []")
  case True
  then show ?thesis using assms(1) by (simp add: compact_filter_ll_def compact_ops_def refined_def)
next
  case False
  then have o: "ordered_ranges (translate num rds)" "on_ends (digits n) rds"
    using assms(3) numbers.ordered_translate[of n rds] by auto
  have m: "metas_ok metas" using assms(2) by (simp add: metas_ready_def)
  show ?thesis unfolding compact_filter_ll_ops[OF assms(1) m o(2)]
    by (rule run_ops_refined[OF assms(1)]) (use assms(2) o in \<open>auto simp: metas_ready_def compact_ops_def\<close>)
qed

lemma split_refined:
  assumes "plrdf_inv s" "sorted keys"
  shows "\<exists>s'. split_after splitRangesOnLevel flag metas keys s = Inr s' \<and> refined (split_ops flag metas keys) s s'"
  unfolding split_after_ops[of flag metas keys s NDebug]
  by (rule run_ops_refined[OF assms(1)]) (use assms(2) in \<open>auto simp: split_ops_def\<close>)

lemma top_level_refined:
  assumes "plrdf_inv s" "metas_ready b metas s" "ordered_ranges rds" "sorted keys"
  shows "\<exists>s'. compact_top_level b flag keys metas rds s = Inr s' \<and> refined (top_level_ops flag keys metas rds) s s'"
  unfolding compact_top_level_ops
  by (rule run_ops_refined[OF assms(1)]) (use assms(2-4) in \<open>auto simp: metas_ready_def top_level_ops_def\<close>)

lemma top_level_ll_refined:
  assumes "plrdf_inv s" "metas_ready b metas s" "metas = [] \<or> on_ends (digits n) rds \<and> ordered_ranges rds" "sorted keys"
  shows "\<exists>s'. compact_top_level_ll b flag keys metas rds s = Inr s' \<and>
    refined (top_level_ops flag keys metas (translate num rds)) s s'"
proof (cases "metas = []")
  case True
  then show ?thesis using assms(1) by (simp add: compact_top_level_ll_def top_level_ops_def refined_def)
next
  case False
  then have o: "ordered_ranges (translate num rds)" "on_ends (digits n) rds"
    using assms(3) numbers.ordered_translate[of n rds] by auto
  have m: "metas_ok metas" using assms(2) by (simp add: metas_ready_def)
  show ?thesis unfolding compact_top_level_ll_ops[OF assms(1) m o(2)]
    by (rule run_ops_refined[OF assms(1)]) (use assms(2,4) o in \<open>auto simp: metas_ready_def top_level_ops_def\<close>)
qed

lemma delete_level0_others:
  "fold_res (delete_level0_file b) fs s = Inr s' \<Longrightarrow> f \<notin> set fs \<Longrightarrow> rd_filter_level0 s' f = rd_filter_level0 s f"
proof (induction fs arbitrary: s)
  case (Cons g fs)
  then show ?case by (auto simp: delete_level0_file_def cxx_assert_def split: if_splits)
qed simp

lemma Remove_others:
  assumes "run_op b False (Remove (l, rs, fs)) s = Inr s'" "l = 0 \<longrightarrow> f \<notin> set fs"
  shows "rd_filter_level0 s' f = rd_filter_level0 s f"
proof (cases "l = 0")
  case False
  then show ?thesis using assms(1)
    by (cases "delete_loop b (rd_filter s ! to_uint l) (sortAndMerge rs)")
       (auto simp: deleteRDFAssociatedWithFilesAtCurrentLevel_def split: if_splits)
qed (use assms delete_level0_others in \<open>auto simp: deleteRDFAssociatedWithFilesAtCurrentLevel_def\<close>)

lemma level0_files_Cons [simp]:
  "level0_files ((l, out, rs, fs) # metas) = (if l = 0 then fs else []) @ level0_files metas"
  by (simp add: level0_files_def)

lemma removals_ops_ok: "removals_ok metas s \<Longrightarrow> ops_ok b (remove_ops metas) s"
proof (induction metas arbitrary: s)
  case (Cons m metas)
  obtain l out rs fs where m: "m = (l, out, rs, fs)" by (cases m)
  have prem: "l = 0 \<or> nonempty_ranges rs" "distinct ((if l = 0 then fs else []) @ level0_files metas)"
    "\<forall>f \<in> set (if l = 0 then fs else []) \<union> set (level0_files metas). rd_filter_level0 s f \<noteq> None"
    "list_all (\<lambda>(level, out_level, rds, fds). level = 0 \<or> nonempty_ranges rds) metas"
    using Cons.prems unfolding m removals_ok_def by (simp_all add: list_all_iff ball_Un)
  have "removals_ok metas s'" if "run_op b False (Remove (l, rs, fs)) s = Inr s'" for s'
  proof -
    have "rd_filter_level0 s' f = rd_filter_level0 s f" if "f \<in> set (level0_files metas)" for f
      using Remove_others[OF \<open>run_op b False (Remove (l, rs, fs)) s = Inr s'\<close>, of f] that prem(2) by auto
    then show ?thesis using prem(2-4) by (simp add: removals_ok_def list_all_iff)
  qed
  moreover have "op_ok b (Remove (l, rs, fs)) s" using prem by auto
  ultimately show ?case using Cons.IH unfolding m by (simp add: remove_ops_def)
qed (simp add: remove_ops_def)

lemma remove_refined:
  assumes "plrdf_inv s" "removals_ok metas s"
  shows "\<exists>s'. remove_filter b metas s = Inr s' \<and> refined (remove_ops metas) s s'"
  unfolding remove_filter_ops by (rule run_ops_refined[OF assms(1) removals_ops_ok[OF assms(2)]])

lemma traced_remove_refined:
  assumes "plrdf_inv s" "removals_ok metas s"
  shows "\<exists>s'. remove_filter b metas (remove_tracing rems s) = Inr s' \<and> refined (remove_ops metas) s s'"
proof -
  have same: "same_filter s (remove_tracing rems s)" by (rule same_filter_tracing)
  have "plrdf_inv (remove_tracing rems s)" "removals_ok metas (remove_tracing rems s)"
    using assms same same_filter_inv[OF same] by (auto simp: removals_ok_def same_filter_def)
  then show ?thesis using remove_refined refined_same[OF same] by blast
qed

lemma traced_flush_refined:
  assumes "plrdf_inv s" "flush_ok d"
  shows "\<exists>s'. flush_filter d (add_tracing adds s) = Inr s' \<and> refined (flush_ops d) s s'"
proof -
  have same: "same_filter s (add_tracing adds s)" by (rule same_filter_tracing)
  then have "plrdf_inv (add_tracing adds s)" using assms(1) same_filter_inv[OF same] by blast
  then show ?thesis using flush_refined[OF _ assms(2)] refined_same[OF same] by blast
qed

lemma flush_filter_ll_eq: "flush_filter_ll False = flush_filter"
  by (intro ext) (simp add: flush_filter_ll_ops[of _ _ NDebug] flush_filter_ops[of _ _ NDebug])

lemma compact_split_refined:
  assumes "plrdf_inv s" "metas_ready b metas s" "ordered_ranges rds" "sorted keys"
  shows "\<exists>s1 s2. compact_filter b metas rds s = Inr s1 \<and> split_after splitRangesOnLevel flag metas keys s1 = Inr s2 \<and>
    refined (compact_ops metas rds @ split_ops flag metas keys) s s2"
  using compact_refined[OF assms(1-3)] split_refined[OF refined_inv assms(4)] refined_trans by blast

lemma compact_split_ll_refined:
  assumes "plrdf_inv s" "metas_ready b metas s" "metas = [] \<or> on_ends (digits n) rds \<and> ordered_ranges rds" "sorted keys"
  shows "\<exists>s1 s2. compact_filter_ll b False metas rds s = Inr s1 \<and>
    split_after splitRangesOnLevel_ll flag metas keys s1 = Inr s2 \<and>
    refined (compact_ops metas (translate num rds) @ split_ops flag metas keys) s s2"
  unfolding splitRangesOnLevel_ll_def
  using compact_ll_refined[OF assms(1-3)] split_refined[OF refined_inv assms(4)] refined_trans by blast

lemma update_skyline_ok:
  assumes "skyline_inv s" "skyline_ready rs"
  shows "\<exists>s'. update_skyline rs s = Inr s' \<and> skyline_inv s' \<and>
    (\<forall>k. max_seq (rd_list s') k = max (max_seq (rd_list s) k) (max_seq rs k))"
proof (cases "rs = []")
  case True
  have "max (max_seq (rd_list s) k) 0 = max_seq (rd_list s) k" for k using max_seq_nonneg by (simp add: max.absorb1)
  then show ?thesis using True assms(1) by (simp add: update_skyline_def)
qed (use addRangeTombstones_ok[OF assms(1)] assms(2) in \<open>auto simp: update_skyline_def skyline_ready_def\<close>)

lemma on_output_ok:
  assumes "tombstones_ready n delta"
  defines "rds \<equiv> rangetombstones_on_output_level delta"
  shows "ordered_ranges rds"
    and "metas = plrdf_compaction_delta delta \<or> metas = split_plrdf_compaction_delta delta \<or>
         metas = top_level_plrdf_compaction_delta delta \<Longrightarrow>
         metas = [] \<or> on_ends (digits n) rds \<and> ordered_ranges rds"
proof -
  have "ordered_ranges rds \<and> (plrdf_compaction_delta delta = [] \<and> split_plrdf_compaction_delta delta = [] \<and>
      top_level_plrdf_compaction_delta delta = [] \<or> on_ends (digits n) rds)"
  proof (cases "fd_rangetombstones_info delta")
    case None
    then show ?thesis by (simp add: rds_def rangetombstones_on_output_level_def ordered_ranges_def)
  next
    case (Some i)
    then have i: "nonempty_ranges (info_tombstones i)" "boundaries_ok (info_boundaries i)"
      using assms(1) by (auto simp: tombstones_ready_def)
    have r: "rds = getOutputLevelRangeTombstonesFilteredByFileRanges (merge_tombstones (info_tombstones i)) (info_boundaries i)"
      using Some by (simp add: rds_def rangetombstones_on_output_level_def)
    show ?thesis using filtered_tombstones_ok(1)[OF i] filtered_tombstones_ok(3)[OF i, of "digits n"] assms(1) Some
      unfolding r tombstones_ready_def by auto
  qed
  then show "ordered_ranges rds"
    and "metas = plrdf_compaction_delta delta \<or> metas = split_plrdf_compaction_delta delta \<or>
         metas = top_level_plrdf_compaction_delta delta \<Longrightarrow>
         metas = [] \<or> on_ends (digits n) rds \<and> ordered_ranges rds" by auto
qed

section \<open>The handlers\<close>

text \<open>What an update does to the SuRF filters and to the skyline. For a direct move the files go from
  level to level one by one; the update then promises the invariant only.\<close>

definition surf_compacted ::
  "'s config \<Rightarrow> nat \<Rightarrow> string list \<Rightarrow> moving_info option \<Rightarrow> 's surf_rdf option \<Rightarrow> 's surf_rdf option \<Rightarrow> bool" where
  "surf_compacted cfg L P info p p' \<longleftrightarrow>
     (case info of None \<Rightarrow> surf_dead (cfg_ops cfg) L p' = surf_dead (cfg_ops cfg) L p
      | Some i \<Rightarrow> flag_direct_move_to_dst_level i \<or> moved_surf (cfg_env cfg) (cfg_ops cfg) L P i p p')"

definition surf_removed ::
  "'s config \<Rightarrow> nat \<Rightarrow> removal_info option \<Rightarrow> 's surf_rdf option \<Rightarrow> 's surf_rdf option \<Rightarrow> bool" where
  "surf_removed cfg L info p p' \<longleftrightarrow>
     (\<forall>l f. surf_dead (cfg_ops cfg) L p' l f = (case info of None \<Rightarrow> surf_dead (cfg_ops cfg) L p l f
        | Some i \<Rightarrow> if l = removal_level i \<and> f \<in> set (removal_fd_list i) then {} else surf_dead (cfg_ops cfg) L p l f))"

definition surf_updated :: "'s config \<Rightarrow> nat \<Rightarrow> rdf_update_metadata \<Rightarrow> 's rdf_bundle \<Rightarrow> 's rdf_bundle \<Rightarrow> bool" where
  "surf_updated cfg L delta B B' \<longleftrightarrow>
     (let p = surf_level_file_rdf B; p' = surf_level_file_rdf B';
          sp = surf_level_file_split_rdf B; sp' = surf_level_file_split_rdf B'
      in case job delta of
           kFlush \<Rightarrow> surf_dead (cfg_ops cfg) L p' = flushed_surf (cfg_env cfg) (cfg_ops cfg) L (surf_flush_info delta) p \<and>
                     surf_dead (cfg_ops cfg) L sp' = flushed_surf (cfg_env cfg) (cfg_ops cfg) L (split_surf_flush_info delta) sp
         | kCompactionDirectRemoved \<Rightarrow> surf_removed cfg L (surf_direct_removal_info delta) p p' \<and>
                     surf_removed cfg L (split_surf_direct_removal_info delta) sp sp'
         | _ \<Rightarrow> surf_compacted cfg L [] (surf_compaction_info delta) p p' \<and>
                surf_compacted cfg L (split_sampled_keys_str delta) (split_surf_compaction_info delta) sp sp')"

definition skyline_updated :: "rdf_update_metadata \<Rightarrow> skyline \<Rightarrow> skyline \<Rightarrow> bool" where
  "skyline_updated delta s s' \<longleftrightarrow>
     (\<forall>k. max_seq (rd_list s') k = (if job delta = kCompactionDirectRemoved then max_seq (rd_list s) k
        else max (max_seq (rd_list s) k) (max_seq (skyline_delta delta) k)))"

definition bundle_updated :: "'s config \<Rightarrow> nat \<Rightarrow> rdf_update_metadata \<Rightarrow> 's rdf_bundle \<Rightarrow> 's rdf_bundle \<Rightarrow> bool" where
  "bundle_updated cfg L delta B B' \<longleftrightarrow>
     map abs_filter (int_filters B') = map2 (fold spec_op) (int_plans delta) (map abs_filter (int_filters B)) \<and>
     map abs_filter (str_filters B') = map2 (fold spec_op) (str_plans delta) (map abs_filter (str_filters B)) \<and>
     skyline_updated delta (bundle_skyline_rdf B) (bundle_skyline_rdf B') \<and> surf_updated cfg L delta B B'"

lemmas bundle_spec = bundle_inv_def bundle_updated_def int_filters_def str_filters_def int_plans_def str_plans_def
  skyline_updated_def surf_updated_def

lemma ApplyFlushDelta_ok:
  assumes cfg: "surf_config cfg L" "\<not> cfg_check_tracing cfg" and B: "bundle_inv cfg L B"
    and delta: "flush_delta_ok cfg L n delta" "job delta = kFlush"
  shows "\<exists>B'. ApplyFlushDelta cfg delta B = Inr B' \<and> bundle_inv cfg L B' \<and> bundle_updated cfg L delta B B'"
proof -
  note inv = B[unfolded bundle_inv_def int_filters_def str_filters_def, simplified]
  note ok = delta(1)[unfolded flush_delta_ok_def]
  obtain p where p: "flush_filter (plrdf_flush_delta delta) (add_tracing (plrdf_tracing_add delta) (bundle_plrdf B)) = Inr p"
    "refined (flush_ops (plrdf_flush_delta delta)) (bundle_plrdf B) p"
    using traced_flush_refined inv ok by blast
  obtain ps where ps: "flush_filter (plrdf_stringkey_flush_delta delta)
      (add_tracing (plrdf_stringkey_tracing_add delta) (bundle_plrdf_stringkey B)) = Inr ps"
    "refined (flush_ops (plrdf_stringkey_flush_delta delta)) (bundle_plrdf_stringkey B) ps"
    using traced_flush_refined inv ok by blast
  obtain sp where sp: "flush_filter (split_plrdf_flush_delta delta)
      (add_tracing (split_plrdf_tracing_add delta) (bundle_split_plrdf B)) = Inr sp"
    "refined (flush_ops (split_plrdf_flush_delta delta)) (bundle_split_plrdf B) sp"
    using traced_flush_refined inv ok by blast
  obtain sps where sps: "flush_filter (split_plrdf_stringkey_flush_delta delta)
      (add_tracing (split_plrdf_stringkey_tracing_add delta) (bundle_split_plrdf_stringkey B)) = Inr sps"
    "refined (flush_ops (split_plrdf_stringkey_flush_delta delta)) (bundle_split_plrdf_stringkey B) sps"
    using traced_flush_refined inv ok by blast
  obtain t where t: "flush_filter (top_level_plrdf_flush_delta delta) (bundle_top_level_rdf B) = Inr t"
    "refined (flush_ops (top_level_plrdf_flush_delta delta)) (bundle_top_level_rdf B) t"
    using flush_refined inv ok by blast
  obtain ts where ts: "flush_filter (top_level_plrdf_stringkey_flush_delta delta) (bundle_top_level_rdf_stringkey B) = Inr ts"
    "refined (flush_ops (top_level_plrdf_stringkey_flush_delta delta)) (bundle_top_level_rdf_stringkey B) ts"
    using flush_refined inv ok by blast
  obtain f where f: "flush_surf cfg (surf_flush_info delta) (surf_level_file_rdf B) = Inr f" "surf_ok (cfg_ops cfg) L f"
    "surf_dead (cfg_ops cfg) L f = flushed_surf (cfg_env cfg) (cfg_ops cfg) L (surf_flush_info delta) (surf_level_file_rdf B)"
    using flush_surf_ok[OF cfg(1)] inv ok by blast
  obtain sf where sf: "flush_surf cfg (split_surf_flush_info delta) (surf_level_file_split_rdf B) = Inr sf" "surf_ok (cfg_ops cfg) L sf"
    "surf_dead (cfg_ops cfg) L sf = flushed_surf (cfg_env cfg) (cfg_ops cfg) L (split_surf_flush_info delta) (surf_level_file_split_rdf B)"
    using flush_surf_ok[OF cfg(1)] inv ok by blast
  obtain sky where sky: "update_skyline (skyline_delta delta) (bundle_skyline_rdf B) = Inr sky" "skyline_inv sky"
    "\<forall>k. max_seq (rd_list sky) k = max (max_seq (rd_list (bundle_skyline_rdf B)) k) (max_seq (skyline_delta delta) k)"
    using update_skyline_ok inv ok by blast
  note r = p(2) ps(2) sp(2) sps(2) t(2) ts(2)
  show ?thesis
    using cfg(2) p(1) ps(1) sp(1) sps(1) t(1) ts(1) f sf sky r[unfolded refined_def] delta(2)
    by (simp add: ApplyFlushDelta_def flush_filter_ll_eq bundle_spec)
qed

lemma compact_surf_info_ok:
  assumes "surf_config cfg L" "surf_ok (cfg_ops cfg) L p" "moving_ok (cfg_env cfg) L n p info"
  shows "\<exists>p'. compact_surf cfg info p = Inr p' \<and> surf_ok (cfg_ops cfg) L p' \<and> surf_compacted cfg L [] info p p'"
proof (cases info)
  case None
  then show ?thesis using assms(2) by (simp add: surf_compacted_def compact_surf_def compact_surf_with_def)
next
  case (Some i)
  then show ?thesis
    using compact_surf_ok[OF assms(1,2), of n i] compact_surf_direct_ok(1)[OF assms(1,2), of i] assms(3)
    by (cases "flag_direct_move_to_dst_level i") (auto simp: surf_compacted_def moving_ok_def)
qed

lemma compact_surf_split_info_ok:
  assumes "surf_config cfg L" "surf_ok (cfg_ops cfg) L p" "moving_ok (cfg_env cfg) L n p info"
    and "\<forall>i. info = Some i \<longrightarrow> flag_direct_move_to_dst_level i \<or> point_keys_ok (cfg_env cfg) L n P i"
  shows "\<exists>p'. compact_surf_split P cfg info p = Inr p' \<and> surf_ok (cfg_ops cfg) L p' \<and> surf_compacted cfg L P info p p'"
proof (cases info)
  case None
  then show ?thesis using assms(2) by (simp add: surf_compacted_def compact_surf_split_def compact_surf_with_def)
next
  case (Some i)
  then show ?thesis
    using compact_surf_split_ok[OF assms(1,2), of n i P] compact_surf_direct_ok(2)[OF assms(1,2), of i P] assms(3,4)
    by (cases "flag_direct_move_to_dst_level i") (auto simp: surf_compacted_def moving_ok_def)
qed

lemma trace_compaction_all_off: "\<not> cfg_check_tracing cfg \<Longrightarrow> trace_compaction_all cfg delta B = Inr B"
  by (simp add: trace_compaction_all_def split: option.split)

lemma ApplyCompactionDelta_ok:
  assumes cfg: "surf_config cfg L" "\<not> cfg_check_tracing cfg" and B: "bundle_inv cfg L B"
    and delta: "compaction_delta_ok cfg L n delta B" "job delta = kCompaction \<or> job delta = kCompactionDirectMoved"
  shows "\<exists>B'. ApplyCompactionDelta cfg delta B = Inr B' \<and> bundle_inv cfg L B' \<and> bundle_updated cfg L delta B B'"
proof -
  note inv = B[unfolded bundle_inv_def int_filters_def str_filters_def, simplified]
  note ok = delta(1)[unfolded compaction_delta_ok_def]
  note out = on_output_ok[OF ok[THEN conjunct1]]
  let ?b = "cfg_build cfg" and ?rds = "rangetombstones_on_output_level delta" and ?flag = "split_flag delta"
  obtain p where p: "compact_filter_ll ?b False (plrdf_compaction_delta delta) ?rds (bundle_plrdf B) = Inr p"
    "refined (compact_ops (plrdf_compaction_delta delta) (translate num ?rds)) (bundle_plrdf B) p"
    using compact_ll_refined[OF _ _ out(2)] inv ok by blast
  obtain ps where ps: "compact_filter ?b (plrdf_stringkey_compaction_delta delta) ?rds (bundle_plrdf_stringkey B) = Inr ps"
    "refined (compact_ops (plrdf_stringkey_compaction_delta delta) ?rds) (bundle_plrdf_stringkey B) ps"
    using compact_refined[OF _ _ out(1)] inv ok by blast
  obtain sp1 sp where sp: "compact_filter_ll ?b False (split_plrdf_compaction_delta delta) ?rds (bundle_split_plrdf B) = Inr sp1"
    "split_after splitRangesOnLevel_ll ?flag (split_plrdf_compaction_delta delta) (split_sampled_keys delta) sp1 = Inr sp"
    "refined (compact_ops (split_plrdf_compaction_delta delta) (translate num ?rds) @
       split_ops ?flag (split_plrdf_compaction_delta delta) (split_sampled_keys delta)) (bundle_split_plrdf B) sp"
    using compact_split_ll_refined[OF _ _ out(2)] inv ok by blast
  obtain sps1 sps where sps:
    "compact_filter ?b (split_plrdf_stringkey_compaction_delta delta) ?rds (bundle_split_plrdf_stringkey B) = Inr sps1"
    "split_after splitRangesOnLevel ?flag (split_plrdf_stringkey_compaction_delta delta) (split_sampled_keys_str delta) sps1 = Inr sps"
    "refined (compact_ops (split_plrdf_stringkey_compaction_delta delta) ?rds @
       split_ops ?flag (split_plrdf_stringkey_compaction_delta delta) (split_sampled_keys_str delta)) (bundle_split_plrdf_stringkey B) sps"
    using compact_split_refined[OF _ _ out(1)] inv ok by blast
  obtain t where t: "compact_top_level_ll ?b ?flag (split_sampled_keys delta) (top_level_plrdf_compaction_delta delta) ?rds
      (bundle_top_level_rdf B) = Inr t" "refined (top_level_ops ?flag (split_sampled_keys delta)
      (top_level_plrdf_compaction_delta delta) (translate num ?rds)) (bundle_top_level_rdf B) t"
    using top_level_ll_refined[OF _ _ out(2)] inv ok by blast
  obtain ts where ts: "compact_top_level ?b ?flag (split_sampled_keys_str delta) (top_level_plrdf_stringkey_compaction_delta delta) ?rds
      (bundle_top_level_rdf_stringkey B) = Inr ts" "refined (top_level_ops ?flag (split_sampled_keys_str delta)
      (top_level_plrdf_stringkey_compaction_delta delta) ?rds) (bundle_top_level_rdf_stringkey B) ts"
    using top_level_refined[OF _ _ out(1)] inv ok by blast
  obtain f where f: "compact_surf cfg (surf_compaction_info delta) (surf_level_file_rdf B) = Inr f" "surf_ok (cfg_ops cfg) L f"
    "surf_compacted cfg L [] (surf_compaction_info delta) (surf_level_file_rdf B) f"
    using compact_surf_info_ok[OF cfg(1)] inv ok by blast
  obtain sf where sf: "compact_surf_split (split_sampled_keys_str delta) cfg (split_surf_compaction_info delta)
      (surf_level_file_split_rdf B) = Inr sf" "surf_ok (cfg_ops cfg) L sf"
    "surf_compacted cfg L (split_sampled_keys_str delta) (split_surf_compaction_info delta) (surf_level_file_split_rdf B) sf"
    using compact_surf_split_info_ok[OF cfg(1)] inv ok by blast
  obtain sky where sky: "update_skyline (skyline_delta delta) (bundle_skyline_rdf B) = Inr sky" "skyline_inv sky"
    "\<forall>k. max_seq (rd_list sky) k = max (max_seq (rd_list (bundle_skyline_rdf B)) k) (max_seq (skyline_delta delta) k)"
    using update_skyline_ok inv ok by blast
  note r = p(2) ps(2) sp(3) sps(3) t(2) ts(2)
  show ?thesis
    using cfg(2) p(1) ps(1) sp(1,2) sps(1,2) t(1) ts(1) f sf sky r[unfolded refined_def] delta(2)
    by (auto simp: ApplyCompactionDelta_def trace_compaction_all_off bundle_spec Let_def)
qed

lemma ApplyDirectRemovalDelta_ok:
  assumes cfg: "\<not> cfg_check_tracing cfg" and B: "bundle_inv cfg L B"
    and delta: "removal_delta_ok delta B" "job delta = kCompactionDirectRemoved"
  shows "\<exists>B'. ApplyDirectRemovalDelta cfg delta B = Inr B' \<and> bundle_inv cfg L B' \<and> bundle_updated cfg L delta B B'"
proof -
  note inv = B[unfolded bundle_inv_def int_filters_def str_filters_def, simplified]
  note ok = delta(1)[unfolded removal_delta_ok_def]
  let ?b = "cfg_build cfg"
  obtain p where p: "remove_filter ?b (plrdf_compaction_delta delta)
      (remove_tracing (plrdf_tracing_remove delta) (bundle_plrdf B)) = Inr p"
    "refined (remove_ops (plrdf_compaction_delta delta)) (bundle_plrdf B) p"
    using traced_remove_refined inv ok by blast
  obtain ps where ps: "remove_filter ?b (plrdf_stringkey_compaction_delta delta)
      (remove_tracing (plrdf_stringkey_tracing_remove delta) (bundle_plrdf_stringkey B)) = Inr ps"
    "refined (remove_ops (plrdf_stringkey_compaction_delta delta)) (bundle_plrdf_stringkey B) ps"
    using traced_remove_refined inv ok by blast
  obtain sp where sp: "remove_filter ?b (split_plrdf_compaction_delta delta)
      (remove_tracing (split_plrdf_tracing_remove delta) (bundle_split_plrdf B)) = Inr sp"
    "refined (remove_ops (split_plrdf_compaction_delta delta)) (bundle_split_plrdf B) sp"
    using traced_remove_refined inv ok by blast
  obtain sps where sps: "remove_filter ?b (split_plrdf_stringkey_compaction_delta delta)
      (remove_tracing (split_plrdf_stringkey_tracing_remove delta) (bundle_split_plrdf_stringkey B)) = Inr sps"
    "refined (remove_ops (split_plrdf_stringkey_compaction_delta delta)) (bundle_split_plrdf_stringkey B) sps"
    using traced_remove_refined inv ok by blast
  obtain f where f: "remove_surf ?b (surf_direct_removal_info delta) (surf_level_file_rdf B) = Inr f" "surf_ok (cfg_ops cfg) L f"
    "surf_removed cfg L (surf_direct_removal_info delta) (surf_level_file_rdf B) f"
    using remove_surf_ok inv unfolding surf_removed_def by blast
  obtain sf where sf: "remove_surf ?b (split_surf_direct_removal_info delta) (surf_level_file_split_rdf B) = Inr sf"
    "surf_ok (cfg_ops cfg) L sf" "surf_removed cfg L (split_surf_direct_removal_info delta) (surf_level_file_split_rdf B) sf"
    using remove_surf_ok inv unfolding surf_removed_def by blast
  note r = p(2) ps(2) sp(2) sps(2)
  show ?thesis
    using cfg p(1) ps(1) sp(1) sps(1) f sf r[unfolded refined_def] delta(2) inv
    by (simp add: ApplyDirectRemovalDelta_def remove_filter_ll_eq bundle_spec)
qed

subsection \<open>Logs\<close>

lemma total_levels_le: "surf_mode s = PER_FILE \<Longrightarrow> getNumberOfTotalLevels_surf s \<le> length (level_file_surf_rdf s)"
proof -
  have "fold (\<lambda>(i, l) num. if l \<noteq> [] then Suc i else num) (enumerate n xs) m \<le> max m (n + length xs)"
    for xs :: "'b list list" and n m :: nat
  proof (induction xs arbitrary: n m)
    case (Cons x xs)
    show ?case using Cons.IH[of "Suc n" "if x \<noteq> [] then Suc n else m"] by (auto simp: max_def split: if_splits)
  qed simp
  from this[of 0 "level_file_surf_rdf s" 0] show "surf_mode s = PER_FILE \<Longrightarrow> ?thesis"
    by (simp add: getNumberOfTotalLevels_surf_def)
qed

lemma sum_levels_returns:
  assumes "\<And>i. i < n \<Longrightarrow> \<exists>x. g i = Inr x"
  shows "\<exists>y. fold_res (\<lambda>i num. bind_res (g i) (\<lambda>x. Inr (h num x))) [0..<n] y0 = Inr y"
proof -
  have "\<exists>y. fold_res (\<lambda>i num. bind_res (g i) (\<lambda>x. Inr (h num x))) [0..<n] y0 = Inr y \<and> True"
  proof (rule fold_res_invariant)
    fix ys x zs s assume "[0..<n] = ys @ x # zs"
    then have "x \<in> set [0..<n]" by simp
    then show "\<exists>s'. bind_res (g x) (\<lambda>x. Inr (h s x)) = Inr s' \<and> True" using assms[of x] by auto
  qed simp
  then show ?thesis by simp
qed

lemma log_surf_returns:
  assumes "surf_ok ops L p" "\<And>s. p = Some s \<Longrightarrow> \<exists>s'. log s = Inr s' \<and> surf_mode s' = surf_mode s \<and> file_entry s' = file_entry s"
  shows "\<exists>p'. log_surf log p = Inr p' \<and> surf_ok ops L p' \<and> surf_dead ops L p' = surf_dead ops L p"
proof (cases p)
  case (Some s)
  then obtain s' where s': "log s = Inr s'" "surf_mode s' = surf_mode s" "file_entry s' = file_entry s"
    using assms(2) by blast
  have "surf_ok ops L (Some s')" using assms(1) Some s'(2,3) by (simp add: surf_ok_def surf_inv_def)
  moreover have "file_dead ops L s' = file_dead ops L s" using s'(3) by (intro ext) (simp add: file_dead_def)
  ultimately show ?thesis using Some s'(1) by (simp add: log_surf_def fun_eq_iff)
qed (use assms(1) in \<open>simp add: log_surf_def\<close>)

lemma log_surf_ok:
  assumes "surf_ok ops L p"
  shows "\<exists>p'. log_surf (logCurrentTotalNumbersOfRanges_surf NDebug) p = Inr p' \<and> surf_ok ops L p' \<and>
           surf_dead ops L p' = surf_dead ops L p"
    and "\<exists>p'. log_surf (logCurrentTotalMemoryUsage_surf NDebug ops) p = Inr p' \<and> surf_ok ops L p' \<and>
           surf_dead ops L p' = surf_dead ops L p"
proof -
  have entry: "file_entry (s\<lparr>surf_numbers_log := a\<rparr>) = file_entry s" "file_entry (s\<lparr>surf_memory_log := a\<rparr>) = file_entry s"
    for s :: "'a surf_rdf" and a by (intro ext, simp add: file_entry_def)+
  have lt: "\<not> length (level_file_surf_rdf s) \<le> i" "surf_mode s = PER_FILE"
    if "p = Some s" "i < getNumberOfTotalLevels_surf s" for s i
    using assms that total_levels_le[of s] by (auto simp: surf_ok_def surf_inv_def)
  have num: "\<exists>n. getNumberOfTotalRanges_surf NDebug s = Inr n" if "p = Some s" for s
    unfolding getNumberOfTotalRanges_surf_def
    by (rule sum_levels_returns) (simp add: getNumberOfRangesAtIthLevel_def lt[OF that])
  show "\<exists>p'. log_surf (logCurrentTotalNumbersOfRanges_surf NDebug) p = Inr p' \<and> surf_ok ops L p' \<and>
      surf_dead ops L p' = surf_dead ops L p"
  proof (rule log_surf_returns[OF assms])
    fix s assume "p = Some s"
    then obtain n where "getNumberOfTotalRanges_surf NDebug s = Inr n" using num by blast
    then show "\<exists>s'. logCurrentTotalNumbersOfRanges_surf NDebug s = Inr s' \<and> surf_mode s' = surf_mode s \<and>
        file_entry s' = file_entry s" by (simp add: logCurrentTotalNumbersOfRanges_surf_def entry)
  qed
  have mem: "\<exists>n. fold_res (\<lambda>i num. bind_res (getMemoryUsageAtIthLevel NDebug ops i s) (\<lambda>n. Inr (u64 (num + n))))
      [0..<getNumberOfTotalLevels_surf s] 0 = Inr n" if "p = Some s" for s
    by (rule sum_levels_returns) (simp add: getMemoryUsageAtIthLevel_def lt[OF that])
  show "\<exists>p'. log_surf (logCurrentTotalMemoryUsage_surf NDebug ops) p = Inr p' \<and> surf_ok ops L p' \<and>
      surf_dead ops L p' = surf_dead ops L p"
  proof (rule log_surf_returns[OF assms])
    fix s assume "p = Some s"
    then obtain n where "fold_res (\<lambda>i num. bind_res (getMemoryUsageAtIthLevel NDebug ops i s) (\<lambda>n. Inr (u64 (num + n))))
      [0..<getNumberOfTotalLevels_surf s] 0 = Inr n" using mem by blast
    then show "\<exists>s'. logCurrentTotalMemoryUsage_surf NDebug ops s = Inr s' \<and> surf_mode s' = surf_mode s \<and>
        file_entry s' = file_entry s"
      by (simp add: logCurrentTotalMemoryUsage_surf_def getNumberOfTotalMemoryUsage_surf_def entry)
  qed
qed

text \<open>Bundles that answer alike: only the logs and counters may differ.\<close>

definition same_answers :: "'s config \<Rightarrow> nat \<Rightarrow> 's rdf_bundle \<Rightarrow> 's rdf_bundle \<Rightarrow> bool" where
  "same_answers cfg L B B' \<longleftrightarrow> list_all2 same_filter (int_filters B) (int_filters B') \<and>
     list_all2 same_filter (str_filters B) (str_filters B') \<and>
     rd_list (bundle_skyline_rdf B') = rd_list (bundle_skyline_rdf B) \<and>
     surf_dead (cfg_ops cfg) L (surf_level_file_rdf B') = surf_dead (cfg_ops cfg) L (surf_level_file_rdf B) \<and>
     surf_dead (cfg_ops cfg) L (surf_level_file_split_rdf B') = surf_dead (cfg_ops cfg) L (surf_level_file_split_rdf B)"

lemma logs_ok:
  assumes "cfg_build cfg = NDebug" "bundle_inv cfg L B"
  shows "\<exists>B'. bind_res (logCurrentTotalNumbersOfRangesInEachRDF cfg B) (logCurrentTotalMemoryUsageInEachRDF cfg) = Inr B' \<and>
    bundle_inv cfg L B' \<and> same_answers cfg L B B'"
proof -
  let ?ops = "cfg_ops cfg"
  note inv = assms(2)[unfolded bundle_inv_def int_filters_def str_filters_def, simplified]
  obtain f1 where f1: "log_surf (logCurrentTotalNumbersOfRanges_surf NDebug) (surf_level_file_rdf B) = Inr f1"
    "surf_ok ?ops L f1" "surf_dead ?ops L f1 = surf_dead ?ops L (surf_level_file_rdf B)" using log_surf_ok(1) inv by blast
  obtain f2 where f2: "log_surf (logCurrentTotalMemoryUsage_surf NDebug ?ops) f1 = Inr f2"
    "surf_ok ?ops L f2" "surf_dead ?ops L f2 = surf_dead ?ops L f1" using log_surf_ok(2)[OF f1(2)] by blast
  obtain s1 where s1: "log_surf (logCurrentTotalNumbersOfRanges_surf NDebug) (surf_level_file_split_rdf B) = Inr s1"
    "surf_ok ?ops L s1" "surf_dead ?ops L s1 = surf_dead ?ops L (surf_level_file_split_rdf B)" using log_surf_ok(1) inv by blast
  obtain s2 where s2: "log_surf (logCurrentTotalMemoryUsage_surf NDebug ?ops) s1 = Inr s2"
    "surf_ok ?ops L s2" "surf_dead ?ops L s2 = surf_dead ?ops L s1" using log_surf_ok(2)[OF s1(2)] by blast
  have same: "same_filter s (logCurrentTotalMemoryUsage_ll (logCurrentTotalNumbersOfRanges_ll s))"
    "same_filter t (logCurrentTotalMemoryUsage (logCurrentTotalNumbersOfRanges t))" for s :: "int plrdf" and t :: "string plrdf_t"
    by (simp_all add: same_filter_def logCurrentTotalMemoryUsage_ll_def logCurrentTotalNumbersOfRanges_ll_def
        logCurrentTotalMemoryUsage_def logCurrentTotalNumbersOfRanges_def)
  have sky: "rd_list (skyline_logCurrentTotalMemoryUsage (skyline_logCurrentTotalNumbersOfRanges t)) = rd_list t" for t
    by (simp add: skyline_logCurrentTotalMemoryUsage_def skyline_logCurrentTotalNumbersOfRanges_def)
  show ?thesis using assms(1) f1 f2 s1 s2 inv same_filter_inv[OF same(1)] same_filter_inv[OF same(2)] same sky
    by (simp add: logCurrentTotalNumbersOfRangesInEachRDF_def logCurrentTotalMemoryUsageInEachRDF_def
        bundle_inv_def same_answers_def int_filters_def str_filters_def skyline_inv_def)
qed

lemma same_answers_updated:
  assumes "bundle_updated cfg L delta B B1" "same_answers cfg L B1 B2"
  shows "bundle_updated cfg L delta B B2"
proof -
  have "map abs_filter (int_filters B2) = map abs_filter (int_filters B1)"
    "map abs_filter (str_filters B2) = map abs_filter (str_filters B1)"
    using assms(2) same_filter_abs by (auto simp: same_answers_def int_filters_def str_filters_def)
  moreover have "surf_updated cfg L delta B B2" if "surf_updated cfg L delta B B1"
    using that assms(2) by (cases "job delta") (auto simp: surf_updated_def same_answers_def Let_def surf_removed_def
        surf_compacted_def moved_surf_def split: option.splits)
  ultimately show ?thesis using assms by (simp add: bundle_updated_def same_answers_def skyline_updated_def)
qed

lemma ApplyDelta_ok:
  assumes "surf_config cfg L" "\<not> cfg_check_tracing cfg" "cfg_build cfg = NDebug"
    and "bundle_inv cfg L B" "delta_ok cfg L n delta B"
  shows "\<exists>B'. ApplyDelta cfg delta B = Inr B' \<and> bundle_inv cfg L B' \<and> bundle_updated cfg L delta B B'"
proof -
  obtain B1 where B1: "(case job delta of kFlush \<Rightarrow> ApplyFlushDelta cfg delta B | kCompaction \<Rightarrow> ApplyCompactionDelta cfg delta B
      | kCompactionDirectRemoved \<Rightarrow> ApplyDirectRemovalDelta cfg delta B
      | kCompactionDirectMoved \<Rightarrow> ApplyCompactionDelta cfg delta B) = Inr B1"
    "bundle_inv cfg L B1" "bundle_updated cfg L delta B B1"
    using ApplyFlushDelta_ok[OF assms(1,2,4)] ApplyCompactionDelta_ok[OF assms(1,2,4)]
      ApplyDirectRemovalDelta_ok[OF assms(2,4)] assms(5)
    by (cases "job delta") (fastforce simp: delta_ok_def)+
  then show ?thesis using logs_ok[OF assms(3) B1(2)] same_answers_updated[OF B1(3)] by (auto simp: ApplyDelta_def)
qed

end
