(* ===== verification/RDF_Histories.thy ===== *)
theory RDF_Histories
  imports RDF_Updates
begin

text \<open>
  Histories of updates of a \<open>VersionRDFBundle\<close>, and the agreement of its filters: when every update
  gives the filters of numbers and the filters of strings the same ranges, they answer alike for
  ever, and a SuRF filter agrees with them on the files of an update. The section at the end holds
  the properties of the whole bundle.
\<close>

section \<open>Histories\<close>

text \<open>Every update of the list is acceptable to the bundle the updates before it have produced.\<close>

fun history_ok :: "'s config \<Rightarrow> nat \<Rightarrow> nat \<Rightarrow> rdf_update_metadata list \<Rightarrow> 's rdf_bundle \<Rightarrow> bool" where
  "history_ok cfg L n [] B = True"
| "history_ok cfg L n (delta # ds) B =
     (delta_ok cfg L n delta B \<and> (\<forall>B'. ApplyDelta cfg delta B = Inr B' \<longrightarrow> history_ok cfg L n ds B'))"

definition plan_of :: "(rdf_update_metadata \<Rightarrow> 'k filter_op list list) \<Rightarrow> nat \<Rightarrow> rdf_update_metadata list \<Rightarrow> 'k filter_op list" where
  "plan_of plans j ds = concat (map (\<lambda>delta. plans delta ! j) ds)"

lemma plans_length: "length (int_plans delta) = 3" "length (str_plans delta) = 3"
  by (cases "job delta"; simp add: int_plans_def str_plans_def Let_def)+

lemma filters_length: "length (int_filters B) = 3" "length (str_filters B) = 3"
  by (simp_all add: int_filters_def str_filters_def)

lemma history_returns:
  assumes "surf_config cfg L" "\<not> cfg_check_tracing cfg" "cfg_build cfg = NDebug"
    and "bundle_inv cfg L B" "history_ok cfg L n ds B"
  shows "\<exists>B'. fold_res (ApplyDelta cfg) ds B = Inr B' \<and> bundle_inv cfg L B' \<and>
    (\<forall>j < 3. abs_filter (int_filters B' ! j) = fold spec_op (plan_of int_plans j ds) (abs_filter (int_filters B ! j)) \<and>
             abs_filter (str_filters B' ! j) = fold spec_op (plan_of str_plans j ds) (abs_filter (str_filters B ! j)))"
  using assms(4,5)
proof (induction ds arbitrary: B)
  case (Cons delta ds)
  obtain B1 where B1: "ApplyDelta cfg delta B = Inr B1" "bundle_inv cfg L B1" "bundle_updated cfg L delta B B1"
    using ApplyDelta_ok[OF assms(1-3) Cons.prems(1), of n delta] Cons.prems(2) by auto
  then obtain B2 where B2: "fold_res (ApplyDelta cfg) ds B1 = Inr B2" "bundle_inv cfg L B2"
    "\<forall>j < 3. abs_filter (int_filters B2 ! j) = fold spec_op (plan_of int_plans j ds) (abs_filter (int_filters B1 ! j)) \<and>
             abs_filter (str_filters B2 ! j) = fold spec_op (plan_of str_plans j ds) (abs_filter (str_filters B1 ! j))"
    using Cons.IH[OF B1(2)] Cons.prems(2) by auto
  have "abs_filter (int_filters B1 ! j) = fold spec_op (int_plans delta ! j) (abs_filter (int_filters B ! j)) \<and>
      abs_filter (str_filters B1 ! j) = fold spec_op (str_plans delta ! j) (abs_filter (str_filters B ! j))" if "j < 3" for j
  proof -
    have "map abs_filter (int_filters B1) ! j = map2 (fold spec_op) (int_plans delta) (map abs_filter (int_filters B)) ! j"
      "map abs_filter (str_filters B1) ! j = map2 (fold spec_op) (str_plans delta) (map abs_filter (str_filters B)) ! j"
      using B1(3) by (simp_all add: bundle_updated_def)
    then show ?thesis using that by (simp add: filters_length plans_length)
  qed
  then show ?case using B1(1) B2 by (simp add: plan_of_def)
qed (simp add: plan_of_def)

lemma plrdf_t_empty_inv: "plrdf_inv plrdf_t_empty" "abs_filter plrdf_t_empty = abs_filter plrdf_empty"
  by (simp_all add: plrdf_t_empty_def plrdf_empty_def plrdf.defs plrdf_t.defs plrdf_inv_def abs_filter_def
      dead_def dead_level0_def fun_eq_iff)

lemma bundle_inv_empty: "bundle_inv cfg L bundle_empty"
  using plrdf_inv_empty plrdf_t_empty_inv skyline_inv_empty
  by (simp add: bundle_inv_def int_filters_def str_filters_def bundle_empty_def surf_ok_def)

lemma empty_filters:
  assumes "j < 3"
  shows "abs_filter (int_filters bundle_empty ! j) = abs_filter plrdf_empty"
    and "abs_filter (str_filters bundle_empty ! j) = abs_filter plrdf_empty"
proof -
  have "j = 0 \<or> j = 1 \<or> j = 2" using assms by auto
  then show "abs_filter (int_filters bundle_empty ! j) = abs_filter plrdf_empty"
    and "abs_filter (str_filters bundle_empty ! j) = abs_filter plrdf_empty"
    using plrdf_t_empty_inv(2) by (auto simp: int_filters_def str_filters_def bundle_empty_def)
qed

lemma history_from_empty:
  assumes "surf_config cfg L" "\<not> cfg_check_tracing cfg" "cfg_build cfg = NDebug" "history_ok cfg L n ds bundle_empty"
  shows "\<exists>B. fold_res (ApplyDelta cfg) ds bundle_empty = Inr B \<and> bundle_inv cfg L B \<and>
    (\<forall>j < 3. abs_filter (int_filters B ! j) = fold spec_op (plan_of int_plans j ds) (abs_filter plrdf_empty) \<and>
             abs_filter (str_filters B ! j) = fold spec_op (plan_of str_plans j ds) (abs_filter plrdf_empty))"
  using history_returns[OF assms(1-3) bundle_inv_empty assms(4)] by (simp add: empty_filters)

section \<open>Agreement of numbers and strings\<close>

definition tr_flush :: "string flush_delta \<Rightarrow> int flush_delta" where
  "tr_flush d = (case d of (f, rds, exist) \<Rightarrow> (f, translate num rds, exist))"

definition tr_metas :: "string file_meta list \<Rightarrow> int file_meta list" where
  "tr_metas = map (\<lambda>(level, out_level, rds, fds). (level, out_level, translate num rds, fds))"

fun tr_op :: "string filter_op \<Rightarrow> int filter_op" where
  "tr_op (Flush f rds exist) = Flush f (translate num rds) exist"
| "tr_op (Shift metas rds) = Shift (tr_metas metas) (translate num rds)"
| "tr_op (Remove (level, rds, fds)) = Remove (level, translate num rds, fds)"
| "tr_op (Split level keys) = Split level (map num keys)"
| "tr_op (Delete_last level) = Delete_last level"
| "tr_op (Ask level key) = Ask level (num key)"

fun op_digits :: "nat \<Rightarrow> string filter_op \<Rightarrow> bool" where
  "op_digits n (Flush f rds exist) = on_ends (digits n) rds"
| "op_digits n (Shift metas rds) =
     (list_all (\<lambda>(level, out_level, rds, fds). on_ends (digits n) rds) metas \<and> on_ends (digits n) rds)"
| "op_digits n (Remove (level, rds, fds)) = on_ends (digits n) rds"
| "op_digits n (Split level keys) = list_all (digits n) keys"
| "op_digits n (Delete_last level) = True"
| "op_digits n (Ask level key) = digits n key"

definition agree :: "nat \<Rightarrow> string deletes \<Rightarrow> int deletes \<Rightarrow> bool" where
  "agree n d e \<longleftrightarrow> n_levels d = n_levels e \<and>
     (\<forall>k. digits n k \<longrightarrow> (\<forall>l. k \<in> on_level d l \<longleftrightarrow> num k \<in> on_level e l) \<and> (\<forall>f. k \<in> in_file d f \<longleftrightarrow> num k \<in> in_file e f))"

text \<open>An update that gives the three filters of numbers what it gives the filters of strings.\<close>

definition matching :: "nat \<Rightarrow> rdf_update_metadata \<Rightarrow> bool" where
  "matching n delta \<longleftrightarrow>
     plrdf_flush_delta delta = tr_flush (plrdf_stringkey_flush_delta delta) \<and>
     split_plrdf_flush_delta delta = tr_flush (split_plrdf_stringkey_flush_delta delta) \<and>
     top_level_plrdf_flush_delta delta = tr_flush (top_level_plrdf_stringkey_flush_delta delta) \<and>
     plrdf_compaction_delta delta = tr_metas (plrdf_stringkey_compaction_delta delta) \<and>
     split_plrdf_compaction_delta delta = tr_metas (split_plrdf_stringkey_compaction_delta delta) \<and>
     top_level_plrdf_compaction_delta delta = tr_metas (top_level_plrdf_stringkey_compaction_delta delta) \<and>
     split_sampled_keys delta = map num (split_sampled_keys_str delta) \<and>
     list_all (list_all (op_digits n)) (str_plans delta)"

lemma tr_metas_simps [simp]:
  "tr_metas metas = [] \<longleftrightarrow> metas = []" "metas \<noteq> [] \<Longrightarrow> fst (hd (tr_metas metas)) = fst (hd metas)"
  "metas \<noteq> [] \<Longrightarrow> fst (snd (hd (tr_metas metas))) = fst (snd (hd metas))"
  by (cases metas; auto simp: tr_metas_def)+

lemma translate_Nil [simp]: "translate tr rs = [] \<longleftrightarrow> rs = []"
  by (simp add: translate_def)

lemma matching_plans: "matching n delta \<Longrightarrow> int_plans delta = map (map tr_op) (str_plans delta)"
proof -
  assume m: "matching n delta"
  have flush: "flush_ops (tr_flush d) = map tr_op (flush_ops d)" for d
    by (cases d) (simp add: flush_ops_def tr_flush_def)
  have compact: "compact_ops (tr_metas ms) (translate num rds) = map tr_op (compact_ops ms rds)" for ms rds
    by (simp add: compact_ops_def)
  have split: "split_ops flag (tr_metas ms) (map num ks) = map tr_op (split_ops flag ms ks)" for flag ms ks
    by (cases "ms = []") (simp_all add: split_ops_def)
  have top: "top_level_ops flag (map num ks) (tr_metas ms) (translate num rds) = map tr_op (top_level_ops flag ks ms rds)"
    for flag ms ks rds by (cases "ms = []") (simp_all add: top_level_ops_def)
  have remove: "remove_ops (tr_metas ms) = map tr_op (remove_ops ms)" for ms
    by (auto simp: remove_ops_def tr_metas_def)
  show ?thesis using m
    by (cases "job delta") (simp_all add: matching_def int_plans_def str_plans_def Let_def flush compact split top remove)
qed

lemma cut_from_translate:
  assumes "list_all (\<lambda>(level, out_level, rds, fds). on_ends (digits n) rds) metas" "digits n k"
  shows "num k \<in> cut_from (tr_metas metas) l \<longleftrightarrow> k \<in> cut_from metas l"
  using assms by (induction metas) (auto simp: cut_from_def tr_metas_def numbers.cover_translate[of n] split: if_splits)

lemma files_of_level0_tr: "files_of_level0 (tr_metas metas) = files_of_level0 metas"
  by (induction metas) (auto simp: files_of_level0_def tr_metas_def)

lemma num_inj: "digits n x \<Longrightarrow> digits n y \<Longrightarrow> num x = num y \<longleftrightarrow> x = y"
  using numbers.tr_le[of n x y] numbers.tr_le[of n y x] by (auto intro: antisym)

lemma agree_op:
  assumes "agree n d e" "op_digits n x"
  shows "agree n (spec_op x d) (spec_op (tr_op x) e)"
proof (cases x)
  case (Shift metas rds)
  then show ?thesis using assms cut_from_translate[of n metas]
    by (auto simp: agree_def after_shift_def levels_after_shift_def files_of_level0_tr numbers.cover_translate[of n])
next
  case (Split l ks)
  have "num k \<in> num ` set ks \<longleftrightarrow> k \<in> set ks" if "digits n k" for k
    using assms(2) Split that num_inj[of n] by (auto simp: list_all_iff)
  then show ?thesis using assms Split by (auto simp: agree_def)
next
  case (Remove m)
  obtain l rs fs where "m = (l, rs, fs)" by (cases m)
  then show ?thesis using assms Remove by (auto simp: agree_def numbers.cover_translate[of n])
qed (use assms in \<open>auto simp: agree_def numbers.cover_translate[of n]\<close>)

lemma agree_ops: "agree n d e \<Longrightarrow> list_all (op_digits n) xs \<Longrightarrow> agree n (fold spec_op xs d) (fold spec_op (map tr_op xs) e)"
  by (induction xs arbitrary: d e) (auto intro: agree_op)

lemma agree_empty: "agree n (abs_filter plrdf_empty) (abs_filter plrdf_empty)"
  by (simp add: agree_def abs_filter_def plrdf_empty_def dead_def dead_level0_def)

lemma matching_history:
  assumes "list_all (matching n) ds" "j < 3"
  shows "plan_of int_plans j ds = map tr_op (plan_of str_plans j ds)" "list_all (op_digits n) (plan_of str_plans j ds)"
proof -
  have "int_plans delta ! j = map tr_op (str_plans delta ! j)" "list_all (op_digits n) (str_plans delta ! j)"
    if "matching n delta" for delta
    using matching_plans[OF that] plans_length(2)[of delta] assms(2) that by (auto simp: matching_def list_all_length)
  then show "plan_of int_plans j ds = map tr_op (plan_of str_plans j ds)" "list_all (op_digits n) (plan_of str_plans j ds)"
    using assms(1) by (induction ds) (auto simp: plan_of_def)
qed

section \<open>Sample updates\<close>

definition sample_config :: "(string \<times> bool \<times> bool) list config" where
  "sample_config = \<lparr>cfg_build = NDebug, cfg_env = plain_env, cfg_ops = list_trie, cfg_check_tracing = False\<rparr>"

definition no_update :: "job_type \<Rightarrow> rdf_update_metadata" where
  "no_update j = \<lparr>job = j, split_flag = False, plrdf_flush_delta = (0, [], []), split_plrdf_flush_delta = (0, [], []),
     plrdf_stringkey_flush_delta = (0, [], []), split_plrdf_stringkey_flush_delta = (0, [], []),
     top_level_plrdf_flush_delta = (0, [], []), top_level_plrdf_stringkey_flush_delta = (0, [], []),
     plrdf_compaction_delta = [], split_plrdf_compaction_delta = [], plrdf_stringkey_compaction_delta = [],
     split_plrdf_stringkey_compaction_delta = [], top_level_plrdf_compaction_delta = [],
     top_level_plrdf_stringkey_compaction_delta = [], surf_flush_info = None, split_surf_flush_info = None,
     surf_compaction_info = None, split_surf_compaction_info = None, surf_direct_removal_info = None,
     split_surf_direct_removal_info = None, skyline_delta = [], split_sampled_keys = [], split_sampled_keys_str = [],
     fd_rangetombstones_info = None, plrdf_tracing_add = [], split_plrdf_tracing_add = [],
     plrdf_stringkey_tracing_add = [], split_plrdf_stringkey_tracing_add = [], plrdf_tracing_remove = [],
     split_plrdf_tracing_remove = [], plrdf_stringkey_tracing_remove = [], split_plrdf_stringkey_tracing_remove = []\<rparr>"

text \<open>A flush of the range from 10 to 30 in file 7, and the compaction of this file to level 1.\<close>

definition sample_flush :: rdf_update_metadata where
  "sample_flush = (no_update kFlush)\<lparr>plrdf_flush_delta := (7, [(10, 30)], [3]),
     plrdf_stringkey_flush_delta := (7, [(''10'', ''30'')], [3]),
     surf_flush_info := Some \<lparr>flush_dst_fd = 7, flush_rd_list = [(''10'', ''30'')]\<rparr>, skyline_delta := [(10, 30, 4)]\<rparr>"

definition sample_move :: moving_info where
  "sample_move = \<lparr>src_level_info_list = [\<lparr>src_level = 0, src_fd_list = [7], is_on_output_level = False,
       range_tombstones_str = [(''10'', ''30'')]\<rparr>],
     dst_level = 1, dst_level_info_list = [\<lparr>out_fd = 9, out_boundary = (''05'', ''40'')\<rparr>],
     flag_direct_move_to_dst_level = False\<rparr>"

definition sample_compaction :: rdf_update_metadata where
  "sample_compaction = (no_update kCompaction)\<lparr>plrdf_compaction_delta := [(0, 1, [(10, 30)], [7])],
     plrdf_stringkey_compaction_delta := [(0, 1, [(''10'', ''30'')], [7])], fd_rangetombstones_info := Some sample_move\<rparr>"

lemmas sample_defs = sample_config_def no_update_def sample_flush_def sample_compaction_def sample_move_def
  info_tombstones_def info_boundaries_def out_files_def plain_env_def surf_env_default_def

lemma sample_config_ok: "surf_config sample_config 2" "\<not> cfg_check_tracing sample_config" "cfg_build sample_config = NDebug"
  using trie_ok_list_trie whole_keys_plain[of 2]
  by (simp_all add: surf_config_def sample_config_def plain_env_def surf_env_default_def)

lemma sample_flush_ok: "delta_ok sample_config 2 2 sample_flush B"
  by (simp add: delta_ok_def flush_delta_ok_def flush_ok_def flush_info_ok_def surf_readable_def skyline_ready_def
      seqs_ok_def nonempty_ranges_def sample_defs)

lemma sample_compaction_ok: "delta_ok sample_config 2 2 sample_compaction B"
  by (simp add: delta_ok_def compaction_delta_ok_def tombstones_ready_def metas_ready_def metas_ok_def moving_ok_def
      boundaries_ok_def skyline_ready_def nonempty_ranges_def digits_def is_digit_iff sample_defs)

lemma sample_numbers: "num ''10'' = 10" "num ''30'' = 30"
  by code_simp+

lemma sample_on_output: "rangetombstones_on_output_level sample_compaction = [(''10'', ''30'')]"
  by code_simp

lemma sample_flush_plan: "str_plans sample_flush = [[Flush 7 [(''10'', ''30'')] [3]], [], []]"
  by (simp add: str_plans_def flush_ops_def sample_defs)

lemma sample_compaction_plan:
  "str_plans sample_compaction = [[Shift [(0, 1, [(''10'', ''30'')], [7])] [(''10'', ''30'')]], [], []]"
proof -
  have f: "job sample_compaction = kCompaction" "plrdf_stringkey_compaction_delta sample_compaction = [(0, 1, [(''10'', ''30'')], [7])]"
    "split_plrdf_stringkey_compaction_delta sample_compaction = []" "top_level_plrdf_stringkey_compaction_delta sample_compaction = []"
    by (simp_all add: sample_defs)
  show ?thesis by (simp add: str_plans_def f sample_on_output compact_ops_def split_ops_def top_level_ops_def)
qed

lemma sample_matching: "matching 2 sample_flush" "matching 2 sample_compaction"
proof -
  have "list_all (list_all (op_digits 2)) (str_plans sample_flush)" "list_all (list_all (op_digits 2)) (str_plans sample_compaction)"
    by (simp_all add: sample_flush_plan sample_compaction_plan digits_def is_digit_iff)
  then show "matching 2 sample_flush" "matching 2 sample_compaction"
    by (simp_all add: matching_def) (simp_all add: sample_defs tr_flush_def tr_metas_def translate_def sample_numbers)
qed

section \<open>Properties\<close>



text \<open>C2: Progress. Any history of acceptable updates of an empty bundle is applied to its end; then the
  invariant holds and a query of the filter of string keys, at any of its levels, answers
  ``deleted'' exactly for the keys the updates of the history delete there.\<close>

theorem update_history_answers:
  fixes ds :: "rdf_update_metadata list"
  defines "spec \<equiv> fold spec_op (plan_of str_plans 0 ds) (abs_filter plrdf_empty)"
  assumes "surf_config cfg L" "\<not> cfg_check_tracing cfg" "cfg_build cfg = NDebug"
    and "history_ok cfg L n ds bundle_empty"
  shows "\<exists>B. fold_res (ApplyDelta cfg) ds bundle_empty = Inr B \<and> bundle_inv cfg L B \<and>
    (\<forall>l k. l < n_levels spec \<longrightarrow>
      (\<exists>s. isEntryAlive NDebug p l k (bundle_plrdf_stringkey B) = Inr (k \<notin> on_level spec l, s)))"
proof -
  obtain B where B: "fold_res (ApplyDelta cfg) ds bundle_empty = Inr B" "bundle_inv cfg L B"
    "\<forall>j < 3. abs_filter (int_filters B ! j) = fold spec_op (plan_of int_plans j ds) (abs_filter plrdf_empty) \<and>
             abs_filter (str_filters B ! j) = fold spec_op (plan_of str_plans j ds) (abs_filter plrdf_empty)"
    using history_from_empty[OF assms(2-5)] by blast
  let ?s = "bundle_plrdf_stringkey B"
  have abs: "spec = abs_filter ?s"
    using B(3)[rule_format, of 0, THEN conjunct2] by (simp add: str_filters_def spec_def)
  have "plrdf_inv ?s" using B(2) by (simp add: bundle_inv_def str_filters_def)
  then have "\<exists>s. isEntryAlive NDebug p l k ?s = Inr (k \<notin> on_level spec l, s)" if "l < n_levels spec" for l k
    using isEntryAlive_ok[of ?s l NDebug p k] that by (auto simp: abs abs_filter_def)
  then show ?thesis using B(1,2) by blast
qed

theorem update_history_answers_witness:
  "\<exists>B s. fold_res (ApplyDelta sample_config) [sample_flush, sample_compaction] bundle_empty = Inr B \<and>
     isEntryAlive NDebug False 1 ''20'' (bundle_plrdf_stringkey B) = Inr (False, s)"
proof -
  let ?spec = "fold spec_op (plan_of str_plans 0 [sample_flush, sample_compaction]) (abs_filter plrdf_empty)"
  have on: "''20'' \<in> on_level ?spec 1" "1 < n_levels ?spec"
    by (simp_all add: plan_of_def sample_flush_plan sample_compaction_plan after_shift_def levels_after_shift_def
        cover_Cons to_uint_def)
  have h: "history_ok sample_config 2 2 [sample_flush, sample_compaction] bundle_empty"
    using sample_flush_ok sample_compaction_ok by simp
  obtain B where B: "fold_res (ApplyDelta sample_config) [sample_flush, sample_compaction] bundle_empty = Inr B"
    "\<forall>l k. l < n_levels ?spec \<longrightarrow> (\<exists>s. isEntryAlive NDebug False l k (bundle_plrdf_stringkey B) = Inr (k \<notin> on_level ?spec l, s))"
    using update_history_answers[OF sample_config_ok h, of False] by blast
  have "(''20'' \<notin> on_level ?spec 1) = False" using on(1) by blast
  then have "\<exists>s. isEntryAlive NDebug False 1 ''20'' (bundle_plrdf_stringkey B) = Inr (False, s)"
    using B(2)[rule_format, OF on(2), of "''20''"] by metis
  then show ?thesis using B(1) by blast
qed

text \<open>C3: Agreement. When every update of a history gives the filters of numbers the ranges it gives the
  filters of strings, all keys having the same number of decimal digits, the filters of each pair
  (plain, split, top-level) report the same keys on every level and for every file of level 0.\<close>

theorem filters_stay_in_agreement:
  assumes "surf_config cfg L" "\<not> cfg_check_tracing cfg" "cfg_build cfg = NDebug"
    and "history_ok cfg L n ds bundle_empty" "list_all (matching n) ds" "digits n k" "j < 3"
  shows "\<exists>B. fold_res (ApplyDelta cfg) ds bundle_empty = Inr B \<and>
    length (rd_filter (str_filters B ! j)) = length (rd_filter (int_filters B ! j)) \<and>
    (k \<in> dead (str_filters B ! j) l \<longleftrightarrow> num k \<in> dead (int_filters B ! j) l) \<and>
    (k \<in> dead_level0 (str_filters B ! j) f \<longleftrightarrow> num k \<in> dead_level0 (int_filters B ! j) f)"
proof -
  obtain B where B: "fold_res (ApplyDelta cfg) ds bundle_empty = Inr B"
    and "\<forall>j < 3. abs_filter (int_filters B ! j) = fold spec_op (plan_of int_plans j ds) (abs_filter plrdf_empty) \<and>
             abs_filter (str_filters B ! j) = fold spec_op (plan_of str_plans j ds) (abs_filter plrdf_empty)"
    using history_from_empty[OF assms(1-4)] by blast
  then have abs: "abs_filter (int_filters B ! j) = fold spec_op (plan_of int_plans j ds) (abs_filter plrdf_empty)"
    "abs_filter (str_filters B ! j) = fold spec_op (plan_of str_plans j ds) (abs_filter plrdf_empty)"
    using assms(7) by auto
  have "agree n (abs_filter (str_filters B ! j)) (abs_filter (int_filters B ! j))"
    using agree_ops[OF agree_empty matching_history(2)[OF assms(5,7)]] matching_history(1)[OF assms(5,7)]
    unfolding abs by simp
  then show ?thesis using B assms(6) by (simp add: agree_def abs_filter_def)
qed

theorem filters_stay_in_agreement_witness:
  "\<exists>B. fold_res (ApplyDelta sample_config) [sample_flush, sample_compaction] bundle_empty = Inr B \<and>
     (''20'' \<in> dead (bundle_plrdf_stringkey B) 1 \<longleftrightarrow> 20 \<in> dead (bundle_plrdf B) 1)"
proof -
  have h: "history_ok sample_config 2 2 [sample_flush, sample_compaction] bundle_empty"
    using sample_flush_ok sample_compaction_ok by simp
  have m: "list_all (matching 2) [sample_flush, sample_compaction]" using sample_matching by simp
  have d: "digits 2 ''20''" "num ''20'' = 20" by (simp_all add: digits_def is_digit_iff) code_simp
  from filters_stay_in_agreement[OF sample_config_ok h m d(1), of 0 1 7] d(2) show ?thesis
    by (auto simp: str_filters_def int_filters_def)
qed

text \<open>C28: The tombstones a compaction brings to the output level are ordered ranges that cover exactly the
  keys of the input tombstones inside the boundaries of the output files.\<close>

theorem compaction_tombstones:
  assumes "fd_rangetombstones_info delta = Some i" "nonempty_ranges (info_tombstones i)" "boundaries_ok (info_boundaries i)"
  shows "ordered_ranges (rangetombstones_on_output_level delta) \<and>
    cover (rangetombstones_on_output_level delta) = cover (info_tombstones i) \<inter> window (info_boundaries i)"
  using filtered_tombstones_ok(1,2)[OF assms(2,3)] assms(1) by (simp add: rangetombstones_on_output_level_def)

theorem compaction_tombstones_witness:
  "ordered_ranges (rangetombstones_on_output_level sample_compaction) \<and>
   cover (rangetombstones_on_output_level sample_compaction) = cover [(''10'', ''30'')] \<inter> window [(''05'', ''40'')]"
  using compaction_tombstones[of sample_compaction sample_move]
  by (simp add: sample_compaction_def sample_move_def info_tombstones_def info_boundaries_def nonempty_ranges_def boundaries_ok_def)


definition sample_surf_compaction :: rdf_update_metadata where
  "sample_surf_compaction = sample_compaction\<lparr>surf_compaction_info := Some sample_move\<rparr>"


text \<open>A compaction without the split flag, or without sampled keys, leaves both top-level filters as
  they are, whatever the update holds for them.\<close>

theorem top_level_waits_for_split:
  assumes "ApplyCompactionDelta cfg delta B = Inr B'" "\<not> cfg_check_tracing cfg"
    and "\<not> split_flag delta \<or> split_sampled_keys delta = [] \<and> split_sampled_keys_str delta = []"
  shows "bundle_top_level_rdf B' = bundle_top_level_rdf B" "bundle_top_level_rdf_stringkey B' = bundle_top_level_rdf_stringkey B"
  using assms unfolding ApplyCompactionDelta_def
  by (auto simp: trace_compaction_all_off compact_top_level_def compact_top_level_ll_def Let_def)

end
