(* ===== verification/SuRF_Bits.thy ===== *)
theory SuRF_Bits
  imports Range_Lists
begin

unbundle bit_operations_syntax

text \<open>
  The bit vectors of the trie: the class \<open>Bitvector\<close> (SuRF/include/bitvector.hpp and bitvector.cc) and
  the routines of popcount.h. A bit vector is an array of 64-bit words, the first bit being the most
  significant bit of the first word; \<open>word_bits\<close> and \<open>all_bits\<close> read words as lists of bits.
  \<open>bv_ok\<close> is the invariant: as many words as the number of bits needs, and zeros behind the last bit.
  The number of bits is a 32-bit sum as in the source; positions within a vector are \<open>nat\<close>, since they are
  below that number. \<open>levels_ok\<close>, the condition on the levels of a vector, includes that the sum does not wrap.
  \<open>__builtin_popcountll\<close>, \<open>__builtin_clzll\<close> and \<open>__builtin_ctzll\<close> are \<open>popcount\<close>, \<open>clz\<close> and \<open>ctz\<close>.
\<close>

type_synonym word_t = "64 word"

section \<open>Words as lists of bits\<close>

definition word_bits :: "word_t \<Rightarrow> bool list" where
  "word_bits w = map (\<lambda>i. bit w (63 - i)) [0..<64]"

definition all_bits :: "word_t list \<Rightarrow> bool list" where
  "all_bits ws = concat (map word_bits ws)"

definition ones :: "bool list \<Rightarrow> nat" where
  "ones bs = length (filter (\<lambda>b. b) bs)"

definition popcount :: "word_t \<Rightarrow> nat" where
  "popcount w = ones (word_bits w)"

definition clz :: "word_t \<Rightarrow> nat" where
  "clz w = length (takeWhile Not (word_bits w))"

definition ctz :: "word_t \<Rightarrow> nat" where
  "ctz w = length (takeWhile Not (rev (word_bits w)))"

definition kMsbMask :: word_t where
  "kMsbMask = 0x8000000000000000"

lemma length_word_bits [simp]: "length (word_bits w) = 64"
  by (simp add: word_bits_def)

lemma nth_word_bits [simp]: "i < 64 \<Longrightarrow> word_bits w ! i = bit w (63 - i)"
  by (simp add: word_bits_def)

lemma word_bits_inject: "word_bits v = word_bits w \<longleftrightarrow> v = w"
proof
  assume eq: "word_bits v = word_bits w"
  have "bit v n = bit w n" if "n < 64" for n
    using arg_cong[OF eq, of "\<lambda>bs. bs ! (63 - n)"] that by simp
  then show "v = w" by (intro bit_word_eqI) simp
qed simp

lemma word_bits_zero: "w = 0 \<longleftrightarrow> True \<notin> set (word_bits w)"
proof -
  have "word_bits 0 = replicate 64 False" by (intro nth_equalityI) simp_all
  moreover have "word_bits w = replicate 64 False" if "True \<notin> set (word_bits w)"
    by (rule replicate_eqI) (use that in \<open>auto\<close>)
  ultimately show ?thesis using word_bits_inject by fastforce
qed

lemma all_bits_simps [simp]:
  "all_bits [] = []" "all_bits (w # ws) = word_bits w @ all_bits ws" "all_bits (vs @ ws) = all_bits vs @ all_bits ws"
  "length (all_bits ws) = 64 * length ws"
  by (simp_all add: all_bits_def) (induction ws; simp)

lemma nth_all_bits: "i < 64 * length ws \<Longrightarrow> all_bits ws ! i = bit (ws ! (i div 64)) (63 - i mod 64)"
proof (induction ws arbitrary: i)
  case (Cons w ws)
  show ?case
  proof (cases "i < 64")
    case False
    then have "i div 64 = Suc ((i - 64) div 64)" "i mod 64 = (i - 64) mod 64" by (simp_all add: le_div_geq le_mod_geq)
    then show ?thesis using Cons False by (simp add: nth_append)
  qed (simp add: nth_append)
qed simp

lemma drop_all_bits: "drop (64 * n) (all_bits ws) = all_bits (drop n ws)"
proof (induction ws arbitrary: n)
  case (Cons w ws)
  then show ?case by (cases n) simp_all
qed simp

lemma take_all_bits: "take (64 * n) (all_bits ws) = all_bits (take n ws)"
proof (induction ws arbitrary: n)
  case (Cons w ws)
  then show ?case by (cases n) simp_all
qed simp

lemma ones_simps [simp]: "ones [] = 0" "ones (b # bs) = (if b then 1 else 0) + ones bs" "ones (as @ bs) = ones as + ones bs"
  by (simp_all add: ones_def)

lemma ones_zero: "ones bs = 0 \<longleftrightarrow> True \<notin> set bs"
  by (induction bs) auto

lemma ones_replicate [simp]: "ones (replicate n False) = 0"
  by (induction n) auto

lemma word_bits_push_bit: "n \<le> 64 \<Longrightarrow> word_bits (push_bit n w) = drop n (word_bits w) @ replicate n False"
  by (intro nth_equalityI) (auto simp: nth_append bit_push_bit_iff add.commute)

lemma word_bits_drop_bit: "n \<le> 64 \<Longrightarrow> word_bits (drop_bit n w) = replicate n False @ take (64 - n) (word_bits w)"
  by (intro nth_equalityI) (auto simp: nth_append bit_drop_bit_eq add.commute dest: bit_imp_le_length)

lemma word_bits_or: "word_bits (v OR w) = map2 (\<or>) (word_bits v) (word_bits w)"
  by (intro nth_equalityI) (auto simp: bit_or_iff)

lemma word_bits_and: "word_bits (v AND w) = map2 (\<and>) (word_bits v) (word_bits w)"
  by (intro nth_equalityI) (auto simp: bit_and_iff)

lemma bit_kMsbMask: "bit kMsbMask n \<longleftrightarrow> n = 63"
proof -
  have "kMsbMask = push_bit 63 1" by (simp add: kMsbMask_def push_bit_eq_mult)
  moreover have "63 < LENGTH(64)" by simp
  ultimately show ?thesis using bit_push_bit_iff[of 63 "1::word_t" n] by (auto simp only: bit_1_iff possible_bit_word)
qed

lemma and_msb_shift:
  assumes "offset < 64"
  shows "w AND drop_bit offset kMsbMask \<noteq> 0 \<longleftrightarrow> bit w (63 - offset)"
proof -
  have "bit (drop_bit offset kMsbMask) n \<longleftrightarrow> n = 63 - offset" for n
    using assms by (simp only: bit_drop_bit_eq o_def bit_kMsbMask) linarith
  then have "bit (w AND drop_bit offset kMsbMask) n \<longleftrightarrow> bit w (63 - offset) \<and> n = 63 - offset" for n
    by (simp only: bit_and_iff) blast
  moreover have "w AND drop_bit offset kMsbMask = 0 \<longleftrightarrow> (\<forall>n. \<not> bit (w AND drop_bit offset kMsbMask) n)"
    using bit_word_eqI[of "w AND drop_bit offset kMsbMask" 0] by (metis bit_0_eq bot_apply bot_bool_def)
  ultimately show ?thesis by blast
qed

section \<open>Bit vectors\<close>

record bitvector =
  num_bits :: nat
  bits :: "word_t list"

definition words_for :: "nat \<Rightarrow> nat" where
  "words_for n = (if n mod 64 = 0 then n div 64 else n div 64 + 1)"

definition numWords :: "('m) bitvector_scheme \<Rightarrow> nat" where
  "numWords bv = words_for (num_bits bv)"

definition readBit :: "build \<Rightarrow> nat \<Rightarrow> 'm bitvector_scheme \<Rightarrow> bool result" where
  "readBit b pos bv =
     cxx_assert b (pos \<le> num_bits bv)
       (let word_id = pos div 64; offset = pos mod 64
        in if length (bits bv) \<le> word_id then Inl Undefined_behaviour
           else Inr (bits bv ! word_id AND drop_bit offset kMsbMask \<noteq> 0))"

fun next_set_loop :: "word_t list \<Rightarrow> nat \<Rightarrow> nat" where
  "next_set_loop [] distance = distance"
| "next_set_loop (test_bits # ws) distance =
     (if test_bits > 0 then distance + clz test_bits else next_set_loop ws (distance + 64))"

definition distanceToNextSetBit :: "build \<Rightarrow> nat \<Rightarrow> 'm bitvector_scheme \<Rightarrow> nat result" where
  "distanceToNextSetBit b pos bv =
     cxx_assert b (pos < num_bits bv) (cxx_assert b (pos \<noteq> num_bits bv - 1)
       (let word_id = (pos + 1) div 64; offset = (pos + 1) mod 64
        in if length (bits bv) \<le> word_id then Inl Undefined_behaviour
           else let test_bits = push_bit offset (bits bv ! word_id)
                in if test_bits > 0 then Inr (1 + clz test_bits)
                   else if word_id = numWords bv - 1 then Inr (num_bits bv - pos)
                   else Inr (next_set_loop (drop (word_id + 1) (bits bv)) (1 + (64 - offset)))))"

fun prev_set_loop :: "word_t list \<Rightarrow> nat \<Rightarrow> nat" where
  "prev_set_loop [] distance = distance"
| "prev_set_loop (test_bits # ws) distance =
     (if test_bits > 0 then distance + ctz test_bits else prev_set_loop ws (distance + 64))"

definition distanceToPrevSetBit :: "build \<Rightarrow> nat \<Rightarrow> 'm bitvector_scheme \<Rightarrow> nat result" where
  "distanceToPrevSetBit b pos bv =
     cxx_assert b (pos \<le> num_bits bv)
       (if pos = 0 then Inr 0
        else let word_id = (pos - 1) div 64; offset = (pos - 1) mod 64
             in if length (bits bv) \<le> word_id then Inl Undefined_behaviour
                else let test_bits = drop_bit (63 - offset) (bits bv ! word_id)
                     in if test_bits > 0 then Inr (1 + ctz test_bits)
                        else Inr (prev_set_loop (rev (take word_id (bits bv))) (1 + (offset + 1))))"

subsection \<open>Concatenation of the levels\<close>

text \<open>A state of \<open>concatenateBitvectors\<close> is the array, \<open>word_id\<close> and \<open>bit_shift\<close>.\<close>

definition or_at :: "nat \<Rightarrow> word_t \<Rightarrow> word_t list \<Rightarrow> word_t list result" where
  "or_at i w ws = (if length ws \<le> i then Inl Undefined_behaviour else Inr (ws[i := ws ! i OR w]))"

fun concat_words :: "word_t list \<Rightarrow> word_t list \<times> nat \<times> nat \<Rightarrow> (word_t list \<times> nat \<times> nat) result" where
  "concat_words [] st = Inr st"
| "concat_words (w # ws) (buf, word_id, bit_shift) =
     bind_res (or_at word_id (drop_bit bit_shift w) buf) (\<lambda>buf.
     bind_res (if bit_shift > 0 then or_at (word_id + 1) (push_bit (64 - bit_shift) w) buf else Inr buf) (\<lambda>buf.
       concat_words ws (buf, word_id + 1, bit_shift)))"

definition concat_level :: "word_t list \<Rightarrow> nat \<Rightarrow> word_t list \<times> nat \<times> nat \<Rightarrow> (word_t list \<times> nat \<times> nat) result" where
  "concat_level ws n st =
     (if n = 0 then Inr st
      else let num_complete_words = n div 64; bits_remain = n - num_complete_words * 64
           in if length ws < num_complete_words then Inl Undefined_behaviour
              else bind_res (concat_words (take num_complete_words ws) st) (\<lambda>(buf, word_id, bit_shift).
                if bits_remain > 0 then
                  if length ws \<le> num_complete_words then Inl Undefined_behaviour
                  else let last_word = ws ! num_complete_words
                       in bind_res (or_at word_id (drop_bit bit_shift last_word) buf) (\<lambda>buf.
                            if bit_shift + bits_remain < 64 then Inr (buf, word_id, bit_shift + bits_remain)
                            else bind_res (or_at (word_id + 1) (push_bit (64 - bit_shift) last_word) buf) (\<lambda>buf.
                                   Inr (buf, word_id + 1, bit_shift + bits_remain - 64)))
                else Inr (buf, word_id, bit_shift)))"

definition totalNumBits :: "nat list \<Rightarrow> nat \<Rightarrow> nat \<Rightarrow> nat" where
  "totalNumBits num_bits_per_level start_level end_level =
     foldl (\<lambda>n level. (n + num_bits_per_level ! level) mod 2 ^ 32) 0 [start_level..<end_level]"

definition concatenateBitvectors ::
  "word_t list list \<Rightarrow> nat list \<Rightarrow> nat \<Rightarrow> nat \<Rightarrow> word_t list \<Rightarrow> word_t list result" where
  "concatenateBitvectors bitvector_per_level num_bits_per_level start_level end_level buf =
     bind_res (fold_res (\<lambda>level. concat_level (bitvector_per_level ! level) (num_bits_per_level ! level))
                 [start_level..<end_level] (buf, 0, 0)) (\<lambda>(buf, _). Inr buf)"

text \<open>The constructor; \<open>end_level = 0\<close> stands for all levels.\<close>

definition make_bitvector :: "word_t list list \<Rightarrow> nat list \<Rightarrow> nat \<Rightarrow> nat \<Rightarrow> bitvector result" where
  "make_bitvector bitvector_per_level num_bits_per_level start_level end_level0 =
     (let end_level = (if end_level0 = 0 then length bitvector_per_level else end_level0)
      in if start_level < end_level \<and> min (length bitvector_per_level) (length num_bits_per_level) < end_level
         then Inl Undefined_behaviour
         else let n = totalNumBits num_bits_per_level start_level end_level
              in bind_res (concatenateBitvectors bitvector_per_level num_bits_per_level start_level end_level
                             (replicate (words_for n) 0)) (\<lambda>buf. Inr \<lparr>num_bits = n, bits = buf\<rparr>))"

section \<open>Concatenation\<close>

text \<open>\<open>holds_bits buf bs\<close>: the array holds the bits \<open>bs\<close>, then zeros.\<close>

definition holds_bits :: "word_t list \<Rightarrow> bool list \<Rightarrow> bool" where
  "holds_bits buf bs \<longleftrightarrow> length bs \<le> 64 * length buf \<and>
     all_bits buf = bs @ replicate (64 * length buf - length bs) False"

lemma holds_bits_replicate: "holds_bits (replicate n 0) []"
proof -
  have "word_bits 0 = replicate 64 False" by (intro nth_equalityI) simp_all
  then have "all_bits (replicate n 0) = replicate (64 * n) False"
    by (induction n) (simp_all add: replicate_add[symmetric])
  then show ?thesis by (simp add: holds_bits_def)
qed

lemma holds_bits_zeros:
  "holds_bits buf (bs @ replicate m False) \<longleftrightarrow> holds_bits buf bs \<and> length bs + m \<le> 64 * length buf"
  by (auto simp: holds_bits_def replicate_add[symmetric])

lemma all_bits_update:
  "i < length ws \<Longrightarrow> all_bits (ws[i := w]) = take (64 * i) (all_bits ws) @ word_bits w @ drop (64 * (i + 1)) (all_bits ws)"
  unfolding take_all_bits drop_all_bits by (simp add: upd_conv_take_nth_drop)

lemma word_bits_at: "i < length ws \<Longrightarrow> word_bits (ws ! i) = take 64 (drop (64 * i) (all_bits ws))"
  unfolding drop_all_bits by (simp add: Cons_nth_drop_Suc[symmetric])

lemma nth_word_at: "i < length ws \<Longrightarrow> j < 64 \<Longrightarrow> word_bits (ws ! i) ! j = all_bits ws ! (64 * i + j)"
  unfolding word_bits_at by (subst nth_take) (simp_all add: nth_drop)

lemma map2_or_disjoint:
  "length xs + length ys = 64 \<Longrightarrow> length xs = n \<Longrightarrow> length ys = m \<Longrightarrow>
   map2 (\<or>) (xs @ replicate m False) (replicate n False @ ys) = xs @ ys"
  by (intro nth_equalityI) (auto simp: nth_append)

lemma take_drop_append: "take n xs @ drop n xs @ ys = xs @ ys"
  using append_assoc[of "take n xs" "drop n xs" ys] by simp

lemma or_at_holds:
  assumes "holds_bits buf bs" "length bs = 64 * i + sh" "sh < 64" "i < length buf"
    and "word_bits w = replicate sh False @ cs"
  shows "\<exists>buf'. or_at i w buf = Inr buf' \<and> length buf' = length buf \<and> holds_bits buf' (bs @ cs)"
proof -
  have cs: "length cs = 64 - sh" using arg_cong[OF assms(5), of length] by simp
  have zeros: "64 * length buf - length bs = length cs + (64 * length buf - 64 * (i + 1))"
    using assms(2-4) cs by simp
  have buf: "all_bits buf = bs @ replicate (length cs) False @ replicate (64 * length buf - 64 * (i + 1)) False"
    using assms(1) zeros by (simp add: holds_bits_def replicate_add)
  have "word_bits (buf ! i) = drop (64 * i) bs @ replicate (64 - sh) False"
    unfolding word_bits_at[OF assms(4)] buf using assms(2,3) cs by simp
  then have "word_bits (buf ! i OR w) = drop (64 * i) bs @ cs"
    unfolding word_bits_or assms(5) using assms(2,3) cs map2_or_disjoint[of "drop (64 * i) bs" cs sh "64 - sh"] by simp
  then have "all_bits (buf[i := buf ! i OR w]) = bs @ cs @ replicate (64 * length buf - 64 * (i + 1)) False"
    unfolding all_bits_update[OF assms(4)] buf using assms(2,3) cs
    by (simp add: take_drop_append)
  then have "holds_bits (buf[i := buf ! i OR w]) (bs @ cs)"
    using assms(2-4) cs by (simp add: holds_bits_def)
  then show ?thesis using assms(4) by (simp add: or_at_def)
qed

text \<open>One word behind a shift: the first part goes into the current word, the rest into the next.\<close>

lemma concat_word_ok:
  assumes "holds_bits buf bs" "length bs = 64 * i + sh" "sh < 64" "length bs + 64 \<le> 64 * length buf"
  shows "\<exists>buf1 buf2. or_at i (drop_bit sh w) buf = Inr buf1 \<and>
    (if sh > 0 then or_at (i + 1) (push_bit (64 - sh) w) buf1 else Inr buf1) = Inr buf2 \<and>
    length buf2 = length buf \<and> holds_bits buf2 (bs @ word_bits w)"
proof -
  have i: "i < length buf" using assms(2,4) by linarith
  obtain buf1 where b1: "or_at i (drop_bit sh w) buf = Inr buf1" "length buf1 = length buf"
    "holds_bits buf1 (bs @ take (64 - sh) (word_bits w))"
    using or_at_holds[OF assms(1-3) i word_bits_drop_bit[of sh w]] assms(3) by auto
  show ?thesis
  proof (cases "sh > 0")
    case True
    have len: "length (bs @ take (64 - sh) (word_bits w)) = 64 * (i + 1) + 0" "i + 1 < length buf1"
      using assms(2-4) b1(2) True by auto
    have "word_bits (push_bit (64 - sh) w) = replicate 0 False @ drop (64 - sh) (word_bits w) @ replicate (64 - sh) False"
      using word_bits_push_bit[of "64 - sh" w] by simp
    from or_at_holds[OF b1(3) len(1) _ len(2) this] obtain buf2 where
      "or_at (i + 1) (push_bit (64 - sh) w) buf1 = Inr buf2" "length buf2 = length buf1"
      "holds_bits buf2 ((bs @ word_bits w) @ replicate (64 - sh) False)" by (auto simp: take_drop_append)
    then show ?thesis using b1 True holds_bits_zeros[of buf2 "bs @ word_bits w" "64 - sh"] by auto
  qed (use b1 in simp)
qed

lemma concat_words_ok:
  assumes "holds_bits buf bs" "length bs = 64 * i + sh" "sh < 64" "length bs + 64 * length ws \<le> 64 * length buf"
  shows "\<exists>buf'. concat_words ws (buf, i, sh) = Inr (buf', i + length ws, sh) \<and> length buf' = length buf \<and>
    holds_bits buf' (bs @ all_bits ws)"
  using assms
proof (induction ws arbitrary: buf bs i)
  case (Cons w ws)
  obtain buf1 buf2 where b: "or_at i (drop_bit sh w) buf = Inr buf1"
    "(if sh > 0 then or_at (i + 1) (push_bit (64 - sh) w) buf1 else Inr buf1) = Inr buf2"
    "length buf2 = length buf" "holds_bits buf2 (bs @ word_bits w)"
    using concat_word_ok[OF Cons.prems(1-3), of w] Cons.prems(4) by auto
  have "\<exists>buf'. concat_words ws (buf2, i + 1, sh) = Inr (buf', i + 1 + length ws, sh) \<and> length buf' = length buf2 \<and>
      holds_bits buf' ((bs @ word_bits w) @ all_bits ws)"
    by (rule Cons.IH[OF b(4)]) (use Cons.prems b(3) in auto)
  then show ?case using b(1-3) by auto
qed simp

text \<open>A level of the builder: enough words, and zeros behind its last bit.\<close>

definition level_ok :: "word_t list \<Rightarrow> nat \<Rightarrow> bool" where
  "level_ok ws n \<longleftrightarrow> n \<le> 64 * length ws \<and> True \<notin> set (drop n (all_bits ws))"

lemma level_last_word:
  assumes "level_ok ws n" "n mod 64 > 0"
  shows "n div 64 < length ws" "word_bits (ws ! (n div 64)) = take (n mod 64) (drop (64 * (n div 64)) (all_bits ws)) @ replicate (64 - n mod 64) False"
proof -
  let ?k = "n div 64" and ?r = "n mod 64"
  have n: "n = 64 * ?k + ?r" by simp
  have "64 * ?k < 64 * length ws" using assms n unfolding level_ok_def by linarith
  then show k: "?k < length ws" by simp
  have "\<not> word_bits (ws ! ?k) ! j" if "?r \<le> j" "j < 64" for j
  proof -
    have "word_bits (ws ! ?k) ! j = all_bits ws ! (64 * ?k + j)" using nth_word_at[OF k that(2)] .
    also have "64 * ?k + j = n + (j - ?r)" using that n by linarith
    also have "all_bits ws ! \<dots> = drop n (all_bits ws) ! (j - ?r)" using assms(1) by (simp add: level_ok_def)
    also have "\<dots> \<in> set (drop n (all_bits ws))"
    proof (rule nth_mem)
      have "n + (j - ?r) < 64 * length ws" using that n k by linarith
      then show "j - ?r < length (drop n (all_bits ws))" by simp
    qed
    finally show ?thesis using assms(1) by (auto simp: level_ok_def)
  qed
  then show "word_bits (ws ! ?k) = take ?r (drop (64 * ?k) (all_bits ws)) @ replicate (64 - ?r) False"
    using k by (intro nth_equalityI) (auto simp: nth_append nth_word_at simp del: nth_word_bits)
qed

lemma concat_level_ok:
  assumes "holds_bits buf bs" "length bs = 64 * i + sh" "sh < 64" "level_ok ws n" "length bs + n \<le> 64 * length buf"
    and "length bs + n < 64 * length buf \<or> n mod 64 = 0"
  shows "\<exists>buf' i' sh'. concat_level ws n (buf, i, sh) = Inr (buf', i', sh') \<and> length buf' = length buf \<and>
    holds_bits buf' (bs @ take n (all_bits ws)) \<and> length bs + n = 64 * i' + sh' \<and> sh' < 64"
proof (cases "n = 0")
  case False
  define k r where "k = n div 64" and "r = n mod 64"
  then have n: "n = 64 * k + r" "r < 64" and kr: "n div 64 = k" "n - k * 64 = r" by (simp_all add: modulo_nat_def)
  have "64 * k \<le> 64 * length ws" using assms(4) n(1) unfolding level_ok_def by linarith
  then have k: "k \<le> length ws" by simp
  have fits: "length bs + 64 * length (take k ws) \<le> 64 * length buf" using k n(1) assms(5) by simp
  obtain buf1 where b1: "concat_words (take k ws) (buf, i, sh) = Inr (buf1, i + k, sh)" "length buf1 = length buf"
    "holds_bits buf1 (bs @ take (64 * k) (all_bits ws))"
    using concat_words_ok[OF assms(1-3) fits] k by (auto simp: take_all_bits)
  show ?thesis
  proof (cases "r = 0")
    case True
    then show ?thesis using b1 k n kr assms(2,3) False by (simp add: concat_level_def Let_def)
  next
    case r0: False
    let ?bs = "bs @ take (64 * k) (all_bits ws)" and ?w = "ws ! k"
    let ?last = "take r (drop (64 * k) (all_bits ws))"
    note last = level_last_word[OF assms(4), folded k_def r_def]
    have len: "length ?bs = 64 * (i + k) + sh" using assms(2) k by simp
    have take: "take n (all_bits ws) = take (64 * k) (all_bits ws) @ ?last" using n(1) by (metis take_add)
    have lw: "word_bits ?w = ?last @ replicate (64 - r) False" "k < length ws" using last r0 by auto
    have "64 * (i + k) < 64 * length buf1" using assms(2,5) n(1) r0 unfolding b1(2) by simp
    then have i1: "i + k < length buf1" by simp
    obtain buf2 where b2: "or_at (i + k) (drop_bit sh ?w) buf1 = Inr buf2" "length buf2 = length buf1"
      "holds_bits buf2 (?bs @ take (64 - sh) (word_bits ?w))"
      using or_at_holds[OF b1(3) len assms(3) i1 word_bits_drop_bit[of sh ?w]] assms(3) by auto
    show ?thesis
    proof (cases "sh + r < 64")
      case True
      have "take (64 - sh) (word_bits ?w) = ?last @ replicate (64 - sh - r) False"
        unfolding lw(1) using True lw(2) by simp
      then have "holds_bits buf2 (bs @ take n (all_bits ws))"
        using b2(3) holds_bits_zeros[of buf2 "?bs @ ?last" "64 - sh - r"] by (simp add: take)
      then show ?thesis using b1 b2 k n kr assms(2) False r0 True lw(2) by (simp add: concat_level_def Let_def)
    next
      case shift: False
      have "length bs + n < 64 * length buf" using assms(6) r0 unfolding r_def by blast
      then have "64 * (i + k + 1) < 64 * length buf2" using shift assms(2) n(1) unfolding b2(2) b1(2) by simp
      then have i2: "i + k + 1 < length buf2" by simp
      have len2: "length (?bs @ take (64 - sh) (word_bits ?w)) = 64 * (i + k + 1) + 0" using len assms(3) by simp
      have "word_bits (push_bit (64 - sh) ?w) = replicate 0 False @ drop (64 - sh) (word_bits ?w) @ replicate (64 - sh) False"
        using word_bits_push_bit[of "64 - sh" ?w] by simp
      from or_at_holds[OF b2(3) len2 _ i2 this] obtain buf3 where b3:
        "or_at (i + k + 1) (push_bit (64 - sh) ?w) buf2 = Inr buf3" "length buf3 = length buf2"
        "holds_bits buf3 (?bs @ word_bits ?w @ replicate (64 - sh) False)" by (auto simp: take_drop_append)
      then have "holds_bits buf3 ((?bs @ ?last) @ replicate ((64 - r) + (64 - sh)) False)"
        unfolding lw(1) by (simp add: replicate_add)
      then have "holds_bits buf3 (bs @ take n (all_bits ws))" using holds_bits_zeros by (metis append_assoc take)
      then show ?thesis using b1 b2 b3 k n kr assms(2,3) False r0 shift lw(2)
        by (simp add: concat_level_def Let_def)
    qed
  qed
qed (use assms in \<open>simp add: concat_level_def\<close>)

text \<open>A level that ends exactly at the end of the array, in the middle of one of its own words, writes
  one word behind the array.\<close>

lemma word_boundary: "64 * a + s = 64 * b \<Longrightarrow> 0 < s \<Longrightarrow> s < 128 \<Longrightarrow> s = 64 \<and> a + 1 = b" for a b s :: nat
  by presburger

lemma concat_level_overrun:
  assumes "holds_bits buf bs" "length bs = 64 * i + sh" "sh < 64" "level_ok ws n" "length bs + n = 64 * length buf"
    and "n mod 64 \<noteq> 0"
  shows "concat_level ws n (buf, i, sh) = Inl Undefined_behaviour"
proof -
  define k r where "k = n div 64" and "r = n mod 64"
  then have n: "n = 64 * k + r" "r < 64" "r \<noteq> 0" and kr: "n div 64 = k" "n - k * 64 = r"
    using assms(6) by (simp_all add: modulo_nat_def)
  have k: "k < length ws" using level_last_word(1)[OF assms(4)] assms(6) kr(1) by simp
  have fits: "length bs + 64 * length (take k ws) \<le> 64 * length buf" using k n(1) assms(5) by simp
  obtain buf1 where b1: "concat_words (take k ws) (buf, i, sh) = Inr (buf1, i + k, sh)" "length buf1 = length buf"
    using concat_words_ok[OF assms(1-3) fits] k by auto
  have "64 * (i + k) + (sh + r) = 64 * length buf" using assms(2,5) n(1) by simp
  then have "sh + r = 64 \<and> i + k + 1 = length buf" using word_boundary[of "i + k" "sh + r"] n(2,3) assms(3) by simp
  then show ?thesis using b1 k kr n(3) by (auto simp: concat_level_def or_at_def Let_def)
qed

definition aligned_end :: "nat list \<Rightarrow> bool" where
  "aligned_end ns \<longleftrightarrow> (let used = filter (\<lambda>n. n \<noteq> 0) ns in used = [] \<or> last used mod 64 = 0)"

lemma aligned_end_Cons: "aligned_end (n # ns) \<longleftrightarrow> (if sum_list ns = 0 then n mod 64 = 0 else aligned_end ns)"
proof -
  have "filter (\<lambda>n. n \<noteq> 0) ns = [] \<longleftrightarrow> sum_list ns = 0" by (induction ns) auto
  then show ?thesis by (auto simp: aligned_end_def Let_def)
qed

lemma aligned_end_zero: "sum_list ns = 0 \<Longrightarrow> aligned_end ns"
  by (simp add: aligned_end_def filter_empty_conv)

lemma concat_levels_ok:
  assumes "holds_bits buf bs" "length bs = 64 * i + sh" "sh < 64" "\<forall>(ws, n) \<in> set levels. level_ok ws n"
    and "length bs + sum_list (map snd levels) \<le> 64 * length buf"
    and "length bs + sum_list (map snd levels) < 64 * length buf \<or> aligned_end (map snd levels)"
  shows "\<exists>buf' st. fold_res (\<lambda>(ws, n). concat_level ws n) levels (buf, i, sh) = Inr (buf', st) \<and> length buf' = length buf \<and>
    holds_bits buf' (bs @ concat (map (\<lambda>(ws, n). take n (all_bits ws)) levels))"
  using assms
proof (induction levels arbitrary: buf bs i sh)
  case (Cons x levels)
  obtain ws n where x: "x = (ws, n)" by (cases x)
  have le: "length bs + n \<le> 64 * length buf" using Cons.prems(5) by (simp add: x)
  have slack: "length bs + n < 64 * length buf \<or> n mod 64 = 0"
    using Cons.prems(5,6) by (auto simp: x aligned_end_Cons split: if_splits simp del: sum_list_eq_0_iff)
  have lv: "level_ok ws n" using Cons.prems(4) x by auto
  obtain buf' i' sh' where b: "concat_level ws n (buf, i, sh) = Inr (buf', i', sh')" "length buf' = length buf"
    "holds_bits buf' (bs @ take n (all_bits ws))" "length bs + n = 64 * i' + sh'" "sh' < 64"
    using concat_level_ok[OF Cons.prems(1-3) lv le slack] by blast
  have len: "length (bs @ take n (all_bits ws)) = 64 * i' + sh'" using b(4) lv by (simp add: level_ok_def)
  have "\<exists>buf2 st. fold_res (\<lambda>(ws, n). concat_level ws n) levels (buf', i', sh') = Inr (buf2, st) \<and> length buf2 = length buf' \<and>
      holds_bits buf2 ((bs @ take n (all_bits ws)) @ concat (map (\<lambda>(ws, n). take n (all_bits ws)) levels))"
  proof (rule Cons.IH[OF b(3) len b(5)])
    show "\<forall>(ws, n) \<in> set levels. level_ok ws n" using Cons.prems(4) by simp
    show "length (bs @ take n (all_bits ws)) + sum_list (map snd levels) \<le> 64 * length buf'"
      using Cons.prems(5) b(2,4) len by (simp add: x)
    show "length (bs @ take n (all_bits ws)) + sum_list (map snd levels) < 64 * length buf' \<or> aligned_end (map snd levels)"
      using Cons.prems(6) b(2,4) len unfolding x
      by (cases "sum_list (map snd levels) = 0") (auto simp: aligned_end_Cons aligned_end_zero simp del: sum_list_eq_0_iff)
  qed
  then show ?case using b(1,2) by (auto simp: x)
qed simp

lemma concat_levels_overrun:
  assumes "holds_bits buf bs" "length bs = 64 * i + sh" "sh < 64" "\<forall>(ws, n) \<in> set levels. level_ok ws n"
    and "length bs + sum_list (map snd levels) = 64 * length buf" "\<not> aligned_end (map snd levels)"
  shows "fold_res (\<lambda>(ws, n). concat_level ws n) levels (buf, i, sh) = Inl Undefined_behaviour"
  using assms
proof (induction levels arbitrary: buf bs i sh)
  case (Cons x levels)
  obtain ws n where x: "x = (ws, n)" by (cases x)
  have lv: "level_ok ws n" using Cons.prems(4) x by auto
  show ?case
  proof (cases "sum_list (map snd levels) = 0")
    case True
    then have "concat_level ws n (buf, i, sh) = Inl Undefined_behaviour"
      using concat_level_overrun[OF Cons.prems(1-3) lv] Cons.prems(5,6) by (simp add: x aligned_end_Cons del: sum_list_eq_0_iff)
    then show ?thesis by (simp add: x)
  next
    case False
    then have le: "length bs + n < 64 * length buf" using Cons.prems(5) by (simp add: x del: sum_list_eq_0_iff)
    obtain buf' i' sh' where b: "concat_level ws n (buf, i, sh) = Inr (buf', i', sh')" "length buf' = length buf"
      "holds_bits buf' (bs @ take n (all_bits ws))" "length bs + n = 64 * i' + sh'" "sh' < 64"
      using concat_level_ok[OF Cons.prems(1-3) lv] le by (metis less_imp_le_nat)
    have len: "length (bs @ take n (all_bits ws)) = 64 * i' + sh'" using b(4) lv by (simp add: level_ok_def)
    have "fold_res (\<lambda>(ws, n). concat_level ws n) levels (buf', i', sh') = Inl Undefined_behaviour"
      by (rule Cons.IH[OF b(3) len b(5)])
         (use Cons.prems(4-6) b(2,4) len False in \<open>auto simp: x aligned_end_Cons simp del: sum_list_eq_0_iff\<close>)
    then show ?thesis using b(1) by (simp add: x)
  qed
qed (simp add: aligned_end_def)

definition bv_bits :: "'m bitvector_scheme \<Rightarrow> bool list" where
  "bv_bits bv = take (num_bits bv) (all_bits (bits bv))"

definition bv_ok :: "'m bitvector_scheme \<Rightarrow> bool" where
  "bv_ok bv \<longleftrightarrow> length (bits bv) = numWords bv \<and> True \<notin> set (drop (num_bits bv) (all_bits (bits bv)))"

text \<open>The levels of a range of a builder's vectors, the constructor reading \<open>end_level = 0\<close> as all levels,
  and the condition on them: every level has the words its bits need, and the bits are fewer than \<open>2 ^ 32\<close>.\<close>

definition level_range :: "word_t list list \<Rightarrow> nat \<Rightarrow> nat \<Rightarrow> nat list" where
  "level_range per_level start_level end_level0 =
     [start_level..<(if end_level0 = 0 then length per_level else end_level0)]"

definition levels_ok :: "word_t list list \<Rightarrow> nat list \<Rightarrow> nat \<Rightarrow> nat \<Rightarrow> bool" where
  "levels_ok per_level counts start_level end_level0 \<longleftrightarrow>
     end_level0 \<le> length per_level \<and> length counts = length per_level \<and>
     sum_list (map (\<lambda>l. counts ! l) (level_range per_level start_level end_level0)) < 2 ^ 32 \<and>
     list_all (\<lambda>l. level_ok (per_level ! l) (counts ! l)) (level_range per_level start_level end_level0)"

lemma fold_res_map: "fold_res f (map g xs) s = fold_res (\<lambda>x. f (g x)) xs s"
  by (induction xs arbitrary: s) (auto intro!: bind_res_cong)

lemma words_for_bounds: "n \<le> 64 * words_for n" "64 * words_for n < n + 64" "64 * words_for n = n \<longleftrightarrow> n mod 64 = 0"
  unfolding words_for_def by (auto simp: algebra_simps) presburger+

lemma words_for_slack: "n mod 64 \<noteq> 0 \<Longrightarrow> n < 64 * words_for n"
  using words_for_bounds(1,3)[of n] by linarith

lemma foldl_add: "foldl (\<lambda>m x. m + f x) a xs = a + sum_list (map f xs)" for a :: nat
  by (induction xs arbitrary: a) auto

lemma foldl_add_mod: "a < M \<Longrightarrow> foldl (\<lambda>m x. (m + f x) mod M) a xs = (a + sum_list (map f xs)) mod M" for a :: nat
  by (induction xs arbitrary: a) (auto simp: mod_add_left_eq add.assoc)

lemma make_bitvector_ok:
  assumes "levels_ok per_level counts start_level end_level0"
  defines "ls \<equiv> level_range per_level start_level end_level0"
  defines "n \<equiv> sum_list (map (\<lambda>l. counts ! l) ls)"
  shows "n mod 64 \<noteq> 0 \<or> aligned_end (map (\<lambda>l. counts ! l) ls) \<Longrightarrow>
      \<exists>bv. make_bitvector per_level counts start_level end_level0 = Inr bv \<and> bv_ok bv \<and> num_bits bv = n \<and>
        bv_bits bv = concat (map (\<lambda>l. take (counts ! l) (all_bits (per_level ! l))) ls)"
    and "n mod 64 = 0 \<Longrightarrow> \<not> aligned_end (map (\<lambda>l. counts ! l) ls) \<Longrightarrow>
      make_bitvector per_level counts start_level end_level0 = Inl Undefined_behaviour"
proof -
  let ?levels = "map (\<lambda>l. (per_level ! l, counts ! l)) ls" and ?buf = "replicate (words_for n) (0::word_t)"
  have total: "foldl (\<lambda>m level. (m + counts ! level) mod 2 ^ 32) 0 ls = n"
    using assms(1) by (simp add: foldl_add_mod n_def ls_def levels_ok_def)
  have ok: "\<forall>(ws, n) \<in> set ?levels. level_ok ws n" using assms(1) by (auto simp: levels_ok_def ls_def list_all_iff)
  have snd: "map snd ?levels = map (\<lambda>l. counts ! l) ls" by simp
  have made: "make_bitvector per_level counts start_level end_level0 =
      bind_res (fold_res (\<lambda>(ws, n). concat_level ws n) ?levels (?buf, 0, 0)) (\<lambda>(buf, _). Inr \<lparr>num_bits = n, bits = buf\<rparr>)"
    using assms(1) total unfolding make_bitvector_def levels_ok_def ls_def level_range_def
    by (auto simp: concatenateBitvectors_def totalNumBits_def fold_res_map bind_res_assoc Let_def split_def)
  note h = holds_bits_replicate[of "words_for n"]
  show "\<exists>bv. make_bitvector per_level counts start_level end_level0 = Inr bv \<and> bv_ok bv \<and> num_bits bv = n \<and>
      bv_bits bv = concat (map (\<lambda>l. take (counts ! l) (all_bits (per_level ! l))) ls)"
    if used: "n mod 64 \<noteq> 0 \<or> aligned_end (map (\<lambda>l. counts ! l) ls)"
  proof -
    let ?bs = "concat (map (\<lambda>l. take (counts ! l) (all_bits (per_level ! l))) ls)"
    obtain buf st where r: "fold_res (\<lambda>(ws, n). concat_level ws n) ?levels (?buf, 0, 0) = Inr (buf, st)" "length buf = words_for n"
      "holds_bits buf ?bs"
    proof -
      have "n \<le> 64 * words_for n" by (rule words_for_bounds(1))
      moreover have "n < 64 * words_for n \<or> aligned_end (map (\<lambda>l. counts ! l) ls)"
        using words_for_slack used by blast
      ultimately show ?thesis
        using concat_levels_ok[OF h _ _ ok, of 0 0] that unfolding snd n_def[symmetric] by (auto simp: o_def)
    qed
    have "map (\<lambda>l. length (take (counts ! l) (all_bits (per_level ! l)))) ls = map (\<lambda>l. counts ! l) ls"
      using ok by (auto simp: level_ok_def)
    then have len: "length ?bs = n" unfolding length_concat n_def map_map o_def by metis
    then have "take n (all_bits buf) = ?bs" "True \<notin> set (drop n (all_bits buf))" using r(3) by (auto simp: holds_bits_def)
    then show ?thesis using made r(1,2) by (simp add: bv_ok_def bv_bits_def numWords_def)
  qed
  show "make_bitvector per_level counts start_level end_level0 = Inl Undefined_behaviour"
    if "n mod 64 = 0" "\<not> aligned_end (map (\<lambda>l. counts ! l) ls)"
    using made concat_levels_overrun[OF h _ _ ok, of 0 0] that words_for_bounds(3)[of n] unfolding snd n_def[symmetric] by simp
qed

section \<open>Reading and searching\<close>

lemma bv_ok_bits:
  assumes "bv_ok bv"
  shows "all_bits (bits bv) = bv_bits bv @ replicate (64 * length (bits bv) - num_bits bv) False"
    and "length (bv_bits bv) = num_bits bv" "num_bits bv \<le> 64 * length (bits bv)"
proof -
  show le: "num_bits bv \<le> 64 * length (bits bv)"
    using assms words_for_bounds(1)[of "num_bits bv"] by (simp add: bv_ok_def numWords_def)
  have "drop (num_bits bv) (all_bits (bits bv)) = replicate (64 * length (bits bv) - num_bits bv) False"
    by (rule replicate_eqI) (use assms in \<open>auto simp: bv_ok_def\<close>)
  then show "all_bits (bits bv) = bv_bits bv @ replicate (64 * length (bits bv) - num_bits bv) False"
    unfolding bv_bits_def by (metis append_take_drop_id)
  show "length (bv_bits bv) = num_bits bv" using le by (simp add: bv_bits_def)
qed

lemma bv_word:
  assumes "bv_ok bv" "pos < num_bits bv"
  shows "pos div 64 < length (bits bv)"
  using bv_ok_bits(3)[OF assms(1)] assms(2) by (simp add: less_mult_imp_div_less mult.commute)

lemma readBit_ok:
  assumes "bv_ok bv" "pos < num_bits bv"
  shows "readBit b pos bv = Inr (bv_bits bv ! pos)"
proof -
  have "bv_bits bv ! pos = all_bits (bits bv) ! pos" using assms(2) by (simp add: bv_bits_def)
  also have "\<dots> = bit (bits bv ! (pos div 64)) (63 - pos mod 64)"
    using bv_ok_bits(3)[OF assms(1)] assms(2) by (intro nth_all_bits) simp
  finally show ?thesis using bv_word[OF assms] assms(2) and_msb_shift[of "pos mod 64"]
    by (simp add: readBit_def cxx_assert_holds Let_def not_le)
qed

text \<open>The number of zeros before the first one.\<close>

definition zeros_run :: "bool list \<Rightarrow> nat" where
  "zeros_run bs = length (takeWhile Not bs)"

lemma zeros_run_append: "zeros_run (as @ bs) = (if True \<in> set as then zeros_run as else length as + zeros_run bs)"
  by (induction as) (auto simp: zeros_run_def)

lemma zeros_run_none: "True \<notin> set bs \<Longrightarrow> zeros_run bs = length bs"
  by (induction bs) (auto simp: zeros_run_def)

lemma zeros_run_first: "True \<in> set bs \<Longrightarrow> zeros_run bs < length bs \<and> bs ! zeros_run bs \<and> (\<forall>j < zeros_run bs. \<not> bs ! j)"
proof (induction bs)
  case (Cons b bs)
  then show ?case by (cases b) (auto simp: zeros_run_def nth_Cons split: nat.splits)
qed simp

lemma zeros_run_replicate [simp]: "zeros_run (replicate n False) = n"
  by (simp add: zeros_run_none)

lemma word_pos_iff: "(w::word_t) > 0 \<longleftrightarrow> True \<in> set (word_bits w)"
  using word_bits_zero[of w] word_gt_0[of w] by blast

lemma next_set_loop_eq: "next_set_loop ws d = d + zeros_run (all_bits ws)"
proof (induction ws arbitrary: d)
  case (Cons w ws)
  then show ?case by (auto simp: word_pos_iff zeros_run_append clz_def zeros_run_def[symmetric])
qed (simp add: zeros_run_def)

lemma prev_set_loop_eq: "prev_set_loop (rev ws) d = d + zeros_run (rev (all_bits ws))"
proof (induction ws arbitrary: d rule: rev_induct)
  case (snoc w ws)
  then show ?case by (auto simp: word_pos_iff zeros_run_append ctz_def zeros_run_def[symmetric])
qed (simp add: zeros_run_def)

lemma drop_all_bits_word:
  assumes "p div 64 < length ws"
  shows "drop p (all_bits ws) = drop (p mod 64) (word_bits (ws ! (p div 64))) @ all_bits (drop (p div 64 + 1) ws)"
proof -
  have "drop p (all_bits ws) = drop (p mod 64) (drop (64 * (p div 64)) (all_bits ws))" by simp
  also have "drop (64 * (p div 64)) (all_bits ws) = word_bits (ws ! (p div 64)) @ all_bits (drop (p div 64 + 1) ws)"
    unfolding drop_all_bits using assms by (simp add: Cons_nth_drop_Suc[symmetric])
  finally show ?thesis by simp
qed

lemma take_all_bits_word:
  assumes "p div 64 < length ws"
  shows "take (p + 1) (all_bits ws) = all_bits (take (p div 64) ws) @ take (p mod 64 + 1) (word_bits (ws ! (p div 64)))"
proof -
  have "p + 1 = 64 * (p div 64) + (p mod 64 + 1)" by simp
  then have "take (p + 1) (all_bits ws) = take (64 * (p div 64)) (all_bits ws) @ take (p mod 64 + 1) (drop (64 * (p div 64)) (all_bits ws))"
    by (metis take_add)
  then show ?thesis unfolding take_all_bits drop_all_bits using assms by (simp add: Cons_nth_drop_Suc[symmetric])
qed

lemma distanceToNextSetBit_ok:
  assumes "bv_ok bv" "pos + 1 < num_bits bv"
  defines "rest \<equiv> drop (pos + 1) (bv_bits bv)"
  shows "distanceToNextSetBit b pos bv = Inr (if True \<in> set rest then 1 + zeros_run rest
    else if (pos + 1) div 64 = numWords bv - 1 then num_bits bv - pos else 64 * numWords bv - pos)"
proof -
  let ?p = "pos + 1" and ?ws = "bits bv"
  let ?id = "?p div 64" and ?tail = "all_bits (drop (?p div 64 + 1) ?ws)"
  let ?head = "drop (?p mod 64) (word_bits (?ws ! ?id))" and ?test = "push_bit (?p mod 64) (?ws ! ?id)"
  have id: "?id < length ?ws" using bv_word[OF assms(1,2)] .
  have "rest @ replicate (64 * length ?ws - num_bits bv) False = drop ?p (all_bits ?ws)"
    unfolding rest_def bv_ok_bits(1)[OF assms(1)] using assms(2) bv_ok_bits(2)[OF assms(1)] by simp
  then have split: "rest @ replicate (64 * length ?ws - num_bits bv) False = ?head @ ?tail"
    using drop_all_bits_word[OF id] by simp
  have len: "length (?head @ ?tail) = 64 * numWords bv - ?p" "length rest = num_bits bv - ?p"
    using split[symmetric] assms(1,2) bv_ok_bits(2,3)[OF assms(1)] by (auto simp: rest_def bv_ok_def)
  have "True \<in> set rest \<longleftrightarrow> True \<in> set (rest @ replicate (64 * length ?ws - num_bits bv) False)" by simp
  then have mem: "True \<in> set rest \<longleftrightarrow> True \<in> set ?head \<or> True \<in> set ?tail" unfolding split by simp
  have run: "True \<in> set rest \<Longrightarrow> zeros_run rest = zeros_run (?head @ ?tail)"
    unfolding split[symmetric] by (simp add: zeros_run_append)
  have test: "?test > 0 \<longleftrightarrow> True \<in> set ?head" "?test > 0 \<Longrightarrow> clz ?test = zeros_run ?head"
    unfolding word_pos_iff clz_def zeros_run_def[symmetric] using word_bits_push_bit[of "?p mod 64" "?ws ! ?id"]
    by (auto simp: zeros_run_append)
  have last: "?tail = []" if "?id = numWords bv - 1" using that assms(1) id by (simp add: bv_ok_def)
  have res: "distanceToNextSetBit b pos bv = (if ?test > 0 then Inr (1 + clz ?test)
      else if ?id = numWords bv - 1 then Inr (num_bits bv - pos) else Inr (next_set_loop (drop (?id + 1) ?ws) (1 + (64 - ?p mod 64))))"
    using assms(2) id by (simp add: distanceToNextSetBit_def cxx_assert_holds Let_def not_le)
  consider "True \<in> set ?head" | "True \<notin> set ?head" "True \<in> set ?tail" | "True \<notin> set rest" using mem by blast
  then show ?thesis
  proof cases
    case 1
    then show ?thesis using res test mem run by (simp add: zeros_run_append)
  next
    case 2
    then have "?id \<noteq> numWords bv - 1" using last by auto
    then show ?thesis using 2 res test mem run by (auto simp: next_set_loop_eq zeros_run_append zeros_run_none)
  next
    case 3
    then have "zeros_run (?head @ ?tail) = 64 * numWords bv - ?p" using mem zeros_run_none len(1) by (metis Un_iff set_append)
    moreover have "zeros_run (?head @ ?tail) = 64 - ?p mod 64 + zeros_run ?tail" using 3 mem by (simp add: zeros_run_append)
    moreover have "?p \<le> 64 * numWords bv" using assms(1,2) bv_ok_bits(3)[OF assms(1)] by (simp add: bv_ok_def)
    ultimately have "1 + (64 - ?p mod 64) + zeros_run ?tail = 64 * numWords bv - pos" by linarith
    moreover have "\<not> ?test > 0" using 3 test(1) mem by blast
    ultimately show ?thesis unfolding res next_set_loop_eq using 3 by presburger
  qed
qed

lemma distanceToPrevSetBit_ok:
  assumes "bv_ok bv" "0 < pos" "pos \<le> num_bits bv"
  shows "distanceToPrevSetBit b pos bv = Inr (1 + zeros_run (rev (take pos (bv_bits bv))))"
proof -
  let ?p = "pos - 1" and ?ws = "bits bv"
  let ?id = "?p div 64" and ?r = "?p mod 64"
  let ?head = "take (?r + 1) (word_bits (?ws ! ?id))" and ?test = "drop_bit (63 - ?r) (?ws ! ?id)"
  have id: "?id < length ?ws" using bv_word[OF assms(1), of ?p] assms(2,3) by simp
  have "take pos (bv_bits bv) = take (?p + 1) (all_bits ?ws)" using assms(2,3) by (simp add: bv_bits_def)
  then have split: "rev (take pos (bv_bits bv)) = rev ?head @ rev (all_bits (take ?id ?ws))"
    using take_all_bits_word[OF id] by simp
  have r: "?r < 64" by simp
  have "word_bits ?test = replicate (63 - ?r) False @ ?head" using word_bits_drop_bit[of "63 - ?r" "?ws ! ?id"] r by simp
  then have test: "?test > 0 \<longleftrightarrow> True \<in> set ?head" "?test > 0 \<Longrightarrow> ctz ?test = zeros_run (rev ?head)"
    unfolding word_pos_iff ctz_def zeros_run_def[symmetric] by (auto simp: zeros_run_append)
  have len: "length ?head = ?r + 1" using r by simp
  have "distanceToPrevSetBit b pos bv = (if ?test > 0 then Inr (1 + ctz ?test)
      else Inr (prev_set_loop (rev (take ?id ?ws)) (1 + (?r + 1))))"
    using assms(2,3) id by (simp add: distanceToPrevSetBit_def cxx_assert_holds Let_def not_le)
  then show ?thesis using test len unfolding split by (auto simp: prev_set_loop_eq zeros_run_append)
qed

end
