(* ===== verification/SuRF_RankSelect.thy ===== *)
theory SuRF_RankSelect
  imports SuRF_Bits
begin

unbundle bit_operations_syntax

text \<open>
  Rank and select on the bit vectors of the trie: \<open>popcountLinear\<close> and \<open>select64_popcount_search\<close> of
  SuRF/include/popcount.h, \<open>BitvectorRank\<close> of rank.hpp with its table of counts before each block, and
  \<open>BitvectorSelect\<close> of select.hpp with its table of sampled positions. The references are
  \<open>ones\<close>, the number of ones in a list of bits, and \<open>kth_one\<close>, the position of the k-th one. The loop
  that fills the table of samples ends only for a positive sample interval, so it is a partial
  function; \<open>initSelectLut_ok\<close> shows that it ends for every positive one.
\<close>

section \<open>Rank\<close>

definition popcountLinear :: "word_t list \<Rightarrow> nat \<Rightarrow> nat \<Rightarrow> nat result" where
  "popcountLinear ws x nbits =
     (if nbits = 0 then Inr 0
      else let lastword = (nbits - 1) div 64
           in if length ws \<le> x + lastword then Inl Undefined_behaviour
              else let p = foldl (\<lambda>p i. p + popcount (ws ! (x + i))) 0 [0..<lastword];
                       lastshifted = drop_bit (63 - (nbits - 1) mod 64) (ws ! (x + lastword))
                   in Inr (p + popcount lastshifted))"

record bitvector_rank = bitvector +
  basic_block_size :: nat
  rank_lut :: "nat list"

fun init_rank_loop :: "word_t list \<Rightarrow> nat \<Rightarrow> nat \<Rightarrow> nat list \<Rightarrow> nat \<Rightarrow> nat list result" where
  "init_rank_loop ws word_per_basic_block block_size [] cumu_rank = Inr [cumu_rank]"
| "init_rank_loop ws word_per_basic_block block_size (i # is) cumu_rank =
     bind_res (popcountLinear ws (i * word_per_basic_block) block_size) (\<lambda>p.
     bind_res (init_rank_loop ws word_per_basic_block block_size is (cumu_rank + p)) (\<lambda>lut.
       Inr (cumu_rank # lut)))"

definition initRankLut :: "nat \<Rightarrow> 'm bitvector_scheme \<Rightarrow> nat list result" where
  "initRankLut block_size bv =
     (if block_size = 0 then Inl Undefined_behaviour
      else let num_blocks = num_bits bv div block_size + 1
           in init_rank_loop (bits bv) (block_size div 64) block_size [0..<num_blocks - 1] 0)"

definition make_bitvector_rank ::
  "nat \<Rightarrow> word_t list list \<Rightarrow> nat list \<Rightarrow> nat \<Rightarrow> nat \<Rightarrow> bitvector_rank result" where
  "make_bitvector_rank block_size per_level counts start_level end_level =
     bind_res (make_bitvector per_level counts start_level end_level) (\<lambda>bv.
     bind_res (initRankLut block_size bv) (\<lambda>lut.
       Inr (bitvector.extend bv \<lparr>basic_block_size = block_size, rank_lut = lut\<rparr>)))"

definition rank :: "build \<Rightarrow> nat \<Rightarrow> 'm bitvector_rank_scheme \<Rightarrow> nat result" where
  "rank b pos bv =
     cxx_assert b (pos \<le> num_bits bv)
       (let word_per_basic_block = basic_block_size bv div 64;
            block_id = pos div basic_block_size bv;
            offset = pos AND (basic_block_size bv - 1)
        in if basic_block_size bv = 0 \<or> length (rank_lut bv) \<le> block_id then Inl Undefined_behaviour
           else bind_res (popcountLinear (bits bv) (block_id * word_per_basic_block) (offset + 1)) (\<lambda>p.
                  Inr (rank_lut bv ! block_id + p)))"

lemma ones_all_bits: "ones (all_bits ws) = sum_list (map popcount ws)"
  by (induction ws) (simp_all add: popcount_def)

lemma popcountLinear_ok:
  assumes "64 * x + nbits \<le> 64 * length ws"
  shows "popcountLinear ws x nbits = Inr (ones (take nbits (drop (64 * x) (all_bits ws))))"
proof (cases "nbits = 0")
  case False
  let ?p = "nbits - 1" and ?ws = "drop x ws"
  let ?k = "?p div 64" and ?r = "?p mod 64"
  have k: "?k < length ?ws" using assms False by (simp add: less_mult_imp_div_less mult.commute)
  have "take nbits (drop (64 * x) (all_bits ws)) = take (?p + 1) (all_bits ?ws)" using False by (simp add: drop_all_bits)
  also have "\<dots> = all_bits (take ?k ?ws) @ take (?r + 1) (word_bits (?ws ! ?k))" by (rule take_all_bits_word[OF k])
  finally have split: "ones (take nbits (drop (64 * x) (all_bits ws))) =
      sum_list (map popcount (take ?k ?ws)) + ones (take (?r + 1) (word_bits (?ws ! ?k)))" by (simp add: ones_all_bits)
  have "map popcount (take ?k ?ws) = map (\<lambda>i. popcount (ws ! (x + i))) [0..<?k]"
    using k by (intro nth_equalityI) auto
  moreover have "popcount (drop_bit (63 - ?r) (ws ! (x + ?k))) = ones (take (?r + 1) (word_bits (?ws ! ?k)))"
  proof -
    have "?r < 64" by simp
    then show ?thesis using word_bits_drop_bit[of "63 - ?r" "ws ! (x + ?k)"] k by (simp add: popcount_def)
  qed
  moreover have "x + ?k < length ws" using k by simp
  ultimately show ?thesis using False split by (simp add: popcountLinear_def foldl_add Let_def not_le)
qed (simp add: popcountLinear_def)

text \<open>The table of a bit vector: entry \<open>i\<close> counts the ones before block \<open>i\<close>.\<close>

definition rank_ok :: "'m bitvector_rank_scheme \<Rightarrow> bool" where
  "rank_ok bv \<longleftrightarrow> bv_ok bv \<and> (\<exists>k \<ge> 6. basic_block_size bv = 2 ^ k) \<and>
     rank_lut bv = map (\<lambda>i. ones (take (i * basic_block_size bv) (bv_bits bv))) [0..<num_bits bv div basic_block_size bv + 1]"

lemma init_rank_loop_ok:
  assumes "block_size = 64 * wpb" "wpb * n \<le> length ws" "m \<le> n"
  shows "init_rank_loop ws wpb block_size [m..<n] (ones (take (m * block_size) (all_bits ws))) =
    Inr (map (\<lambda>i. ones (take (i * block_size) (all_bits ws))) [m..<n + 1])"
  using assms(3)
proof (induction "n - m" arbitrary: m)
  case 0
  then show ?case by simp
next
  case (Suc d)
  then have m: "m < n" "[m..<n] = m # [Suc m..<n]" by (simp_all add: upt_conv_Cons)
  have "wpb * Suc m \<le> length ws" using assms(2) m(1) by (meson Suc_leI le_trans mult_le_mono2)
  then have fits: "64 * (m * wpb) + block_size \<le> 64 * length ws" unfolding assms(1) by (simp add: algebra_simps)
  have "ones (take (m * block_size) (all_bits ws)) + ones (take block_size (drop (64 * (m * wpb)) (all_bits ws))) =
      ones (take (Suc m * block_size) (all_bits ws))"
  proof -
    have e: "64 * (m * wpb) = m * block_size" "Suc m * block_size = m * block_size + block_size" by (simp_all add: assms(1))
    show ?thesis unfolding e take_add by simp
  qed
  then show ?case using Suc.hyps(1)[of "Suc m"] Suc.hyps(2) m popcountLinear_ok[OF fits] by (simp add: upt_conv_Cons)
qed

lemma initRankLut_ok:
  assumes "bv_ok bv" "block_size = 2 ^ k" "6 \<le> k"
  shows "initRankLut block_size bv = Inr (map (\<lambda>i. ones (take (i * block_size) (bv_bits bv))) [0..<num_bits bv div block_size + 1])"
proof -
  let ?n = "num_bits bv div block_size" and ?wpb = "block_size div 64"
  have "block_size = 2 ^ 6 * 2 ^ (k - 6)" unfolding assms(2) power_add[symmetric] using assms(3) by simp
  then have size: "block_size = 64 * ?wpb" by simp
  have "64 * (?wpb * ?n) \<le> num_bits bv" using size times_div_less_eq_dividend[of block_size "num_bits bv"] by (metis mult.assoc)
  then have "64 * (?wpb * ?n) \<le> 64 * length (bits bv)" using bv_ok_bits(3)[OF assms(1)] by linarith
  then have "initRankLut block_size bv = Inr (map (\<lambda>i. ones (take (i * block_size) (all_bits (bits bv)))) [0..<?n + 1])"
    using init_rank_loop_ok[OF size, of ?n "bits bv" 0] assms(2) by (simp add: initRankLut_def)
  moreover have "take (i * block_size) (all_bits (bits bv)) = take (i * block_size) (bv_bits bv)" if "i < ?n + 1" for i
  proof -
    have "i * block_size \<le> ?n * block_size" using that by simp
    also have "\<dots> \<le> num_bits bv" by simp
    finally show ?thesis by (simp add: bv_bits_def min_def)
  qed
  ultimately show ?thesis by (simp cong: map_cong)
qed

lemma rank_exact:
  assumes "rank_ok bv" "pos < num_bits bv"
  shows "rank b pos bv = Inr (ones (take (pos + 1) (bv_bits bv)))"
proof -
  obtain k where k: "basic_block_size bv = 2 ^ k" "6 \<le> k" using assms(1) by (auto simp: rank_ok_def)
  have ok: "bv_ok bv" using assms(1) by (simp add: rank_ok_def)
  let ?s = "basic_block_size bv"
  let ?id = "pos div ?s" and ?off = "pos mod ?s"
  have "?s = 2 ^ 6 * 2 ^ (k - 6)" unfolding k(1) power_add[symmetric] using k(2) by simp
  then have size: "?s = 64 * (?s div 64)" by simp
  have off: "pos AND (?s - 1) = ?off" unfolding k(1) by (simp add: take_bit_eq_mod[symmetric] take_bit_eq_mask mask_eq_exp_minus_1)
  have pos: "64 * (?id * (?s div 64)) = ?id * ?s" using size by (metis mult.left_commute)
  have sum: "?id * ?s + (?off + 1) = pos + 1" by simp
  have "64 * (?id * (?s div 64)) + (?off + 1) \<le> 64 * length (bits bv)"
    unfolding pos sum using assms(2) bv_ok_bits(3)[OF ok] by simp
  then have "popcountLinear (bits bv) (?id * (?s div 64)) (?off + 1) = Inr (ones (take (?off + 1) (drop (?id * ?s) (all_bits (bits bv)))))"
    using popcountLinear_ok pos by metis
  moreover have lut: "?id < length (rank_lut bv)" "rank_lut bv ! ?id = ones (take (?id * ?s) (bv_bits bv))"
  proof -
    have "?id < num_bits bv div ?s + 1" using assms(2) div_le_mono[of pos "num_bits bv" ?s] by simp
    then show "?id < length (rank_lut bv)" "rank_lut bv ! ?id = ones (take (?id * ?s) (bv_bits bv))"
      using assms(1) by (simp_all add: rank_ok_def del: upt_Suc)
  qed
  moreover have "take (pos + 1) (bv_bits bv) = take (?id * ?s) (bv_bits bv) @ take (?off + 1) (drop (?id * ?s) (all_bits (bits bv)))"
  proof -
    have "take (pos + 1) (bv_bits bv) = take (?id * ?s + (?off + 1)) (all_bits (bits bv))"
      unfolding sum using assms(2) by (simp add: bv_bits_def)
    moreover have "take (?id * ?s) (all_bits (bits bv)) = take (?id * ?s) (bv_bits bv)"
      using assms(2) le_trans[OF div_times_less_eq_dividend less_imp_le_nat] by (simp add: bv_bits_def min_def)
    ultimately show ?thesis unfolding take_add by simp
  qed
  moreover have "0 < ?s" using k(1) by simp
  ultimately show ?thesis using assms(2) by (simp add: rank_def cxx_assert_holds off[unfolded One_nat_def] Let_def not_le)
qed

section \<open>Select in a word\<close>

fun select64_loop :: "nat list \<Rightarrow> word_t \<Rightarrow> int \<Rightarrow> int \<Rightarrow> int" where
  "select64_loop [] x loc k = loc + k"
| "select64_loop (testbits # ts) x loc k =
     (let lcount = int (popcount (drop_bit testbits x))
      in if k > lcount
         then select64_loop ts (x AND (push_bit testbits 1 - 1)) (loc + int testbits) (k - lcount)
         else select64_loop ts (drop_bit testbits x) loc k)"

definition select64_popcount_search :: "word_t \<Rightarrow> int \<Rightarrow> int" where
  "select64_popcount_search x k = select64_loop [32, 16, 8, 4, 2, 1] x (- 1) k"

fun kth_one :: "bool list \<Rightarrow> nat \<Rightarrow> nat" where
  "kth_one [] k = 0"
| "kth_one (b # bs) k = (if b then if k = 1 then 0 else Suc (kth_one bs (k - 1)) else Suc (kth_one bs k))"

lemma kth_one_spec:
  "0 < k \<Longrightarrow> k \<le> ones bs \<Longrightarrow> kth_one bs k < length bs \<and> bs ! kth_one bs k \<and> ones (take (kth_one bs k) bs) = k - 1"
proof (induction bs k rule: kth_one.induct)
  case (2 b bs k)
  then show ?case by (cases "b"; cases "k = 1") auto
qed simp

lemma kth_one_append:
  "0 < k \<Longrightarrow> k \<le> ones (as @ bs) \<Longrightarrow>
   kth_one (as @ bs) k = (if k \<le> ones as then kth_one as k else length as + kth_one bs (k - ones as))"
proof (induction as arbitrary: k)
  case (Cons a as)
  then show ?case by (cases a) (auto simp: Suc_diff_le not_le)
qed auto

lemma kth_one_unique:
  assumes "p < length bs" "bs ! p"
  shows "kth_one bs (ones (take p bs) + 1) = p"
  using assms
proof (induction bs arbitrary: p)
  case (Cons b bs)
  then show ?case by (cases p) auto
qed simp

text \<open>The low \<open>m\<close> bits of a word, the highest first.\<close>

definition low_bits :: "nat \<Rightarrow> word_t \<Rightarrow> bool list" where
  "low_bits m x = map (\<lambda>i. bit x (m - 1 - i)) [0..<m]"

lemma low_bits_halves:
  "low_bits (t + t) x = low_bits t (drop_bit t x) @ low_bits t x"
  by (intro nth_equalityI) (auto simp: low_bits_def nth_append bit_drop_bit_eq algebra_simps)

lemma popcount_low_bits:
  assumes "\<forall>n \<ge> m. \<not> bit x n" "m \<le> 64"
  shows "popcount x = ones (low_bits m x)"
proof -
  have "word_bits x = replicate (64 - m) False @ low_bits m x"
    using assms by (intro nth_equalityI) (auto simp: low_bits_def nth_append)
  then show ?thesis by (simp add: popcount_def)
qed

text \<open>\<open>selects m ts\<close>: the search with the halves \<open>ts\<close> is right on words of \<open>m\<close> bits.\<close>

definition selects :: "nat \<Rightarrow> nat list \<Rightarrow> bool" where
  "selects m ts \<longleftrightarrow> (\<forall>y loc j. (\<forall>n \<ge> m. \<not> bit y n) \<longrightarrow> 0 < j \<longrightarrow> j \<le> ones (low_bits m y) \<longrightarrow>
     select64_loop ts y loc (int j) = loc + 1 + int (kth_one (low_bits m y) j))"

lemma selects_double:
  assumes "selects t ts" "0 < t" "t + t \<le> 64"
  shows "selects (t + t) (t # ts)"
  unfolding selects_def
proof (intro allI impI)
  fix x loc and k :: nat
  assume x: "\<forall>n \<ge> t + t. \<not> bit x n" and k: "0 < k" "k \<le> ones (low_bits (t + t) x)"
  let ?hi = "drop_bit t x" and ?lo = "x AND (push_bit t 1 - 1)"
  have hi: "\<forall>n \<ge> t. \<not> bit ?hi n" using x by (simp add: bit_drop_bit_eq)
  have "push_bit t 1 - 1 = (mask t :: word_t)" by (simp add: mask_eq_exp_minus_1 push_bit_eq_mult)
  then have lo: "?lo = take_bit t x" by (simp add: take_bit_eq_mask)
  have lo_bits: "low_bits t ?lo = low_bits t x" "\<forall>n \<ge> t. \<not> bit ?lo n"
    unfolding lo using assms(2) by (auto simp: low_bits_def bit_take_bit_iff)
  have c: "popcount ?hi = ones (low_bits t ?hi)" using popcount_low_bits[OF hi] assms(3) by simp
  have halves: "low_bits (t + t) x = low_bits t ?hi @ low_bits t ?lo" unfolding lo_bits(1) by (rule low_bits_halves)
  have "k \<le> ones (low_bits t ?hi @ low_bits t ?lo)" using k(2) unfolding halves .
  note kth = kth_one_append[OF k(1) this, folded halves]
  show "select64_loop (t # ts) x loc (int k) = loc + 1 + int (kth_one (low_bits (t + t) x) k)"
  proof (cases "k \<le> ones (low_bits t ?hi)")
    case True
    then have "select64_loop ts ?hi loc (int k) = loc + 1 + int (kth_one (low_bits t ?hi) k)"
      using assms(1) hi k(1) unfolding selects_def by blast
    then show ?thesis using True kth c by simp
  next
    case False
    let ?j = "k - ones (low_bits t ?hi)"
    have len: "length (low_bits t ?hi) = t" by (simp add: low_bits_def)
    have j: "0 < ?j" "?j \<le> ones (low_bits t ?lo)" using k(2) False unfolding halves by simp_all
    have "select64_loop ts ?lo (loc + int t) (int ?j) = loc + int t + 1 + int (kth_one (low_bits t ?lo) ?j)"
      using assms(1) lo_bits(2) j unfolding selects_def by blast
    then show ?thesis using False kth c len by (simp add: of_nat_diff not_le)
  qed
qed

lemma select64_exact:
  assumes "0 < k" "k \<le> popcount x"
  shows "select64_popcount_search x (int k) = int (kth_one (word_bits x) k)"
proof -
  have e: "(1::nat) + 1 = 2" "(2::nat) + 2 = 4" "(4::nat) + 4 = 8" "(8::nat) + 8 = 16" "(16::nat) + 16 = 32"
    "(32::nat) + 32 = 64" by simp_all
  have "selects 1 []" by (auto simp: selects_def low_bits_def split: if_splits)
  then have "selects 2 [1]" using selects_double[of 1] unfolding e by simp
  then have "selects 4 [2, 1]" using selects_double[of 2] unfolding e by simp
  then have "selects 8 [4, 2, 1]" using selects_double[of 4] unfolding e by simp
  then have "selects 16 [8, 4, 2, 1]" using selects_double[of 8] unfolding e by simp
  then have "selects 32 [16, 8, 4, 2, 1]" using selects_double[of 16] unfolding e by simp
  then have all: "selects 64 [32, 16, 8, 4, 2, 1]" using selects_double[of 32] unfolding e by simp
  have full: "word_bits x = low_bits 64 x" by (simp add: word_bits_def low_bits_def)
  have "\<forall>n \<ge> 64. \<not> bit x n" by (auto dest: bit_imp_le_length)
  then show ?thesis using all assms unfolding selects_def select64_popcount_search_def popcount_def full by fastforce
qed

section \<open>Select\<close>

record bitvector_select = bitvector +
  sample_interval :: nat
  num_ones :: nat
  select_lut :: "nat list"

text \<open>The inner loop of \<open>initSelectLut\<close> on word \<open>i\<close>; \<open>cumu\<close> counts the ones before the word.\<close>

partial_function (option) sample_loop ::
  "nat \<Rightarrow> nat \<Rightarrow> word_t \<Rightarrow> nat \<Rightarrow> nat \<Rightarrow> nat list \<Rightarrow> (nat list \<times> nat) option" where
  "sample_loop interval i w cumu sampling_ones lut =
     (if sampling_ones \<le> cumu + popcount w
      then sample_loop interval i w cumu (sampling_ones + interval)
             (lut @ [i * 64 + nat (select64_popcount_search w (int sampling_ones - int cumu))])
      else Some (lut, sampling_ones))"

fun init_select_loop ::
  "nat \<Rightarrow> (nat \<times> word_t) list \<Rightarrow> nat list \<times> nat \<times> nat \<Rightarrow> (nat list \<times> nat) option" where
  "init_select_loop interval [] (lut, sampling_ones, cumu) = Some (lut, cumu)"
| "init_select_loop interval ((i, w) # ws) (lut, sampling_ones, cumu) =
     (case sample_loop interval i w cumu sampling_ones lut of
        None \<Rightarrow> None
      | Some (lut, sampling_ones) \<Rightarrow> init_select_loop interval ws (lut, sampling_ones, cumu + popcount w))"

definition initSelectLut :: "nat \<Rightarrow> 'm bitvector_scheme \<Rightarrow> (nat list \<times> nat) option" where
  "initSelectLut interval bv =
     init_select_loop interval (enumerate 0 (take (numWords bv) (bits bv))) ([0], interval, 0)"

definition make_bitvector_select ::
  "nat \<Rightarrow> word_t list list \<Rightarrow> nat list \<Rightarrow> nat \<Rightarrow> nat \<Rightarrow> bitvector_select option result" where
  "make_bitvector_select interval per_level counts start_level end_level =
     bind_res (make_bitvector per_level counts start_level end_level) (\<lambda>bv.
       Inr (case initSelectLut interval bv of
              None \<Rightarrow> None
            | Some (lut, n) \<Rightarrow> Some (bitvector.extend bv \<lparr>sample_interval = interval, num_ones = n, select_lut = lut\<rparr>)))"

fun select_loop :: "word_t list \<Rightarrow> nat \<Rightarrow> word_t \<Rightarrow> nat \<Rightarrow> nat result" where
  "select_loop ws word_id word rank_left =
     (if popcount word < rank_left
      then case ws of [] \<Rightarrow> Inl Undefined_behaviour
           | w # ws' \<Rightarrow> select_loop ws' (word_id + 1) w (rank_left - popcount word)
      else Inr (word_id * 64 + nat (select64_popcount_search word (int rank_left))))"

definition select :: "build \<Rightarrow> nat \<Rightarrow> 'm bitvector_select_scheme \<Rightarrow> nat result" where
  "select b r bv =
     cxx_assert b (r > 0) (cxx_assert b (r \<le> num_ones bv + 1)
       (let lut_idx = r div sample_interval bv;
            rank_left = (if lut_idx = 0 then r mod sample_interval bv - 1 else r mod sample_interval bv)
        in if sample_interval bv = 0 \<or> length (select_lut bv) \<le> lut_idx then Inl Undefined_behaviour
           else let pos = select_lut bv ! lut_idx
                in if rank_left = 0 then Inr pos
                   else let word_id = (if pos mod 64 = 63 then pos div 64 + 1 else pos div 64);
                            offset = (if pos mod 64 = 63 then 0 else pos mod 64 + 1)
                        in if length (bits bv) \<le> word_id then Inl Undefined_behaviour
                           else select_loop (drop (word_id + 1) (bits bv)) word_id
                                  (drop_bit offset (push_bit offset (bits bv ! word_id))) rank_left))"

declare select_loop.simps [simp del]

definition select_ok :: "'m bitvector_select_scheme \<Rightarrow> bool" where
  "select_ok bv \<longleftrightarrow> bv_ok bv \<and> 0 < sample_interval bv \<and> num_ones bv = ones (bv_bits bv) \<and>
     select_lut bv = 0 # map (\<lambda>j. kth_one (bv_bits bv) (j * sample_interval bv)) [1..<num_ones bv div sample_interval bv + 1]"

lemma sample_loop_ok:
  assumes "0 < interval" "length bs = 64 * i" "ones bs < m * interval" "m \<le> ones (bs @ word_bits w) div interval + 1"
  shows "sample_loop interval i w (ones bs) (m * interval) lut =
    Some (lut @ map (\<lambda>j. kth_one (bs @ word_bits w) (j * interval)) [m..<ones (bs @ word_bits w) div interval + 1],
          (ones (bs @ word_bits w) div interval + 1) * interval)"
  using assms(3,4)
proof (induction "ones (bs @ word_bits w) div interval + 1 - m" arbitrary: m lut)
  case 0
  then have m: "m = ones (bs @ word_bits w) div interval + 1" by simp
  have "ones (bs @ word_bits w) < (ones (bs @ word_bits w) div interval + 1) * interval"
    using dividend_less_div_times[OF assms(1)] by simp
  then have "\<not> m * interval \<le> ones bs + popcount w" unfolding m by (simp add: popcount_def)
  then show ?case by (subst sample_loop.simps) (simp add: m)
next
  case (Suc d)
  let ?bs = "bs @ word_bits w"
  have m: "m \<le> ones ?bs div interval" using Suc.hyps(2) by simp
  then have le: "m * interval \<le> ones ?bs" using assms(1) less_eq_div_iff_mult_less_eq by blast
  have "select64_popcount_search w (int (m * interval - ones bs)) = int (kth_one (word_bits w) (m * interval - ones bs))"
    by (rule select64_exact) (use le Suc.prems(1) in \<open>auto simp: popcount_def\<close>)
  moreover have pos: "0 < m * interval" using Suc.prems(1) by linarith
  moreover have "kth_one ?bs (m * interval) = 64 * i + kth_one (word_bits w) (m * interval - ones bs)"
    using kth_one_append[OF pos le] Suc.prems(1) assms(2) by simp
  ultimately have "i * 64 + nat (select64_popcount_search w (int (m * interval) - int (ones bs))) = kth_one ?bs (m * interval)"
    using Suc.prems(1) by (simp add: of_nat_diff)
  moreover have "sample_loop interval i w (ones bs) (Suc m * interval) (lut @ [kth_one ?bs (m * interval)]) =
      Some ((lut @ [kth_one ?bs (m * interval)]) @ map (\<lambda>j. kth_one ?bs (j * interval)) [Suc m..<ones ?bs div interval + 1],
        (ones ?bs div interval + 1) * interval)"
    by (rule Suc.hyps(1)) (use Suc.hyps(2) Suc.prems(1) m in auto)
  ultimately show ?case using le m
    by (subst sample_loop.simps) (simp add: popcount_def upt_conv_Cons add.commute del: upt_Suc)
qed

lemma init_select_loop_ok:
  assumes "0 < interval" "length bs = 64 * i"
  shows "init_select_loop interval (enumerate i ws)
      (0 # map (\<lambda>j. kth_one bs (j * interval)) [1..<ones bs div interval + 1], (ones bs div interval + 1) * interval, ones bs) =
    Some (0 # map (\<lambda>j. kth_one (bs @ all_bits ws) (j * interval)) [1..<ones (bs @ all_bits ws) div interval + 1],
      ones (bs @ all_bits ws))"
  using assms(2)
proof (induction ws arbitrary: i bs)
  case (Cons w ws)
  let ?bs = "bs @ word_bits w" and ?m = "ones bs div interval + 1"
  have "ones bs < ?m * interval" using dividend_less_div_times[OF assms(1)] by simp
  moreover have m: "?m \<le> ones ?bs div interval + 1" by (simp add: div_le_mono)
  ultimately have loop: "sample_loop interval i w (ones bs) (?m * interval) lut =
      Some (lut @ map (\<lambda>j. kth_one ?bs (j * interval)) [?m..<ones ?bs div interval + 1], (ones ?bs div interval + 1) * interval)" for lut
    using sample_loop_ok[OF assms(1) Cons.prems] by blast
  have "kth_one bs (j * interval) = kth_one ?bs (j * interval)" if "j \<in> set [1..<?m]" for j
  proof -
    have j: "0 < j * interval" "j * interval \<le> ones bs" using that assms(1) less_eq_div_iff_mult_less_eq[OF assms(1), of j "ones bs"] by auto
    then show ?thesis using kth_one_append[of "j * interval" bs "word_bits w"] by simp
  qed
  then have "map (\<lambda>j. kth_one bs (j * interval)) [1..<?m] @ map (\<lambda>j. kth_one ?bs (j * interval)) [?m..<ones ?bs div interval + 1] =
      map (\<lambda>j. kth_one ?bs (j * interval)) ([1..<?m] @ [?m..<ones ?bs div interval + 1])" by simp
  also have "[1..<?m] @ [?m..<ones ?bs div interval + 1] = [1..<ones ?bs div interval + 1]"
    using m by (metis le_add2 le_add_diff_inverse upt_add_eq_append)
  finally show ?case using Cons.IH[of ?bs "Suc i"] Cons.prems loop by (simp add: popcount_def del: upt_Suc)
qed simp

lemma initSelectLut_ok:
  assumes "bv_ok bv" "0 < interval"
  shows "initSelectLut interval bv =
    Some (0 # map (\<lambda>j. kth_one (bv_bits bv) (j * interval)) [1..<ones (bv_bits bv) div interval + 1], ones (bv_bits bv))"
proof -
  have all: "all_bits (bits bv) = bv_bits bv @ replicate (64 * length (bits bv) - num_bits bv) False"
    by (rule bv_ok_bits(1)[OF assms(1)])
  have "kth_one (all_bits (bits bv)) (j * interval) = kth_one (bv_bits bv) (j * interval)"
    if "j \<in> set [1..<ones (bv_bits bv) div interval + 1]" for j
  proof -
    have j: "0 < j * interval" "j * interval \<le> ones (bv_bits bv)"
      using that assms less_eq_div_iff_mult_less_eq[OF assms(2), of j "ones (bv_bits bv)"] by auto
    then show ?thesis unfolding all using kth_one_append[of "j * interval" "bv_bits bv"] by simp
  qed
  moreover have "ones (all_bits (bits bv)) = ones (bv_bits bv)" unfolding all by simp
  moreover have "take (numWords bv) (bits bv) = bits bv" using assms(1) by (simp add: bv_ok_def)
  ultimately show ?thesis using init_select_loop_ok[OF assms(2), of "[]" 0 "bits bv"]
    by (simp add: initSelectLut_def del: upt_Suc cong: map_cong)
qed

lemma select_loop_ok:
  assumes "0 < r" "r \<le> ones (word_bits word @ all_bits ws)"
  shows "select_loop ws word_id word r = Inr (word_id * 64 + kth_one (word_bits word @ all_bits ws) r)"
  using assms
proof (induction ws arbitrary: word_id word r)
  case Nil
  then show ?case using select64_exact[of r word] by (subst select_loop.simps) (simp add: popcount_def)
next
  case (Cons w ws)
  show ?case
  proof (cases "popcount word < r")
    case True
    have "select_loop ws (word_id + 1) w (r - popcount word) =
        Inr ((word_id + 1) * 64 + kth_one (word_bits w @ all_bits ws) (r - popcount word))"
      by (rule Cons.IH) (use Cons.prems True in \<open>auto simp: popcount_def\<close>)
    then show ?thesis using True Cons.prems kth_one_append[OF Cons.prems]
      by (subst select_loop.simps) (simp add: popcount_def)
  next
    case False
    then show ?thesis using select64_exact[of r word] Cons.prems kth_one_append[OF Cons.prems]
      by (subst select_loop.simps) (simp add: popcount_def)
  qed
qed

lemma kth_one_drop:
  assumes "k \<le> ones bs" "p \<le> length bs" "ones (take p bs) = c" "c < k"
  shows "kth_one bs k = p + kth_one (drop p bs) (k - c)"
  using kth_one_append[of k "take p bs" "drop p bs"] assms by simp

lemma kth_one_zeros: "0 < k \<Longrightarrow> k \<le> ones bs \<Longrightarrow> kth_one (replicate n False @ bs) k = n + kth_one bs k"
  by (induction n) auto

lemma next_position: "(if p mod 64 = 63 then p div 64 + 1 else p div 64) = (p + 1) div 64"
  "(if p mod 64 = 63 then 0 else p mod 64 + 1) = (p + 1) mod (64::nat)"
  by (simp_all add: div_Suc mod_Suc)

lemma select_from_sample:
  fixes bv :: "'m bitvector_scheme"
  defines "bs \<equiv> bv_bits bv" and "ws \<equiv> bits bv"
  assumes ok: "bv_ok bv" and c: "0 < c" "0 < l" "c + l \<le> ones bs" and p: "p = kth_one bs c + 1"
  shows "p div 64 < length ws"
    "select_loop (drop (p div 64 + 1) ws) (p div 64) (drop_bit (p mod 64) (push_bit (p mod 64) (ws ! (p div 64)))) l =
       Inr (kth_one bs (c + l))"
proof -
  let ?word = "drop_bit (p mod 64) (push_bit (p mod 64) (ws ! (p div 64)))" and ?rest = "all_bits (drop (p div 64 + 1) ws)"
  let ?pad = "replicate (64 * length ws - num_bits bv) False"
  have spec: "kth_one bs c < length bs" "bs ! kth_one bs c" "ones (take (kth_one bs c) bs) = c - 1"
    using kth_one_spec[of c bs] c by linarith+
  then have cp: "ones (take p bs) = c" using c(1) p by (simp add: take_Suc_conv_app_nth)
  have left: "l \<le> ones (drop p bs)"
    using c(3) cp ones_simps(3)[of "take p bs" "drop p bs"] unfolding append_take_drop_id by linarith
  have kth: "kth_one bs (c + l) = p + kth_one (drop p bs) l"
    using kth_one_drop[of "c + l" bs p c] cp c spec(1) p by simp
  have "drop p bs \<noteq> []" using left c(2) by auto
  then have pn: "p < num_bits bv" using bv_ok_bits(2)[OF ok] by (simp add: bs_def)
  then show id: "p div 64 < length ws" using bv_word[OF ok pn] by (simp add: ws_def)
  have wb: "word_bits ?word = replicate (p mod 64) False @ drop (p mod 64) (word_bits (ws ! (p div 64)))"
    using word_bits_drop_bit[of "p mod 64"] word_bits_push_bit[of "p mod 64" "ws ! (p div 64)"] by (simp add: less_imp_le)
  have rest: "drop (p mod 64) (word_bits (ws ! (p div 64))) @ ?rest = drop p bs @ ?pad"
    using drop_all_bits_word[OF id] bv_ok_bits(1,2)[OF ok] pn by (simp add: bs_def ws_def)
  have le: "l \<le> ones (drop p bs @ ?pad)" using left by simp
  have "l \<le> ones (word_bits ?word @ ?rest)" unfolding wb append_assoc rest using le by simp
  from select_loop_ok[OF c(2) this]
  have "select_loop (drop (p div 64 + 1) ws) (p div 64) ?word l = Inr (p div 64 * 64 + (p mod 64 + kth_one (drop p bs) l))"
    unfolding wb append_assoc rest kth_one_zeros[OF c(2) le] kth_one_append[OF c(2) le] using left by simp
  then show "select_loop (drop (p div 64 + 1) ws) (p div 64) ?word l = Inr (kth_one bs (c + l))"
    unfolding kth by simp
qed

lemma select_lut_nth:
  assumes "select_ok bv" "hd (bv_bits bv)" "0 < r" "r \<le> num_ones bv"
  defines "l \<equiv> if r div sample_interval bv = 0 then r mod sample_interval bv - 1 else r mod sample_interval bv"
  shows "r div sample_interval bv < length (select_lut bv)"
    "\<exists>c. select_lut bv ! (r div sample_interval bv) = kth_one (bv_bits bv) c \<and> 0 < c \<and> r = c + l"
proof -
  let ?bs = "bv_bits bv" and ?v = "sample_interval bv"
  have ok: "0 < ?v" "num_ones bv = ones ?bs"
    and lut: "select_lut bv = 0 # map (\<lambda>j. kth_one ?bs (j * ?v)) [1..<num_ones bv div ?v + 1]"
    using assms(1) by (auto simp: select_ok_def)
  have idx: "r div ?v < num_ones bv div ?v + 1" using div_le_mono[OF assms(4), of ?v] by simp
  then show "r div ?v < length (select_lut bv)" unfolding lut by (simp del: upt_Suc)
  show "\<exists>c. select_lut bv ! (r div ?v) = kth_one ?bs c \<and> 0 < c \<and> r = c + l"
  proof (cases "r div ?v = 0")
    case True
    have "kth_one ?bs 1 = 0" using assms(2-4) ok(2) by (cases ?bs) auto
    moreover have "r mod ?v = r" using True ok(1) by (simp add: div_eq_0_iff)
    ultimately show ?thesis using True lut assms(3) by (intro exI[of _ 1]) (simp add: l_def)
  next
    case False
    then have "select_lut bv ! (r div ?v) = kth_one ?bs (r div ?v * ?v)"
      using idx nth_upt[of 1 "r div ?v - 1" "num_ones bv div ?v + 1"] unfolding lut
      by (simp add: nth_Cons' del: upt_Suc)
    then show ?thesis using False ok(1) by (intro exI[of _ "r div ?v * ?v"]) (simp add: l_def)
  qed
qed

lemma select_exact:
  assumes "select_ok bv" "hd (bv_bits bv)" "0 < r" "r \<le> num_ones bv"
  shows "select b r bv = Inr (kth_one (bv_bits bv) r)"
proof -
  define l where "l = (if r div sample_interval bv = 0 then r mod sample_interval bv - 1 else r mod sample_interval bv)"
  have ok: "bv_ok bv" "num_ones bv = ones (bv_bits bv)" "0 < sample_interval bv" using assms(1) by (auto simp: select_ok_def)
  obtain c where c: "select_lut bv ! (r div sample_interval bv) = kth_one (bv_bits bv) c" "0 < c" "r = c + l"
    using select_lut_nth(2)[OF assms] unfolding l_def by blast
  define p where "p = kth_one (bv_bits bv) c + 1"
  have "select b r bv = (if l = 0 then Inr (kth_one (bv_bits bv) c)
      else if length (bits bv) \<le> p div 64 then Inl Undefined_behaviour
      else select_loop (drop (p div 64 + 1) (bits bv)) (p div 64) (drop_bit (p mod 64) (push_bit (p mod 64) (bits bv ! (p div 64)))) l)"
    using assms(3,4) select_lut_nth(1)[OF assms] ok(3) unfolding select_def next_position l_def[symmetric] Let_def c(1) p_def
    by (simp add: cxx_assert_holds)
  also have "\<dots> = Inr (kth_one (bv_bits bv) r)"
    using select_from_sample[OF ok(1) c(2) _ _ p_def, of l] assms(4) c(3) ok(2) by (cases "l = 0") simp_all
  finally show ?thesis .
qed

section \<open>The vectors of a trie\<close>

definition all_level_bits :: "word_t list list \<Rightarrow> nat list \<Rightarrow> nat \<Rightarrow> nat \<Rightarrow> bool list" where
  "all_level_bits per_level counts start_level end_level =
     concat (map (\<lambda>l. take (counts ! l) (all_bits (per_level ! l))) (level_range per_level start_level end_level))"

definition level_counts :: "word_t list list \<Rightarrow> nat list \<Rightarrow> nat \<Rightarrow> nat \<Rightarrow> nat list" where
  "level_counts per_level counts start_level end_level = map (\<lambda>l. counts ! l) (level_range per_level start_level end_level)"

definition fits_array :: "nat list \<Rightarrow> bool" where
  "fits_array ns \<longleftrightarrow> sum_list ns mod 64 \<noteq> 0 \<or> aligned_end ns"

lemma bv_extend [simp]:
  "num_bits (bitvector.extend bv r) = num_bits bv" "bits (bitvector.extend bv r) = bits bv"
  by (simp_all add: bitvector.defs)

lemma bv_extend_fields [simp]:
  "basic_block_size (bitvector.extend bv \<lparr>basic_block_size = k, rank_lut = lut\<rparr>) = k"
  "rank_lut (bitvector.extend bv \<lparr>basic_block_size = k, rank_lut = lut\<rparr>) = lut"
  "sample_interval (bitvector.extend bv \<lparr>sample_interval = k, num_ones = n, select_lut = lut\<rparr>) = k"
  "num_ones (bitvector.extend bv \<lparr>sample_interval = k, num_ones = n, select_lut = lut\<rparr>) = n"
  "select_lut (bitvector.extend bv \<lparr>sample_interval = k, num_ones = n, select_lut = lut\<rparr>) = lut"
  by (simp_all add: bitvector.defs)

lemma bv_extend_ok [simp]: "bv_ok (bitvector.extend bv r) = bv_ok bv" "bv_bits (bitvector.extend bv r) = bv_bits bv"
  by (simp_all add: bv_ok_def bv_bits_def numWords_def)

lemma constructors_ok:
  assumes "levels_ok per_level counts start_level end_level" "fits_array (level_counts per_level counts start_level end_level)"
  shows "\<exists>rv sv. make_bitvector_rank 512 per_level counts start_level end_level = Inr rv \<and> rank_ok rv \<and>
    make_bitvector_select 64 per_level counts start_level end_level = Inr (Some sv) \<and> select_ok sv \<and>
    bv_bits rv = all_level_bits per_level counts start_level end_level \<and>
    bv_bits sv = all_level_bits per_level counts start_level end_level"
proof -
  obtain bv where bv: "make_bitvector per_level counts start_level end_level = Inr bv" "bv_ok bv"
    "bv_bits bv = all_level_bits per_level counts start_level end_level"
    using make_bitvector_ok(1)[OF assms(1)] assms(2) unfolding fits_array_def level_counts_def all_level_bits_def by blast
  have "initRankLut 512 bv = Inr (map (\<lambda>i. ones (take (i * 512) (bv_bits bv))) [0..<num_bits bv div 512 + 1])"
    using initRankLut_ok[OF bv(2), of 512 9] by simp
  moreover have "\<exists>k\<ge>6. (512::nat) = 2 ^ k" by (intro exI[of _ 9]) simp
  moreover have "initSelectLut 64 bv =
      Some (0 # map (\<lambda>j. kth_one (bv_bits bv) (j * 64)) [1..<ones (bv_bits bv) div 64 + 1], ones (bv_bits bv))"
    by (rule initSelectLut_ok[OF bv(2)]) simp
  ultimately show ?thesis using bv
    by (simp add: make_bitvector_rank_def make_bitvector_select_def rank_ok_def select_ok_def del: upt_Suc)
qed

text \<open>C35: the constructors establish the invariants. For levels whose words hold their bits and whose
  concatenation fits the array, the constructors of the two kinds of vectors end without error, and both
  vectors hold the bits of the levels one after the other with a correct table of ranks
  (block size 512) and of samples (interval 64).
\<close>

theorem trie_vectors_well_formed:
  assumes "levels_ok per_level counts start_level end_level" "fits_array (level_counts per_level counts start_level end_level)"
  shows "\<exists>rv sv. make_bitvector_rank 512 per_level counts start_level end_level = Inr rv \<and> rank_ok rv \<and>
    make_bitvector_select 64 per_level counts start_level end_level = Inr (Some sv) \<and> select_ok sv \<and>
    bv_bits rv = all_level_bits per_level counts start_level end_level \<and>
    bv_bits sv = all_level_bits per_level counts start_level end_level"
  by (rule constructors_ok[OF assms])

text \<open>A trie level of 70 bits, every third one set, behind a level of 3 bits.\<close>

definition sample_words :: "word_t list list" where
  "sample_words = [[0xA000000000000000], [0x9249249249249249, 0x2400000000000000]]"

lemma sample_levels_ok: "levels_ok sample_words [3, 70] 0 0"
proof -
  have "level_range sample_words 0 0 = [0, 1]"
    "list_all (\<lambda>l. level_ok (sample_words ! l) ([3, 70] ! l)) [0, 1]" by code_simp+
  then show ?thesis by (simp add: levels_ok_def sample_words_def)
qed

lemma trie_vectors_well_formed_witness:
  "\<exists>rv sv. make_bitvector_rank 512 sample_words [3, 70] 0 0 = Inr rv \<and> rank_ok rv \<and>
    make_bitvector_select 64 sample_words [3, 70] 0 0 = Inr (Some sv) \<and> select_ok sv \<and>
    bv_bits rv = all_level_bits sample_words [3, 70] 0 0 \<and> bv_bits sv = all_level_bits sample_words [3, 70] 0 0"
proof -
  have "fits_array (level_counts sample_words [3, 70] 0 0)" by code_simp
  with sample_levels_ok show ?thesis by (rule trie_vectors_well_formed)
qed

text \<open>C37: the constructor of a bit vector writes one word behind its array exactly when the
  concatenation does not fit, that is when the number of bits fills the last word and the last
  nonempty level does not end on a word boundary of its own.
\<close>

theorem concatenation_overruns:
  assumes "levels_ok per_level counts start_level end_level"
  shows "make_bitvector per_level counts start_level end_level = Inl Undefined_behaviour \<longleftrightarrow>
    \<not> fits_array (level_counts per_level counts start_level end_level)"
  using make_bitvector_ok[OF assms] unfolding fits_array_def level_counts_def by force

lemma concatenation_overruns_witness:
  "make_bitvector [[0xA000000000000000], [0x9249249249249248]] [3, 61] 0 0 = Inl Undefined_behaviour"
proof -
  have "level_range [[0xA000000000000000], [0x9249249249249248]] 0 0 = [0, 1]"
    "list_all (\<lambda>l. level_ok ([[0xA000000000000000], [0x9249249249249248]] ! l) ([3, 61] ! l)) [0, 1]" by code_simp+
  then have "levels_ok [[0xA000000000000000], [0x9249249249249248]] [3, 61] 0 0" by (simp add: levels_ok_def)
  moreover have "\<not> fits_array (level_counts [[0xA000000000000000], [0x9249249249249248]] [3, 61] 0 0)" by code_simp
  ultimately show ?thesis using concatenation_overruns by blast
qed

lemma kth_one_ones: "p < length bs \<Longrightarrow> bs ! p \<Longrightarrow> kth_one bs (ones (take (p + 1) bs)) = p"
proof (induction bs arbitrary: p)
  case (Cons b bs)
  show ?case
  proof (cases p)
    case (Suc q)
    have "0 < ones (take (q + 1) bs)" using Cons.prems Suc ones_zero[of "take (q + 1) bs"]
      by (auto simp: take_Suc_conv_app_nth)
    then show ?thesis using Cons Suc by auto
  qed (use Cons.prems in auto)
qed simp

lemma bv_length: "bv_ok bv \<Longrightarrow> length (bv_bits bv) = num_bits bv"
  by (rule bv_ok_bits(2))

text \<open>C33: rank and select on the vectors built from the same levels are inverse to each other. \<open>rank\<close> at a
  position is the number of ones up to it; \<open>select\<close> of a number up to the number of ones returns the
  position of a one whose rank is that number; and \<open>select\<close> of the rank of a one is its position.
  As the table of samples requires, the first bit is set.
\<close>

theorem rank_select_inverse:
  assumes "levels_ok per_level counts start_level end_level" "fits_array (level_counts per_level counts start_level end_level)"
    and "bs = all_level_bits per_level counts start_level end_level" "hd bs"
  shows "\<exists>rv sv. make_bitvector_rank 512 per_level counts start_level end_level = Inr rv \<and>
    make_bitvector_select 64 per_level counts start_level end_level = Inr (Some sv) \<and>
    (\<forall>pos < length bs. rank b pos rv = Inr (ones (take (pos + 1) bs))) \<and>
    (\<forall>r \<in> {1..ones bs}. \<exists>pos < length bs. select b r sv = Inr pos \<and> bs ! pos \<and> rank b pos rv = Inr r) \<and>
    (\<forall>pos < length bs. bs ! pos \<longrightarrow> select b (ones (take (pos + 1) bs)) sv = Inr pos)"
proof -
  obtain rv sv where v: "make_bitvector_rank 512 per_level counts start_level end_level = Inr rv" "rank_ok rv"
    "make_bitvector_select 64 per_level counts start_level end_level = Inr (Some sv)" "select_ok sv" "bv_bits rv = bs" "bv_bits sv = bs"
    using constructors_ok[OF assms(1,2)] assms(3) by blast
  have n: "num_bits rv = length bs" "num_ones sv = ones bs"
    using bv_length[of rv] v(2,4,5,6) by (auto simp: rank_ok_def select_ok_def)
  have rank: "rank b pos rv = Inr (ones (take (pos + 1) bs))" if "pos < length bs" for pos
    using rank_exact[OF v(2)] that v(5) n(1) by simp
  have select: "select b r sv = Inr (kth_one bs r)" if "r \<in> {1..ones bs}" for r
    using select_exact[OF v(4)] assms(4) that v(6) n(2) by simp
  have "\<exists>pos < length bs. select b r sv = Inr pos \<and> bs ! pos \<and> rank b pos rv = Inr r" if r: "r \<in> {1..ones bs}" for r
  proof (intro exI[of _ "kth_one bs r"] conjI)
    note spec = kth_one_spec[of r bs]
    show k: "kth_one bs r < length bs" "bs ! kth_one bs r" using spec r by simp_all
    show "rank b (kth_one bs r) rv = Inr r" using rank[OF k(1)] k spec r by (simp add: take_Suc_conv_app_nth)
  qed (rule select[OF r])
  moreover have "select b (ones (take (pos + 1) bs)) sv = Inr pos" if pos: "pos < length bs" "bs ! pos" for pos
  proof -
    have "ones bs = ones (take (pos + 1) bs) + ones (drop (pos + 1) bs)"
      using ones_simps(3)[of "take (pos + 1) bs" "drop (pos + 1) bs"] by simp
    then have "ones (take (pos + 1) bs) \<in> {1..ones bs}" using pos by (simp add: take_Suc_conv_app_nth)
    then show ?thesis using select kth_one_ones[OF pos] by simp
  qed
  ultimately show ?thesis using v(1,3) rank by blast
qed

lemma rank_select_inverse_witness:
  "\<exists>rv sv. make_bitvector_rank 512 sample_words [3, 70] 0 0 = Inr rv \<and>
    make_bitvector_select 64 sample_words [3, 70] 0 0 = Inr (Some sv) \<and>
    rank Debug 5 rv = Inr 3 \<and> select Debug 3 sv = Inr 3"
proof -
  let ?bs = "all_level_bits sample_words [3, 70] 0 0"
  have ok: "fits_array (level_counts sample_words [3, 70] 0 0)" by code_simp
  have bs: "hd ?bs" "length ?bs = 73" "?bs ! 3" "ones (take (5 + 1) ?bs) = 3" "ones (take (3 + 1) ?bs) = 3" by code_simp+
  obtain rv sv where v: "make_bitvector_rank 512 sample_words [3, 70] 0 0 = Inr rv"
    "make_bitvector_select 64 sample_words [3, 70] 0 0 = Inr (Some sv)"
    "\<forall>pos < length ?bs. rank Debug pos rv = Inr (ones (take (pos + 1) ?bs))"
    "\<forall>pos < length ?bs. ?bs ! pos \<longrightarrow> select Debug (ones (take (pos + 1) ?bs)) sv = Inr pos"
    using rank_select_inverse[OF sample_levels_ok ok refl bs(1), of Debug] by blast
  have "rank Debug 5 rv = Inr 3" using v(3)[rule_format, of 5] unfolding bs by simp
  moreover have "select Debug 3 sv = Inr 3" using v(4)[rule_format, of 3] unfolding bs by (simp add: bs(3))
  ultimately show ?thesis using v(1,2) by blast
qed

lemma next_set_bit:
  assumes "bv_ok bv" "pos + 1 < num_bits bv"
  shows "\<exists>d. distanceToNextSetBit b pos bv = Inr d \<and> 0 < d \<and> pos + d \<le> 64 * numWords bv \<and>
    (\<forall>j. pos < j \<and> j < pos + d \<and> j < num_bits bv \<longrightarrow> \<not> bv_bits bv ! j) \<and>
    (if \<exists>j < num_bits bv. pos < j \<and> bv_bits bv ! j then pos + d < num_bits bv \<and> bv_bits bv ! (pos + d)
     else pos + d = (if (pos + 1) div 64 = numWords bv - 1 then num_bits bv else 64 * numWords bv))"
proof -
  let ?rest = "drop (pos + 1) (bv_bits bv)"
  have len: "length (bv_bits bv) = num_bits bv" "num_bits bv \<le> 64 * numWords bv"
    using bv_length[OF assms(1)] bv_ok_bits(3)[OF assms(1)] assms(1) by (simp_all add: bv_ok_def)
  have ex: "True \<in> set ?rest \<longleftrightarrow> (\<exists>j < num_bits bv. pos < j \<and> bv_bits bv ! j)"
  proof
    assume "True \<in> set ?rest"
    then obtain i where "i < length ?rest" "?rest ! i" by (auto simp: in_set_conv_nth)
    then show "\<exists>j < num_bits bv. pos < j \<and> bv_bits bv ! j" using len by (intro exI[of _ "pos + 1 + i"]) (simp add: add.assoc)
  next
    assume "\<exists>j < num_bits bv. pos < j \<and> bv_bits bv ! j"
    then obtain j where "j < num_bits bv" "pos < j" "bv_bits bv ! j" by blast
    then have "?rest ! (j - (pos + 1))" "j - (pos + 1) < length ?rest" using len by simp_all
    then show "True \<in> set ?rest" by (metis nth_mem)
  qed
  show ?thesis
  proof (cases "True \<in> set ?rest")
    case True
    let ?z = "zeros_run ?rest"
    have z: "?z < length ?rest" "?rest ! ?z" "\<forall>j < ?z. \<not> ?rest ! j" using zeros_run_first[OF True] by auto
    have "\<not> bv_bits bv ! j" if "pos < j" "j < pos + (1 + ?z)" "j < num_bits bv" for j
      using z(3)[rule_format, of "j - (pos + 1)"] that len by simp
    then show ?thesis using z(1,2) True ex distanceToNextSetBit_ok[OF assms, of b] len
      by (intro exI[of _ "1 + ?z"]) (auto simp: add.assoc)
  next
    case False
    then show ?thesis using ex distanceToNextSetBit_ok[OF assms, of b] len assms(2) by auto
  qed
qed

text \<open>C36: the distance to the next set bit never leads behind the last word. When a later bit is set, the
  result leads to the first one of them; otherwise it leads to the end of the vector when the next
  position is in the last word, and to the end of the last word when it is not.
\<close>

theorem distance_to_next_bounds:
  assumes "bv_ok bv" "pos + 1 < num_bits bv"
  shows "\<exists>d. distanceToNextSetBit b pos bv = Inr d \<and> 0 < d \<and> pos + d \<le> 64 * numWords bv \<and>
    (\<forall>j. pos < j \<and> j < pos + d \<and> j < num_bits bv \<longrightarrow> \<not> bv_bits bv ! j) \<and>
    (if \<exists>j < num_bits bv. pos < j \<and> bv_bits bv ! j then pos + d < num_bits bv \<and> bv_bits bv ! (pos + d)
     else pos + d = (if (pos + 1) div 64 = numWords bv - 1 then num_bits bv else 64 * numWords bv))"
  by (rule next_set_bit[OF assms])

lemma distance_to_next_bounds_witness:
  "\<exists>d. distanceToNextSetBit Debug 3 \<lparr>num_bits = 70, bits = [0xF000000000000001, 0]\<rparr> = Inr d \<and> 0 < d \<and> 3 + d \<le> 128"
proof -
  have "bv_ok \<lparr>num_bits = 70, bits = [0xF000000000000001, 0]\<rparr>" by code_simp
  moreover have "3 + 1 < num_bits \<lparr>num_bits = 70, bits = [0xF000000000000001, 0]\<rparr>" by simp
  moreover have "numWords \<lparr>num_bits = 70, bits = [0xF000000000000001, 0]\<rparr> = 2" by code_simp
  ultimately show ?thesis using distance_to_next_bounds[of "\<lparr>num_bits = 70, bits = [0xF000000000000001, 0]\<rparr>" 3 Debug] by auto
qed

end
