(* ===== verification/SuRF_Labels.thy ===== *)
theory SuRF_Labels
  imports SuRF_Bits
begin

unbundle bit_operations_syntax

text \<open>
  The class \<open>LabelVector\<close> (SuRF/include/label_vector.hpp and label_vector.cc): the labels of the sparse
  levels in one array of bytes, and the search for a label in a node, which is a window of the array.
  Searching uses a linear, a binary or a SIMD scan depending on the size of the window. The scans move
  the position they are given by reference, so each returns whether it found a label and the position
  afterwards. Reading behind the allocated array is \<open>Undefined_behaviour\<close>; the SIMD scan reads blocks of
  16 bytes. The number of labels and the size of the array are computed in 32 bits, as in the source: the
  product that gives the size wraps from \<open>2 ^ 19\<close> labels on.
\<close>

type_synonym label_t = "8 word"

definition kTerminator :: label_t where
  "kTerminator = 255"

record label_vector =
  num_bytes :: nat
  labels :: "label_t list"

section \<open>Construction\<close>

fun store_labels :: "label_t list \<Rightarrow> label_t list \<times> nat \<Rightarrow> (label_t list \<times> nat) result" where
  "store_labels [] st = Inr st"
| "store_labels (l # ls) (buf, pos) =
     (if length buf \<le> pos then Inl Undefined_behaviour else store_labels ls (buf[pos := l], pos + 1))"

definition alloc_bytes :: "nat \<Rightarrow> nat" where
  "alloc_bytes n = (n * (n div 64 + 1)) mod 2 ^ 32"

definition make_label_vector :: "label_t list list \<Rightarrow> nat \<Rightarrow> nat \<Rightarrow> label_vector result" where
  "make_label_vector labels_per_level start_level end_level0 =
     (let end_level = (if end_level0 = 0 then length labels_per_level else end_level0)
      in if start_level < end_level \<and> length labels_per_level < end_level then Inl Undefined_behaviour
         else let n = foldl (\<lambda>n level. (n + length (labels_per_level ! level)) mod 2 ^ 32) 1 [start_level..<end_level]
              in bind_res (fold_res (\<lambda>level. store_labels (labels_per_level ! level)) [start_level..<end_level]
                             (replicate (alloc_bytes n) 0, 0)) (\<lambda>(buf, _).
                   Inr \<lparr>num_bytes = n, labels = buf\<rparr>))"

definition label_read :: "label_vector \<Rightarrow> nat \<Rightarrow> label_t result" where
  "label_read lv pos = (if length (labels lv) \<le> pos then Inl Undefined_behaviour else Inr (labels lv ! pos))"

section \<open>Searching\<close>

fun linear_loop :: "label_vector \<Rightarrow> label_t \<Rightarrow> nat \<Rightarrow> nat list \<Rightarrow> (bool \<times> nat) result" where
  "linear_loop lv target pos [] = Inr (False, pos)"
| "linear_loop lv target pos (i # is) =
     bind_res (label_read lv (pos + i)) (\<lambda>l.
       if target = l then Inr (True, pos + i) else linear_loop lv target pos is)"

definition linearSearch :: "label_vector \<Rightarrow> label_t \<Rightarrow> nat \<Rightarrow> nat \<Rightarrow> (bool \<times> nat) result" where
  "linearSearch lv target pos search_len = linear_loop lv target pos [0..<search_len]"

function binary_loop :: "label_vector \<Rightarrow> label_t \<Rightarrow> nat \<Rightarrow> nat \<Rightarrow> nat \<Rightarrow> (bool \<times> nat) result" where
  "binary_loop lv target pos l r =
     (if l < r
      then let m = (l + r) div 2
           in bind_res (label_read lv m) (\<lambda>x.
                if target < x then binary_loop lv target pos l m
                else if target = x then Inr (True, m)
                else binary_loop lv target pos (m + 1) r)
      else Inr (False, pos))"
  by pat_completeness auto
termination by (relation "measure (\<lambda>(lv, target, pos, l, r). r - l)") auto

definition binarySearch :: "label_vector \<Rightarrow> label_t \<Rightarrow> nat \<Rightarrow> nat \<Rightarrow> (bool \<times> nat) result" where
  "binarySearch lv target pos search_len = binary_loop lv target pos pos (pos + search_len)"

text \<open>
  \<open>_mm_cmpeq_epi8\<close> and \<open>_mm_movemask_epi8\<close>: the byte at index \<open>i\<close> of the block decides bit \<open>i\<close> of the
  mask. \<open>__builtin_ctz\<close> of a nonzero mask is the index of its lowest set bit.
\<close>

definition cmpeq_mask :: "label_vector \<Rightarrow> label_t \<Rightarrow> nat \<Rightarrow> 32 word result" where
  "cmpeq_mask lv target start =
     (if length (labels lv) < start + 16 then Inl Undefined_behaviour
      else Inr (horner_sum of_bool 2 (map (\<lambda>i. labels lv ! (start + i) = target) [0..<16])))"

definition ctz32 :: "32 word \<Rightarrow> nat" where
  "ctz32 w = length (takeWhile Not (map (bit w) [0..<32]))"

function simd_loop :: "label_vector \<Rightarrow> label_t \<Rightarrow> nat \<Rightarrow> nat \<Rightarrow> nat \<Rightarrow> (bool \<times> nat) result" where
  "simd_loop lv target pos num_labels_searched num_labels_left =
     (if drop_bit 4 num_labels_left > 0
      then bind_res (cmpeq_mask lv target (pos + num_labels_searched)) (\<lambda>check_bits.
             if check_bits \<noteq> 0 then Inr (True, pos + (num_labels_searched + ctz32 check_bits))
             else simd_loop lv target pos (num_labels_searched + 16) (num_labels_left - 16))
      else if num_labels_left > 0
      then bind_res (cmpeq_mask lv target (pos + num_labels_searched)) (\<lambda>cmp.
             let leftover_bits_mask = push_bit num_labels_left 1 - 1; check_bits = cmp AND leftover_bits_mask
             in if check_bits \<noteq> 0 then Inr (True, pos + (num_labels_searched + ctz32 check_bits))
                else Inr (False, pos))
      else Inr (False, pos))"
  by pat_completeness auto
termination by (relation "measure (\<lambda>(lv, target, pos, searched, left). left)") (auto simp: drop_bit_eq_div)

definition simdSearch :: "label_vector \<Rightarrow> label_t \<Rightarrow> nat \<Rightarrow> nat \<Rightarrow> (bool \<times> nat) result" where
  "simdSearch lv target pos search_len = simd_loop lv target pos 0 search_len"

definition skip_terminator :: "label_vector \<Rightarrow> nat \<Rightarrow> nat \<Rightarrow> (nat \<times> nat) result" where
  "skip_terminator lv pos search_len =
     (if search_len > 1
      then bind_res (label_read lv pos) (\<lambda>l.
             Inr (if l = kTerminator then (pos + 1, search_len - 1) else (pos, search_len)))
      else Inr (pos, search_len))"

definition search :: "label_vector \<Rightarrow> label_t \<Rightarrow> nat \<Rightarrow> nat \<Rightarrow> (bool \<times> nat) result" where
  "search lv target pos search_len =
     bind_res (skip_terminator lv pos search_len) (\<lambda>(pos, search_len).
       if search_len < 3 then linearSearch lv target pos search_len
       else if search_len < 12 then binarySearch lv target pos search_len
       else simdSearch lv target pos search_len)"

fun linear_greater_loop :: "label_vector \<Rightarrow> label_t \<Rightarrow> nat \<Rightarrow> nat list \<Rightarrow> (bool \<times> nat) result" where
  "linear_greater_loop lv target pos [] = Inr (False, pos)"
| "linear_greater_loop lv target pos (i # is) =
     bind_res (label_read lv (pos + i)) (\<lambda>l.
       if l > target then Inr (True, pos + i) else linear_greater_loop lv target pos is)"

definition linearSearchGreaterThan :: "label_vector \<Rightarrow> label_t \<Rightarrow> nat \<Rightarrow> nat \<Rightarrow> (bool \<times> nat) result" where
  "linearSearchGreaterThan lv target pos search_len = linear_greater_loop lv target pos [0..<search_len]"

function binary_greater_loop :: "label_vector \<Rightarrow> label_t \<Rightarrow> nat \<Rightarrow> nat \<Rightarrow> nat \<Rightarrow> nat \<Rightarrow> (bool \<times> nat) result" where
  "binary_greater_loop lv target pos search_len l r =
     (if l < r
      then let m = (l + r) div 2
           in bind_res (label_read lv m) (\<lambda>x.
                if target < x then binary_greater_loop lv target pos search_len l m
                else if target = x
                then if m < pos + search_len - 1 then Inr (True, m + 1) else Inr (False, pos)
                else binary_greater_loop lv target pos search_len (m + 1) r)
      else if l < pos + search_len then Inr (True, l) else Inr (False, pos))"
  by pat_completeness auto
termination by (relation "measure (\<lambda>(lv, target, pos, search_len, l, r). r - l)") auto

definition binarySearchGreaterThan :: "label_vector \<Rightarrow> label_t \<Rightarrow> nat \<Rightarrow> nat \<Rightarrow> (bool \<times> nat) result" where
  "binarySearchGreaterThan lv target pos search_len = binary_greater_loop lv target pos search_len pos (pos + search_len)"

definition searchGreaterThan :: "label_vector \<Rightarrow> label_t \<Rightarrow> nat \<Rightarrow> nat \<Rightarrow> (bool \<times> nat) result" where
  "searchGreaterThan lv target pos search_len =
     bind_res (skip_terminator lv pos search_len) (\<lambda>(pos, search_len).
       if search_len < 3 then linearSearchGreaterThan lv target pos search_len
       else binarySearchGreaterThan lv target pos search_len)"

declare binary_loop.simps [simp del] binary_greater_loop.simps [simp del] simd_loop.simps [simp del]

section \<open>The searches agree with a scan\<close>

definition window :: "label_vector \<Rightarrow> nat \<Rightarrow> nat \<Rightarrow> label_t list" where
  "window lv pos n = take n (drop pos (labels lv))"

text \<open>The reference: the first label of the window with property \<open>P\<close>.\<close>

definition scan :: "(label_t \<Rightarrow> bool) \<Rightarrow> label_vector \<Rightarrow> nat \<Rightarrow> nat \<Rightarrow> bool \<times> nat" where
  "scan P lv pos n =
     (let i = length (takeWhile (\<lambda>l. \<not> P l) (window lv pos n)) in if i < n then (True, pos + i) else (False, pos))"

lemma scan_found:
  assumes "pos + n \<le> length (labels lv)" "i < n" "P (labels lv ! (pos + i))" "\<forall>j < i. \<not> P (labels lv ! (pos + j))"
  shows "scan P lv pos n = (True, pos + i)"
proof -
  have "takeWhile (\<lambda>l. \<not> P l) (window lv pos n) = take i (window lv pos n)"
    by (rule takeWhile_eq_take_P_nth) (use assms in \<open>auto simp: window_def\<close>)
  then show ?thesis using assms(1,2) by (simp add: scan_def window_def)
qed

lemma scan_none:
  assumes "pos + n \<le> length (labels lv)" "\<forall>i < n. \<not> P (labels lv ! (pos + i))"
  shows "scan P lv pos n = (False, pos)"
proof -
  have "\<forall>l \<in> set (window lv pos n). \<not> P l" using assms by (auto simp: window_def in_set_conv_nth)
  then have "takeWhile (\<lambda>l. \<not> P l) (window lv pos n) = window lv pos n" by simp
  moreover have "length (window lv pos n) = n" using assms(1) by (simp add: window_def)
  ultimately show ?thesis unfolding scan_def Let_def by (simp only:) simp
qed

lemma label_read_ok: "pos < length (labels lv) \<Longrightarrow> label_read lv pos = Inr (labels lv ! pos)"
  by (simp add: label_read_def)

lemma linear_loop_ok:
  assumes "pos + n \<le> length (labels lv)" "k \<le> n" "\<forall>i < k. target \<noteq> labels lv ! (pos + i)"
  shows "linear_loop lv target pos [k..<n] = Inr (scan (\<lambda>l. target = l) lv pos n)"
  using assms(2,3)
proof (induction "n - k" arbitrary: k)
  case 0
  have "scan (\<lambda>l. target = l) lv pos n = (False, pos)" by (rule scan_none[OF assms(1)]) (use 0 in auto)
  then show ?case using 0 by simp
next
  case (Suc d)
  then have k: "k < n" by simp
  show ?case
  proof (cases "labels lv ! (pos + k) = target")
    case True
    then show ?thesis using scan_found[OF assms(1) k, of "\<lambda>l. target = l"] Suc.prems k assms(1)
      by (auto simp: upt_conv_Cons label_read_ok)
  next
    case False
    have "linear_loop lv target pos [Suc k..<n] = Inr (scan (\<lambda>l. target = l) lv pos n)"
      using Suc.hyps(2) k Suc.prems False by (intro Suc.hyps(1)) (auto simp: less_Suc_eq)
    then show ?thesis using False k assms(1) by (auto simp: upt_conv_Cons label_read_ok)
  qed
qed

lemma linear_greater_loop_ok:
  assumes "pos + n \<le> length (labels lv)" "k \<le> n" "\<forall>i < k. \<not> labels lv ! (pos + i) > target"
  shows "linear_greater_loop lv target pos [k..<n] = Inr (scan (\<lambda>l. l > target) lv pos n)"
  using assms(2,3)
proof (induction "n - k" arbitrary: k)
  case 0
  have "scan (\<lambda>l. l > target) lv pos n = (False, pos)" by (rule scan_none[OF assms(1)]) (use 0 in auto)
  then show ?case using 0 by simp
next
  case (Suc d)
  then have k: "k < n" by simp
  show ?case
  proof (cases "labels lv ! (pos + k) > target")
    case True
    then show ?thesis using scan_found[OF assms(1) k, of "\<lambda>l. l > target"] Suc.prems k assms(1)
      by (auto simp: upt_conv_Cons label_read_ok)
  next
    case False
    have "linear_greater_loop lv target pos [Suc k..<n] = Inr (scan (\<lambda>l. l > target) lv pos n)"
      using Suc.hyps(2) k Suc.prems False by (intro Suc.hyps(1)) (auto simp: less_Suc_eq)
    then show ?thesis using False k assms(1) by (auto simp: upt_conv_Cons label_read_ok)
  qed
qed

definition ascending :: "label_vector \<Rightarrow> nat \<Rightarrow> nat \<Rightarrow> bool" where
  "ascending lv pos n \<longleftrightarrow> sorted_wrt (<) (window lv pos n)"

lemma ascendingD:
  assumes "ascending lv pos n" "pos + n \<le> length (labels lv)" "pos \<le> i" "i < j" "j < pos + n"
  shows "labels lv ! i < labels lv ! j"
proof -
  have "window lv pos n ! (i - pos) < window lv pos n ! (j - pos)"
    using assms unfolding ascending_def by (intro sorted_wrt_nth_less[of "(<)"]) (auto simp: window_def)
  then show ?thesis using assms by (simp add: window_def)
qed

lemma binary_loop_ok:
  assumes "ascending lv pos n" "pos + n \<le> length (labels lv)"
    and "pos \<le> l" "r \<le> pos + n" "\<forall>i \<in> {pos..<l}. labels lv ! i < target" "\<forall>i \<in> {r..<pos + n}. target < labels lv ! i" "l \<le> r"
  shows "binary_loop lv target pos l r = Inr (scan (\<lambda>l. target = l) lv pos n)"
  using assms
proof (induction lv target pos l r rule: binary_loop.induct)
  case (1 lv target pos l r)
  let ?m = "(l + r) div 2"
  show ?case
  proof (cases "l < r")
    case True
    then have m: "l \<le> ?m" "?m < r" by linarith+
    then have read: "label_read lv ?m = Inr (labels lv ! ?m)" using 1(4,6) by (intro label_read_ok) linarith
    consider (less) "target < labels lv ! ?m" | (eq) "target = labels lv ! ?m" | (greater) "labels lv ! ?m < target" by fastforce
    then show ?thesis
    proof cases
      case less
      have "target < labels lv ! i" if "i \<in> {?m..<pos + n}" for i
        using less ascendingD[OF 1(3,4), of ?m i] that m 1(5) by (cases "i = ?m") auto
      then have "binary_loop lv target pos l ?m = Inr (scan (\<lambda>l. target = l) lv pos n)"
        using 1(1)[OF True refl less] 1(3-8) m by simp
      then show ?thesis using True read less by (subst binary_loop.simps) simp
    next
      case eq
      have ne: "target \<noteq> labels lv ! (pos + j)" if "j < ?m - pos" for j
      proof -
        have "pos + j < ?m" "?m < pos + n" using that m(2) 1(6) by linarith+
        then show ?thesis using ascendingD[OF 1(3,4), of "pos + j" ?m] eq by auto
      qed
      have "?m - pos < n" "pos + (?m - pos) = ?m" using m 1(5,6) by linarith+
      then have "scan (\<lambda>l. target = l) lv pos n = (True, pos + (?m - pos))"
        using eq ne by (intro scan_found 1(4)) simp_all
      then show ?thesis using True read eq m 1(5) by (subst binary_loop.simps) simp
    next
      case greater
      then have g: "\<not> target < labels lv ! ?m" "target \<noteq> labels lv ! ?m" by auto
      have "labels lv ! i < target" if "i \<in> {pos..<?m + 1}" for i
        using greater ascendingD[OF 1(3,4), of i ?m] that m 1(6) by (cases "i = ?m") auto
      then have "binary_loop lv target pos (?m + 1) r = Inr (scan (\<lambda>l. target = l) lv pos n)"
        using 1(2)[OF True refl g] 1(3-8) m by simp
      then show ?thesis using True read g by (subst binary_loop.simps) (simp add: Let_def)
    qed
  next
    case False
    then have "\<forall>i < n. target \<noteq> labels lv ! (pos + i)" using 1(7-9) by force
    then show ?thesis using False scan_none[OF 1(4)] by (subst binary_loop.simps) simp
  qed
qed

lemma binary_greater_loop_ok:
  assumes "ascending lv pos n" "pos + n \<le> length (labels lv)"
    and "pos \<le> l" "r \<le> pos + n" "\<forall>i \<in> {pos..<l}. labels lv ! i < target" "\<forall>i \<in> {r..<pos + n}. target < labels lv ! i" "l \<le> r"
  shows "binary_greater_loop lv target pos n l r = Inr (scan (\<lambda>l. l > target) lv pos n)"
  using assms
proof (induction lv target pos n l r rule: binary_greater_loop.induct)
  case (1 lv target pos n l r)
  let ?m = "(l + r) div 2"
  have at: "scan (\<lambda>l. l > target) lv pos n = (True, k)"
    if "pos \<le> k" "k < pos + n" "target < labels lv ! k" "\<forall>i \<in> {pos..<k}. \<not> target < labels lv ! i" for k
    using scan_found[OF 1(4), of "k - pos" "\<lambda>l. l > target"] that by auto
  have none: "scan (\<lambda>l. l > target) lv pos n = (False, pos)" if "\<forall>i \<in> {pos..<pos + n}. \<not> target < labels lv ! i"
    using scan_none[OF 1(4), of "\<lambda>l. l > target"] that by auto
  show ?case
  proof (cases "l < r")
    case True
    then have m: "l \<le> ?m" "?m < r" by linarith+
    then have read: "label_read lv ?m = Inr (labels lv ! ?m)" using 1(4,6) by (intro label_read_ok) linarith
    consider (less) "target < labels lv ! ?m" | (eq) "target = labels lv ! ?m" | (greater) "labels lv ! ?m < target" by fastforce
    then show ?thesis
    proof cases
      case less
      have "target < labels lv ! i" if "i \<in> {?m..<pos + n}" for i
        using less ascendingD[OF 1(3,4), of ?m i] that m 1(5) by (cases "i = ?m") auto
      then have "binary_greater_loop lv target pos n l ?m = Inr (scan (\<lambda>l. l > target) lv pos n)"
        using 1(1)[OF True refl less] 1(3-8) m by simp
      then show ?thesis using True read less by (subst binary_greater_loop.simps) simp
    next
      case eq
      have below: "\<not> target < labels lv ! i" if "i \<in> {pos..<?m + 1}" for i
        using eq ascendingD[OF 1(3,4), of i ?m] that m 1(6) by (cases "i = ?m") auto
      show ?thesis
      proof (cases "?m < pos + n - 1")
        case last: True
        then have "target < labels lv ! (?m + 1)" using eq ascendingD[OF 1(3,4), of ?m "?m + 1"] m 1(5) by simp
        then have "scan (\<lambda>l. l > target) lv pos n = (True, ?m + 1)" using at[of "?m + 1"] below last m 1(5) by simp
        then show ?thesis using True read eq last by (subst binary_greater_loop.simps) simp
      next
        case last: False
        then have "?m + 1 = pos + n" using m 1(6) by linarith
        then have "scan (\<lambda>l. l > target) lv pos n = (False, pos)" using none below by simp
        then show ?thesis using True read eq last by (subst binary_greater_loop.simps) simp
      qed
    next
      case greater
      then have g: "\<not> target < labels lv ! ?m" "target \<noteq> labels lv ! ?m" by auto
      have "labels lv ! i < target" if "i \<in> {pos..<?m + 1}" for i
        using greater ascendingD[OF 1(3,4), of i ?m] that m 1(6) by (cases "i = ?m") auto
      then have "binary_greater_loop lv target pos n (?m + 1) r = Inr (scan (\<lambda>l. l > target) lv pos n)"
        using 1(2)[OF True refl g] 1(3-8) m by simp
      then show ?thesis using True read g by (subst binary_greater_loop.simps) (simp add: Let_def)
    qed
  next
    case False
    then have lr: "l = r" using 1(9) by simp
    have below: "\<forall>i \<in> {pos..<l}. \<not> target < labels lv ! i" using 1(7) by auto
    show ?thesis
    proof (cases "l < pos + n")
      case True
      then have "target < labels lv ! l" using 1(8) lr by simp
      then show ?thesis using False True at[of l] below 1(5) by (subst binary_greater_loop.simps) simp
    next
      case last: False
      then have "l = pos + n" using lr 1(6) by simp
      then show ?thesis using False last none below by (subst binary_greater_loop.simps) simp
    qed
  qed
qed

lemma ctz32_first:
  assumes "w \<noteq> 0"
  shows "bit w (ctz32 w)" "\<forall>j < ctz32 w. \<not> bit w j"
proof -
  obtain n where n: "bit w n" using assms bit_word_eqI[of w 0] by auto
  then have "n < 32" using bit_imp_le_length[OF n] by simp
  then have "\<exists>b \<in> set (map (bit w) [0..<32]). b" using n by auto
  then have less: "ctz32 w < length (map (bit w) [0..<32])"
    unfolding ctz32_def using length_takeWhile_le[of Not "map (bit w) [0..<32]"] takeWhile_eq_all_conv[of Not "map (bit w) [0..<32]"]
    by (metis le_neq_implies_less takeWhile_eq_take take_all_iff order_refl)
  show "bit w (ctz32 w)" using nth_length_takeWhile[of Not "map (bit w) [0..<32]"] less unfolding ctz32_def by simp
  show "\<forall>j < ctz32 w. \<not> bit w j"
  proof (intro allI impI)
    fix j assume j: "j < ctz32 w"
    then have "map (bit w) [0..<32] ! j \<in> set (takeWhile Not (map (bit w) [0..<32]))"
      unfolding ctz32_def by (metis nth_mem takeWhile_nth)
    then show "\<not> bit w j" using j less set_takeWhileD by fastforce
  qed
qed

lemma cmpeq_mask_ok:
  assumes "start + 16 \<le> length (labels lv)"
  shows "\<exists>w. cmpeq_mask lv target start = Inr w \<and> (\<forall>i. bit w i \<longleftrightarrow> i < 16 \<and> labels lv ! (start + i) = target)"
  using assms by (auto simp: cmpeq_mask_def bit_horner_sum_bit_iff)

lemma check_bits_scan:
  assumes "\<forall>i. bit w i \<longleftrightarrow> i < k \<and> labels lv ! (pos + s + i) = target" "s + k \<le> n" "pos + n \<le> length (labels lv)"
    and "\<forall>i < s. target \<noteq> labels lv ! (pos + i)"
  shows "w \<noteq> 0 \<Longrightarrow> scan (\<lambda>l. target = l) lv pos n = (True, pos + (s + ctz32 w))"
    "w = 0 \<Longrightarrow> \<forall>i < s + k. target \<noteq> labels lv ! (pos + i)"
proof -
  assume w: "w \<noteq> 0"
  note first = ctz32_first[OF w]
  have c: "ctz32 w < k" "labels lv ! (pos + s + ctz32 w) = target" using assms(1) first(1) by auto
  show "scan (\<lambda>l. target = l) lv pos n = (True, pos + (s + ctz32 w))"
  proof (rule scan_found[OF assms(3)])
    show "\<forall>j < s + ctz32 w. target \<noteq> labels lv ! (pos + j)"
    proof (intro allI impI)
      fix j assume j: "j < s + ctz32 w"
      show "target \<noteq> labels lv ! (pos + j)"
      proof (cases "j < s")
        case False
        then have "\<not> bit w (j - s)" "j - s < k" "pos + s + (j - s) = pos + j" using first(2) j c(1) by auto
        then show ?thesis using assms(1) by metis
      qed (use assms(4) in simp)
    qed
  qed (use c assms(2) in \<open>auto simp: add.assoc\<close>)
next
  assume w: "w = 0"
  show "\<forall>i < s + k. target \<noteq> labels lv ! (pos + i)"
  proof (intro allI impI)
    fix i assume i: "i < s + k"
    show "target \<noteq> labels lv ! (pos + i)"
    proof (cases "i < s")
      case False
      then have "\<not> bit w (i - s)" "i - s < k" "pos + s + (i - s) = pos + i" using w i by auto
      then show ?thesis using assms(1) by metis
    qed (use assms(4) in simp)
  qed
qed

text \<open>The blocks of 16 bytes that the SIMD scan of \<open>n\<close> labels loads lie in the array.\<close>

definition blocks_in_array :: "label_vector \<Rightarrow> nat \<Rightarrow> nat \<Rightarrow> bool" where
  "blocks_in_array lv pos n \<longleftrightarrow> pos + 16 * ((n + 15) div 16) \<le> length (labels lv)"

lemma last_block: "0 < d \<Longrightarrow> d < 16 \<Longrightarrow> (16 * q + d + 15) div 16 = q + 1" for d q :: nat
  by (rule div_nat_eqI) simp_all

lemma simd_loop_ok:
  assumes "blocks_in_array lv pos n" "s \<le> n" "s mod 16 = 0" "\<forall>i < s. target \<noteq> labels lv ! (pos + i)"
  shows "simd_loop lv target pos s (n - s) = Inr (scan (\<lambda>l. target = l) lv pos n)"
  using assms(2-4)
proof (induction "n - s" arbitrary: s rule: less_induct)
  case less
  have "n \<le> 16 * ((n + 15) div 16)" by linarith
  then have arr: "pos + n \<le> length (labels lv)" using assms(1) unfolding blocks_in_array_def by linarith
  consider (full) "16 \<le> n - s" | (rest) "n - s < 16" "0 < n - s" | (none) "n = s" using less.prems(1) by linarith
  then show ?case
  proof cases
    case full
    then have "pos + s + 16 \<le> length (labels lv)" using arr by linarith
    then obtain w where w: "cmpeq_mask lv target (pos + s) = Inr w" "\<forall>i. bit w i \<longleftrightarrow> i < 16 \<and> labels lv ! (pos + s + i) = target"
      using cmpeq_mask_ok by blast
    have k: "s + 16 \<le> n" using full by linarith
    note check = check_bits_scan[OF w(2) k arr less.prems(3)]
    have "simd_loop lv target pos (s + 16) (n - (s + 16)) = Inr (scan (\<lambda>l. target = l) lv pos n)" if "w = 0"
      using less.hyps[of "s + 16"] check(2)[OF that] k less.prems(2) by simp
    moreover have "0 < drop_bit 4 (n - s)" using full by (simp add: drop_bit_eq_div)
    ultimately show ?thesis using w(1) check(1) by (subst simd_loop.simps) simp
  next
    case rest
    obtain q where q: "s = 16 * q" using less.prems(2) by (auto simp: mod_eq_0_iff_dvd dvd_def)
    have "(n + 15) div 16 = q + 1" using last_block[of "n - s" q] rest less.prems(1) q by simp
    then have "pos + s + 16 \<le> length (labels lv)" using assms(1) q unfolding blocks_in_array_def by linarith
    then obtain w where w: "cmpeq_mask lv target (pos + s) = Inr w" "\<forall>i. bit w i \<longleftrightarrow> i < 16 \<and> labels lv ! (pos + s + i) = target"
      using cmpeq_mask_ok by blast
    let ?c = "w AND (push_bit (n - s) 1 - 1)"
    have "push_bit (n - s) 1 - 1 = (mask (n - s) :: 32 word)" by (simp add: push_bit_eq_mult mask_eq_exp_minus_1)
    then have "bit ?c i \<longleftrightarrow> i < n - s \<and> bit w i" for i
      using rest(1) by (auto simp: bit_and_iff bit_mask_iff dest: bit_imp_le_length)
    then have c: "\<forall>i. bit ?c i \<longleftrightarrow> i < n - s \<and> labels lv ! (pos + s + i) = target" using w(2) less_trans[OF _ rest(1)] by blast
    have k: "s + (n - s) \<le> n" using less.prems(1) by simp
    note check = check_bits_scan[OF c k arr less.prems(3)]
    have "scan (\<lambda>l. target = l) lv pos n = (False, pos)" if "?c = 0"
      by (rule scan_none[OF arr]) (use check(2)[OF that] less.prems(1) in simp)
    moreover have "drop_bit 4 (n - s) = 0" using rest by (simp add: drop_bit_eq_div)
    ultimately show ?thesis using w(1) check(1) rest(2) by (subst simd_loop.simps) (simp add: Let_def)
  next
    case none
    have "scan (\<lambda>l. target = l) lv pos n = (False, pos)" by (rule scan_none[OF arr]) (use none less.prems(3) in simp)
    then show ?thesis using none by (subst simd_loop.simps) simp
  qed
qed

section \<open>Searching in a node\<close>

text \<open>A node is a window of ascending labels, with a terminator in front when another label follows it.\<close>

definition terminators :: "label_vector \<Rightarrow> nat \<Rightarrow> nat \<Rightarrow> nat" where
  "terminators lv pos n = (if n > 1 \<and> labels lv ! pos = kTerminator then 1 else 0)"

definition node_window :: "label_vector \<Rightarrow> nat \<Rightarrow> nat \<Rightarrow> bool" where
  "node_window lv pos n \<longleftrightarrow> pos + n \<le> length (labels lv) \<and>
     ascending lv (pos + terminators lv pos n) (n - terminators lv pos n)"

lemma skip_terminator_ok:
  "pos + n \<le> length (labels lv) \<Longrightarrow>
     skip_terminator lv pos n = Inr (pos + terminators lv pos n, n - terminators lv pos n)"
  by (simp add: skip_terminator_def terminators_def label_read_ok)

lemma node_window_skip: "node_window lv pos n \<Longrightarrow> pos + terminators lv pos n + (n - terminators lv pos n) \<le> length (labels lv)"
  by (auto simp: node_window_def terminators_def)

lemma search_scan:
  assumes "node_window lv pos n" "n - terminators lv pos n < 12 \<or> blocks_in_array lv (pos + terminators lv pos n) (n - terminators lv pos n)"
  shows "search lv target pos n = Inr (scan (\<lambda>l. target = l) lv (pos + terminators lv pos n) (n - terminators lv pos n))"
proof -
  let ?p = "pos + terminators lv pos n" and ?n = "n - terminators lv pos n"
  have asc: "ascending lv ?p ?n" and arr: "pos + n \<le> length (labels lv)" using assms(1) by (auto simp: node_window_def)
  note arr' = node_window_skip[OF assms(1)]
  have "linearSearch lv target ?p ?n = Inr (scan (\<lambda>l. target = l) lv ?p ?n)"
    using linear_loop_ok[OF arr', of 0] by (simp add: linearSearch_def)
  moreover have "binarySearch lv target ?p ?n = Inr (scan (\<lambda>l. target = l) lv ?p ?n)"
    unfolding binarySearch_def by (rule binary_loop_ok[OF asc arr']) auto
  moreover have "simdSearch lv target ?p ?n = Inr (scan (\<lambda>l. target = l) lv ?p ?n)" if "\<not> ?n < 12"
    using simd_loop_ok[of lv ?p ?n 0 target] assms(2) that by (simp add: simdSearch_def)
  ultimately show ?thesis unfolding search_def skip_terminator_ok[OF arr] by simp
qed

lemma searchGreaterThan_scan:
  assumes "node_window lv pos n"
  shows "searchGreaterThan lv target pos n = Inr (scan (\<lambda>l. l > target) lv (pos + terminators lv pos n) (n - terminators lv pos n))"
proof -
  let ?p = "pos + terminators lv pos n" and ?n = "n - terminators lv pos n"
  have asc: "ascending lv ?p ?n" and arr: "pos + n \<le> length (labels lv)" using assms(1) by (auto simp: node_window_def)
  note arr' = node_window_skip[OF assms(1)]
  have "linearSearchGreaterThan lv target ?p ?n = Inr (scan (\<lambda>l. l > target) lv ?p ?n)"
    using linear_greater_loop_ok[OF arr', of 0] by (simp add: linearSearchGreaterThan_def)
  moreover have "binarySearchGreaterThan lv target ?p ?n = Inr (scan (\<lambda>l. l > target) lv ?p ?n)"
    unfolding binarySearchGreaterThan_def by (rule binary_greater_loop_ok[OF asc arr']) auto
  ultimately show ?thesis unfolding searchGreaterThan_def skip_terminator_ok[OF arr] by simp
qed

lemma store_labels_ok:
  "length bs + length ls \<le> n \<Longrightarrow>
     store_labels ls (bs @ replicate (n - length bs) 0, length bs) = Inr (bs @ ls @ replicate (n - length bs - length ls) 0, length bs + length ls)"
proof (induction ls arbitrary: bs)
  case (Cons l ls)
  have "n - length bs = Suc (n - length (bs @ [l]))" using Cons.prems by simp
  then have "(bs @ replicate (n - length bs) 0)[length bs := l] = (bs @ [l]) @ replicate (n - length (bs @ [l])) 0"
    by (simp add: list_update_append)
  then show ?case using Cons.IH[of "bs @ [l]"] Cons.prems by simp
qed simp

lemma store_levels_ok:
  "length bs + length (concat (map f levels)) \<le> n \<Longrightarrow>
     fold_res (\<lambda>level. store_labels (f level)) levels (bs @ replicate (n - length bs) 0, length bs) =
       Inr (bs @ concat (map f levels) @ replicate (n - length bs - length (concat (map f levels))) 0, length bs + length (concat (map f levels)))"
proof (induction levels arbitrary: bs)
  case (Cons l levels)
  have "length bs + length (f l) \<le> n" using Cons.prems by simp
  then show ?case using Cons.IH[of "bs @ f l"] Cons.prems store_labels_ok[of bs "f l" n] by simp
qed simp

lemma store_labels_overrun:
  "length bs \<le> n \<Longrightarrow> n < length bs + length ls \<Longrightarrow>
     store_labels ls (bs @ replicate (n - length bs) 0, length bs) = Inl Undefined_behaviour"
proof (induction ls arbitrary: bs)
  case (Cons l ls)
  show ?case
  proof (cases "length bs < n")
    case True
    then have "n - length bs = Suc (n - length (bs @ [l]))" by simp
    then have "(bs @ replicate (n - length bs) 0)[length bs := l] = (bs @ [l]) @ replicate (n - length (bs @ [l])) 0"
      by (simp add: list_update_append)
    then show ?thesis using Cons.IH[of "bs @ [l]"] Cons.prems True by simp
  qed (use Cons.prems in simp)
qed simp

lemma store_levels_overrun:
  "length bs \<le> n \<Longrightarrow> n < length bs + length (concat (map f levels)) \<Longrightarrow>
     fold_res (\<lambda>level. store_labels (f level)) levels (bs @ replicate (n - length bs) 0, length bs) = Inl Undefined_behaviour"
proof (induction levels arbitrary: bs)
  case (Cons l levels)
  show ?case
  proof (cases "length bs + length (f l) \<le> n")
    case True
    then show ?thesis using Cons.IH[of "bs @ f l"] Cons.prems store_labels_ok[OF True] by simp
  next
    case False
    then show ?thesis using store_labels_overrun[of bs n "f l"] Cons.prems(1) by simp
  qed
qed simp

text \<open>The labels of a range of levels, and the constructor in terms of them.\<close>

definition range_labels :: "label_t list list \<Rightarrow> nat \<Rightarrow> nat \<Rightarrow> label_t list" where
  "range_labels per_level start_level end_level = concat (map (\<lambda>l. per_level ! l) [start_level..<end_level])"

lemma make_label_vector_cases:
  fixes start_level :: nat
  assumes "end_level \<le> length per_level" "0 < end_level" "length (range_labels per_level start_level end_level) + 1 < 2 ^ 32"
  defines "ls \<equiv> range_labels per_level start_level end_level"
  shows "make_label_vector per_level start_level end_level =
    (if length ls \<le> alloc_bytes (length ls + 1)
     then Inr \<lparr>num_bytes = length ls + 1, labels = ls @ replicate (alloc_bytes (length ls + 1) - length ls) 0\<rparr>
     else Inl Undefined_behaviour)"
proof -
  have n: "foldl (\<lambda>n level. (n + length (per_level ! level)) mod 2 ^ 32) 1 [start_level..<end_level] = length ls + 1"
    using assms(3) by (simp add: foldl_add_mod ls_def range_labels_def length_concat o_def)
  let ?f = "\<lambda>l. per_level ! l" and ?a = "alloc_bytes (length ls + 1)"
  show ?thesis
    using store_levels_ok[of "[]" ?f "[start_level..<end_level]" ?a] store_levels_overrun[of "[]" ?a ?f "[start_level..<end_level]"] assms(1,2) n
    by (simp add: make_label_vector_def ls_def range_labels_def not_le)
qed

lemma alloc_bytes_room:
  assumes "n < 2 ^ 19"
  shows "alloc_bytes n = n * (n div 64 + 1)"
proof -
  have "n div 64 < 2 ^ 13" using assms by (simp add: less_mult_imp_div_less)
  then have "n * (n div 64 + 1) \<le> n * 2 ^ 13" by (intro mult_le_mono2) simp
  also have "\<dots> < 2 ^ 19 * 2 ^ 13" using assms by (intro mult_strict_right_mono) simp_all
  finally have "n * (n div 64 + 1) < 2 ^ 32" by (simp only: power_add[symmetric]) simp
  then show ?thesis by (simp add: alloc_bytes_def)
qed

lemma make_label_vector_ok:
  assumes "end_level \<le> length per_level" "0 < end_level" "length (range_labels per_level start_level end_level) + 1 < 2 ^ 19"
  defines "ls \<equiv> range_labels per_level start_level end_level"
  shows "make_label_vector per_level start_level end_level =
    Inr \<lparr>num_bytes = length ls + 1, labels = ls @ replicate (alloc_bytes (length ls + 1) - length ls) 0\<rparr>"
  using make_label_vector_cases[OF assms(1,2), of start_level] assms(3) alloc_bytes_room[OF assms(3)] by (simp add: ls_def)

lemma store_labels_length: "store_labels ls (buf, pos) = Inr (buf', pos') \<Longrightarrow> length buf' = length buf"
  by (induction ls arbitrary: buf pos) (auto split: if_splits)

lemma store_levels_length:
  "fold_res (\<lambda>level. store_labels (f level)) levels (buf, pos) = Inr (buf', pos') \<Longrightarrow> length buf' = length buf"
proof (induction levels arbitrary: buf pos)
  case (Cons l levels)
  then show ?case using store_labels_length by (cases "store_labels (f l) (buf, pos)") fastforce+
qed simp

lemma make_label_vector_length:
  assumes "make_label_vector per_level start_level end_level = Inr lv"
  shows "length (labels lv) = alloc_bytes (num_bytes lv)"
  using assms store_levels_length by (fastforce simp: make_label_vector_def Let_def split: if_splits prod.splits)

lemma blocks_in_long_array:
  assumes "64 \<le> m" "m < 2 ^ 19" "pos + n \<le> m" "length (labels lv) = alloc_bytes m"
  shows "blocks_in_array lv pos n"
proof -
  have "16 * ((n + 15) div 16) \<le> n + 15" by simp
  moreover have "m * 2 \<le> alloc_bytes m" unfolding alloc_bytes_room[OF assms(2)] using assms(1) by (intro mult_le_mono2) linarith
  ultimately show ?thesis unfolding blocks_in_array_def assms(4) using assms(1,3) by linarith
qed

lemma simd_loop_overread:
  assumes "\<not> blocks_in_array lv pos n" "pos + n \<le> length (labels lv)" "\<forall>i < n. target \<noteq> labels lv ! (pos + i)"
    and "s < n" "s mod 16 = 0"
  shows "simd_loop lv target pos s (n - s) = Inl Undefined_behaviour"
  using assms(4,5)
proof (induction "n - s" arbitrary: s rule: less_induct)
  case less
  obtain q where q: "s = 16 * q" using less.prems(2) by (auto simp: mod_eq_0_iff_dvd dvd_def)
  have fits: "16 * ((n + 15) div 16) = n" if "16 * k = n" for k using that by auto
  show ?case
  proof (cases "n - s < 16")
    case True
    then have "(n + 15) div 16 = q + 1" using last_block[of "n - s" q] less.prems(1) q by simp
    then have "length (labels lv) < pos + s + 16" using assms(1) q unfolding blocks_in_array_def by linarith
    then have "cmpeq_mask lv target (pos + s) = Inl Undefined_behaviour" by (simp add: cmpeq_mask_def)
    moreover have "drop_bit 4 (n - s) = 0" using True by (simp add: drop_bit_eq_div)
    ultimately show ?thesis using less.prems(1) by (subst simd_loop.simps) simp
  next
    case False
    then have le: "s + 16 \<le> n" by linarith
    then obtain w where w: "cmpeq_mask lv target (pos + s) = Inr w" "\<forall>i. bit w i \<longleftrightarrow> i < 16 \<and> labels lv ! (pos + s + i) = target"
      using cmpeq_mask_ok[of "pos + s" lv target] assms(2) by fastforce
    have "\<not> bit w i" for i using w(2)[rule_format, of i] assms(3)[rule_format, of "s + i"] le by (auto simp: add.assoc)
    then have "w = 0" by (intro bit_word_eqI) simp
    moreover have "s + 16 \<noteq> n" using fits[of "q + 1"] assms(1,2) q unfolding blocks_in_array_def by auto
    then have "simd_loop lv target pos (s + 16) (n - (s + 16)) = Inl Undefined_behaviour"
      using less.hyps[of "s + 16"] le less.prems(2) by simp
    moreover have "0 < drop_bit 4 (n - s)" using False by (simp add: drop_bit_eq_div)
    ultimately show ?thesis using w(1) by (subst simd_loop.simps) simp
  qed
qed

text \<open>C34: in a label vector of at least 64 and fewer than \<open>2 ^ 19\<close> bytes, searching a node for a label agrees
  with scanning its labels from left to right, whichever of the linear, the binary and the SIMD scan the
  size of the node selects, and so does searching for the first greater label; a terminator in front of
  other labels is skipped.
\<close>

theorem label_search_exact:
  assumes "make_label_vector per_level start_level end_level = Inr lv"
    and "64 \<le> num_bytes lv" "num_bytes lv < 2 ^ 19" "pos + n \<le> num_bytes lv" "node_window lv pos n"
  shows "search lv target pos n = Inr (scan (\<lambda>l. target = l) lv (pos + terminators lv pos n) (n - terminators lv pos n)) \<and>
    searchGreaterThan lv target pos n = Inr (scan (\<lambda>l. l > target) lv (pos + terminators lv pos n) (n - terminators lv pos n))"
proof -
  have "pos + terminators lv pos n + (n - terminators lv pos n) \<le> num_bytes lv" using assms(4) by (simp add: terminators_def)
  then have "blocks_in_array lv (pos + terminators lv pos n) (n - terminators lv pos n)"
    using blocks_in_long_array[OF assms(2,3)] make_label_vector_length[OF assms(1)] by blast
  then show ?thesis using search_scan[OF assms(5)] searchGreaterThan_scan[OF assms(5)] by blast
qed

text \<open>A node of 20 labels and its terminator, then 60 nodes of one label.\<close>

definition sample_labels :: "label_t list list" where
  "sample_labels = [kTerminator # map word_of_nat [97..<117], replicate 60 7]"

definition sample_vector :: label_vector where
  "sample_vector = \<lparr>num_bytes = 82, labels = concat sample_labels @ replicate 83 0\<rparr>"

lemma label_search_exact_witness:
  "search sample_vector 112 0 21 = Inr (True, 16) \<and> searchGreaterThan sample_vector 112 0 21 = Inr (True, 17)"
proof -
  have "range_labels sample_labels 0 2 = concat sample_labels" "length (concat sample_labels) = 81" by code_simp+
  then have "make_label_vector sample_labels 0 2 = Inr sample_vector"
    using make_label_vector_ok[of 2 sample_labels 0] by (simp add: sample_labels_def sample_vector_def alloc_bytes_def)
  moreover have "node_window sample_vector 0 21" by code_simp
  ultimately have "search sample_vector 112 0 21 = Inr (scan (\<lambda>l. 112 = l) sample_vector (0 + terminators sample_vector 0 21) (21 - terminators sample_vector 0 21))"
    "searchGreaterThan sample_vector 112 0 21 = Inr (scan (\<lambda>l. l > 112) sample_vector (0 + terminators sample_vector 0 21) (21 - terminators sample_vector 0 21))"
    using label_search_exact[of sample_labels 0 2 sample_vector 0 21 112] by (simp_all add: sample_labels_def sample_vector_def)
  moreover have "scan (\<lambda>l. 112 = l) sample_vector (0 + terminators sample_vector 0 21) (21 - terminators sample_vector 0 21) = (True, 16)"
    "scan (\<lambda>l. l > 112) sample_vector (0 + terminators sample_vector 0 21) (21 - terminators sample_vector 0 21) = (True, 17)" by code_simp+
  ultimately show ?thesis by simp
qed

text \<open>C38: a label vector of fewer than 64 bytes is allocated without room for the last block of the SIMD
  scan. Searching a node of 12 or more labels for a label it does not have then reads behind the array
  whenever fewer than 16 bytes are left after the last full block.
\<close>

theorem label_search_overreads:
  assumes "make_label_vector per_level start_level end_level = Inr lv"
    and "num_bytes lv < 64" "12 \<le> n" "pos + n < num_bytes lv" "num_bytes lv < pos + 16 * ((n + 15) div 16)"
    and "target \<notin> set (window lv pos n)" "labels lv ! pos \<noteq> kTerminator"
  shows "search lv target pos n = Inl Undefined_behaviour"
proof -
  have len: "length (labels lv) = num_bytes lv" using make_label_vector_length[OF assms(1)] assms(2) by (simp add: alloc_bytes_def)
  then have "target \<noteq> labels lv ! (pos + i)" if "i < n" for i
    using assms(4,6) that nth_mem[of i "window lv pos n"] by (auto simp: window_def)
  then have "simd_loop lv target pos 0 (n - 0) = Inl Undefined_behaviour"
    using assms(3-5) len by (intro simd_loop_overread) (auto simp: blocks_in_array_def)
  moreover have "terminators lv pos n = 0" using assms(7) by (simp add: terminators_def)
  ultimately show ?thesis using skip_terminator_ok[of pos n lv] assms(3,4) len by (simp add: search_def simdSearch_def)
qed

lemma label_search_overreads_witness:
  "search \<lparr>num_bytes = 13, labels = map word_of_nat [97..<109] @ [0]\<rparr> 120 0 12 = Inl Undefined_behaviour"
proof -
  have "make_label_vector [map word_of_nat [97..<109]] 0 1 = Inr \<lparr>num_bytes = 13, labels = map word_of_nat [97..<109] @ [0]\<rparr>"
    using make_label_vector_ok[of 1 "[map word_of_nat [97..<109]]" 0] by (simp add: range_labels_def alloc_bytes_def)
  moreover have "120 \<notin> set (window \<lparr>num_bytes = 13, labels = map word_of_nat [97..<109] @ [0]\<rparr> 0 12)"
    "labels \<lparr>num_bytes = 13, labels = map word_of_nat [97..<109] @ [0]\<rparr> ! 0 \<noteq> kTerminator" by code_simp+
  ultimately show ?thesis using label_search_overreads[of "[map word_of_nat [97..<109]]" 0 1 _ 12 0 120] by simp
qed



end
