(* ===== verification/Spec2Isabelle.thy ===== *)
theory Spec2Isabelle
  imports RDF_Histories SuRF_RankSelect SuRF_Labels
begin

text \<open>
  A verification library for the range delete filters of Spry, a RocksDB tree that answers point
  queries under range deletes with in-memory filters. The sources are
  src/development/rocksdb/include/rocksdb/sys_rdfilter.h (the filters and the bundle a version
  carries) and src/development/rocksdb/include/rocksdb/SuRF/include (the SuRF filter).

  \<^bold>\<open>The parts and how they interact.\<close> A version of the database owns a \<open>VersionRDFBundle\<close> of nine
  filters. Every flush, compaction, direct move and direct removal fills an \<open>RDFUpdateMetadata\<close>, and
  \<open>ApplyDelta\<close> applies it to all nine. A point query asks a filter, level by level, whether a range
  tombstone of that level deletes the key. There are three kinds of filters:

  \<^item> per-level filters, \<open>PLRDF_t\<close> for string keys and \<open>PLRDF\<close> for \<open>long long\<close> keys: for each level a
    sorted list of merged ranges and a list of split keys exempt from them, for level 0 one list per
    file, and beside them the tracing tables with the tombstones of every file;
  \<^item> the skyline filter \<open>SkyLineRDF\<close>: one list of segments with the largest sequence number over each;
  \<^item> SuRF filters \<open>SuRF_RDF\<close>: per file a trie of the end points of its ranges, marked with left and
    right parentheses, with keys optionally condensed from decimal digits to bytes.

  \<^bold>\<open>The theories.\<close>

  \<^item> Cxx_Prelude: errors and results, loops that may fail, the standard library's searches, ordered
    maps, conversions of integers. Range_Lists: half-open ranges, the keys they cover (\<open>cover\<close>), the
    canonical form and its uniqueness. RDF_Contract: the locales \<open>range_delete_filter\<close> and
    \<open>splittable_filter\<close>, what a filter promises its callers.
  \<^item> PLRDF_Lists, PLRDF_Cuts: the list routines of \<open>PLRDF_t\<close> (merging, adding, cutting, splitting), loop
    by loop. PLRDF_Filter: the record \<open>plrdf\<close> and every method of the class on levels and level-0 files,
    the counters and the point query; \<open>plrdf_inv\<close> is the invariant, \<open>dead\<close> the abstraction, and the
    contract is interpreted here. PLRDF_Runs: the abstract specification \<open>deletes\<close> with \<open>spec_op\<close>, the
    refinement of every call, and runs. PLRDF_Tracing: the tracing tables and the consistency check.
    PLRDF_LongLong: the class \<open>PLRDF\<close>, method by method, and its agreement with the template.
  \<^item> Skyline_RDF: the sweep with its priority queue, the join of neighbours, the binary search; the
    reference is \<open>max_seq\<close>.
  \<^item> SuRF_Utils: decimal and byte strings, padding, truncation. SuRF_Ranges: ranges to keys with
    parentheses and back, the decision of the query. SuRF_Filter: \<open>SuRF_RDF\<close> with its table of files.
  \<^item> The vectors inside the trie of a SuRF. SuRF_Bits: \<open>Bitvector\<close>, words read as lists of bits and the
    concatenation of the levels. SuRF_RankSelect: \<open>BitvectorRank\<close> and \<open>BitvectorSelect\<close> with their tables.
    SuRF_Labels: \<open>LabelVector\<close> and its searches.
  \<^item> RDF_Bundle: \<open>VersionRDFBundle\<close>, \<open>RDFUpdateMetadata\<close> and the handlers \<open>ApplyDelta\<close>,
    \<open>ApplyFlushDelta\<close>, \<open>ApplyCompactionDelta\<close>, \<open>ApplyDirectRemovalDelta\<close> with the logs. RDF_Agreement:
    the translations between the keys of the filters (locale \<open>key_translation\<close>), the tombstones of a
    compaction, and each filter's part of an update. RDF_Updates: the invariant of the bundle, what the
    jobs guarantee (\<open>delta_ok\<close>), and the handlers. RDF_Histories: sequences of updates, agreement of the
    filters, and the properties of the whole.

  \<^bold>\<open>State and errors.\<close> A class is a record and a method a function on it; a method that may not return
  yields \<open>error + 'a\<close>. \<open>assert\<close> depends on the argument \<open>build\<close>: with \<open>Debug\<close> it fails with
  \<open>Assert_failed\<close>, with \<open>NDebug\<close> it is skipped. An index out of range is \<open>Undefined_behaviour\<close>. Integers
  are kept at their width where the code computes with them (\<open>u32\<close> counters, \<open>wrap32\<close>, \<open>u64\<close> limbs) and
  are \<open>int\<close> or \<open>nat\<close> where it only compares them.

  \<^bold>\<open>What the lemmas show.\<close> For each filter: every method keeps the invariant, never reaches an error
  under the callers' guarantees, and acts on the set of deleted keys as a set operation; queries are
  exact. For the optimised routines: equality with a reference (the two-iterator merge with sorting
  and merging, the skyline with the maximum over all tombstones, the class \<open>PLRDF\<close> with the template).
  For the encodings: round trips and preservation of order. For the vectors of the trie: the
  constructors establish the invariants (\<open>bv_ok\<close>, \<open>rank_ok\<close>, \<open>select_ok\<close>) or overrun their array, rank and
  select are inverse, and every search for a label agrees with a scan. For the bundle: an update refines the
  specification of all nine filters, a history of updates is applied to its end, filters of numbers
  and strings stay in agreement, and a compaction loses no delete. Some properties describe what the
  code does where it departs from its comments or loses information (per-level flush of SuRF, files
  moved to their own level, keys cut short, the public \<open>addRangeDelete\<close>, logs on a gap between levels).

  \<^bold>\<open>Bounds and termination.\<close> No definition uses fuel: every loop is a structural recursion or has a
  termination proof by a measure on the iterators it advances, except \<open>sample_loop\<close>, which ends only for
  a positive sample interval and is a partial function; \<open>initSelectLut_ok\<close> shows that it ends. Counts of SuRF ranges are below
  \<open>2 ^ 31\<close> in the hypotheses because the code counts them in an \<open>int\<close>; numbers have at most 18 digits
  so that \<open>std::stoll\<close> accepts them. The properties of \<open>ApplyDelta\<close> are for a release build: with
  assertions recording the memory usage may abort.

  \<^bold>\<open>Not modelled.\<close> The navigation of the trie inside a SuRF (surf_builder, louds_dense, louds_sparse,
  suffix) is the parameter \<open>surf_ops\<close> of the definitions that use it, and
  \<open>trie_ok\<close> states what they rely on. RocksDB itself (flush and compaction jobs, versions, tables) is
  represented by the updates it sends. The emulator, the workload generator, the system verifier and
  the experiment drivers run or measure the filters. Printing and the false-positive rate, a quotient
  of two counters in floating point, have no effect on the state.
\<close>

end
